(* ===== verification/Tlkm_Prelude.thy ===== *)
theory Tlkm_Prelude
  imports Main "HOL-Library.Word"
begin

text \<open>
  Shared vocabulary of the development: the machine integers of the driver (a 64-bit
  platform, so \<^verbatim>\<open>size_t\<close>, \<^verbatim>\<open>uintptr_t\<close> and \<^verbatim>\<open>dma_addr_t\<close> are 64 bits wide), the
  kernel error numbers the driver returns, and the generic lemmas on words and lists that
  several components use. Kernel functions return \<^verbatim>\<open>int\<close> or \<^verbatim>\<open>long\<close> codes; the model keeps
  them as \<^typ>\<open>int\<close> with the same sign convention (zero for success, a negated error number
  for failure).
\<close>

unbundle bit_operations_syntax

named_theorems errno_defs
named_theorems tlkm_const

type_synonym u8 = "8 word"
type_synonym u16 = "16 word"
type_synonym u32 = "32 word"
type_synonym u64 = "64 word"

text \<open>Error numbers of \<^verbatim>\<open>asm-generic/errno-base.h\<close> used by the driver.\<close>

definition EIO :: int where [errno_defs]: "EIO = 5"
definition ENXIO :: int where [errno_defs]: "ENXIO = 6"
definition ENOENT :: int where [errno_defs]: "ENOENT = 2"
definition EINTR :: int where [errno_defs]: "EINTR = 4"
definition EAGAIN :: int where [errno_defs]: "EAGAIN = 11"
definition ENOMEM :: int where [errno_defs]: "ENOMEM = 12"
definition EACCES :: int where [errno_defs]: "EACCES = 13"
definition EFAULT :: int where [errno_defs]: "EFAULT = 14"
definition EBUSY :: int where [errno_defs]: "EBUSY = 16"
definition ENODEV :: int where [errno_defs]: "ENODEV = 19"
definition EINVAL :: int where [errno_defs]: "EINVAL = 22"
definition EMFILE :: int where [errno_defs]: "EMFILE = 24"
definition ENOSPC :: int where [errno_defs]: "ENOSPC = 28"
definition ETIME :: int where [errno_defs]: "ETIME = 62"

section \<open>Words\<close>

lemma unat_plus_one [simp]:
  fixes w :: "'a::len word"
  assumes "Suc (unat w) < 2 ^ LENGTH('a)"
  shows "unat (w + 1) = Suc (unat w)"
  using assms by (simp add: unat_word_ariths)

lemma unat_plus_one_less:
  fixes w :: "'a::len word"
  assumes "w < v"
  shows "unat (w + 1) = Suc (unat w)"
proof (rule unat_plus_one)
  have "Suc (unat w) \<le> unat v" using assms by (simp add: word_less_nat_alt)
  also have "\<dots> < 2 ^ LENGTH('a)" by simp
  finally show "Suc (unat w) < 2 ^ LENGTH('a)" .
qed

lemma less_plus_one_iff:
  fixes w :: "'a::len word"
  shows "w < v \<Longrightarrow> i < w + 1 \<longleftrightarrow> i < w \<or> i = w"
  by (auto simp: word_less_nat_alt unat_plus_one_less less_Suc_eq simp flip: word_unat_eq_iff)

lemma ucast_32_word_of_nat [simp]: "ucast (word_of_nat n :: u64) = (word_of_nat n :: u32)"
  by transfer simp

lemma unat_32_less [simp]: "unat (w :: u32) < 4294967296"
  using unsigned_less [of w] by simp

lemma unat_64_less [simp]: "unat (w :: u64) < 18446744073709551616"
  using unsigned_less [of w] by simp

end
