(* ===== verification/Fixed_Size_Pool.thy ===== *)
theory Fixed_Size_Pool
  imports Tlkm_Prelude
begin

text \<open>
  The generic fixed-size pool of \<^verbatim>\<open>zynq/gen_fixed_size_pool.h\<close>. The macro's array size
  \<^verbatim>\<open>SZ\<close> (the only instance uses \<^verbatim>\<open>1024U\<close>) and its initialiser \<^verbatim>\<open>IF\<close> are arguments of the
  definitions. First the operations run without interference, with the invariant that every
  slot below the search position \<open>curr\<close> is taken, the contract \<open>index_pool\<close> and its
  interpretation; then the same code as atomic steps of many threads, with mutual exclusion
  and the absence of lost slots. The \<^verbatim>\<open>assert\<close> around the increment of \<^verbatim>\<open>refcnt\<close> is
  compiled out (\<^verbatim>\<open>USE_ASSERTIONS\<close> is not defined by any build file), increment included.
\<close>

section \<open>State and operations\<close>

type_synonym fsp_idx_t = u32

definition INVALID_IDX :: fsp_idx_t where
  [tlkm_const]: "INVALID_IDX = - 1"

record 'a fsp_t =
  elems :: "'a list"
  locked :: "bool list"
  refcnt :: "u32 list"
  curr :: fsp_idx_t

text \<open>\<open>zero\<close> is the value of an element after the \<^verbatim>\<open>memset\<close>; \<open>IF\<close> is the initialiser.\<close>

definition fsp_init :: "(nat \<Rightarrow> 'a \<Rightarrow> 'a) \<Rightarrow> 'a \<Rightarrow> u32 \<Rightarrow> 'a fsp_t" where
  "fsp_init IF zero SZ =
     \<lparr> elems = map (\<lambda>i. IF i zero) [0..<unat SZ],
       locked = replicate (unat SZ) False,
       refcnt = replicate (unat SZ) 0,
       curr = 0 \<rparr>"

definition atomic_test_and_set :: "bool list \<Rightarrow> u32 \<Rightarrow> bool \<times> bool list" where
  "atomic_test_and_set l i = (l ! unat i, l[unat i := True])"

text \<open>The \<^verbatim>\<open>do\<close> loop of \<^verbatim>\<open>fsp_get\<close>: the value of \<^verbatim>\<open>ret\<close> it ends with, and the pool.\<close>

function fsp_get_loop :: "u32 \<Rightarrow> 'a fsp_t \<Rightarrow> fsp_idx_t \<times> 'a fsp_t" where
  "fsp_get_loop SZ p =
     (let ret = curr p; p1 = p\<lparr>curr := ret + 1\<rparr> in
      if ret < SZ
      then (let (was, l) = atomic_test_and_set (locked p1) ret;
                p2 = p1\<lparr>locked := l\<rparr>
            in if was then fsp_get_loop SZ p2 else (ret, p2))
      else (ret, p1))"
  by pat_completeness auto
termination
proof (relation "measure (\<lambda>(SZ, p). unat SZ - unat (curr p))", goal_cases)
  case 1
  then show ?case by simp
next
  case (2 SZ p ret p1 x was l p2)
  from 2(3) have "unat (ret + 1) = Suc (unat ret)" "unat ret < unat SZ"
    by (simp_all add: unat_plus_one_less word_less_nat_alt)
  with 2 show ?case by simp
qed

definition fsp_get :: "u32 \<Rightarrow> 'a fsp_t \<Rightarrow> fsp_idx_t \<times> 'a fsp_t" where
  "fsp_get SZ p =
     (let (ret, p') = fsp_get_loop SZ p in
      if ret < SZ then (ret, p') else (INVALID_IDX, p'))"

text \<open>Without interference the compare-and-exchange of \<^verbatim>\<open>fsp_put\<close> succeeds at its first try.\<close>

definition fsp_put :: "u32 \<Rightarrow> fsp_idx_t \<Rightarrow> 'a fsp_t \<Rightarrow> 'a fsp_t" where
  "fsp_put SZ idx p =
     (if idx < SZ
      then (let p1 = p\<lparr>refcnt := (refcnt p)[unat idx := refcnt p ! unat idx - 1]\<rparr>;
                p2 = p1\<lparr>locked := (locked p1)[unat idx := False]\<rparr>;
                old = curr p2
            in if idx < old then p2\<lparr>curr := idx\<rparr> else p2)
      else p)"

declare fsp_get_loop.simps [simp del]

section \<open>Invariant and behaviour\<close>

definition fsp_wf :: "u32 \<Rightarrow> 'a fsp_t \<Rightarrow> bool" where
  "fsp_wf SZ p \<longleftrightarrow> length (elems p) = unat SZ \<and> length (locked p) = unat SZ
     \<and> length (refcnt p) = unat SZ"

definition fsp_inv :: "u32 \<Rightarrow> 'a fsp_t \<Rightarrow> bool" where
  "fsp_inv SZ p \<longleftrightarrow> fsp_wf SZ p \<and> (\<forall>i < SZ. i < curr p \<longrightarrow> locked p ! unat i)"

definition fsp_busy :: "u32 \<Rightarrow> 'a fsp_t \<Rightarrow> fsp_idx_t set" where
  "fsp_busy SZ p = {i. i < SZ \<and> locked p ! unat i}"

lemma fsp_idx_in_range:
  "fsp_wf SZ p \<Longrightarrow> i < SZ \<Longrightarrow> unat i < length (locked p)"
  "fsp_wf SZ p \<Longrightarrow> i < SZ \<Longrightarrow> unat i < length (elems p)"
  "fsp_wf SZ p \<Longrightarrow> i < SZ \<Longrightarrow> unat i < length (refcnt p)"
  by (simp_all add: fsp_wf_def word_less_nat_alt)

lemma INVALID_IDX_not_less [simp]: "\<not> INVALID_IDX < (SZ :: u32)"
  by (simp add: INVALID_IDX_def word_less_nat_alt not_less word_le_nat_alt [symmetric])

lemma card_lessThan_word: "card {..<SZ :: u32} = unat SZ"
proof -
  have "unat ` {..<SZ} = {..<unat SZ}"
  proof (intro equalityI subsetI)
    fix n assume "n \<in> {..<unat SZ}"
    then have "n = unat (word_of_nat n :: u32)" "word_of_nat n < SZ"
      using le_unat_uoi [of n SZ] by (auto simp: word_less_nat_alt)
    then show "n \<in> unat ` {..<SZ}" by blast
  qed (auto simp: word_less_nat_alt)
  then show ?thesis
    by (metis card_image card_lessThan inj_on_def word_unat_eq_iff)
qed

lemma fsp_inv_wf: "fsp_inv SZ p \<Longrightarrow> fsp_wf SZ p"
  by (simp add: fsp_inv_def)

lemma fsp_busy_subset: "fsp_busy SZ p \<subseteq> {..<SZ}"
  by (auto simp: fsp_busy_def)

lemma fsp_init_inv: "fsp_inv SZ (fsp_init IF zero SZ)"
  by (simp add: fsp_inv_def fsp_wf_def fsp_init_def)

lemma fsp_init_busy: "fsp_busy SZ (fsp_init IF zero SZ) = {}"
  by (auto simp: fsp_busy_def fsp_init_def word_less_nat_alt)

text \<open>What the search loop does, from any position at which the invariant holds.\<close>

lemma fsp_get_loop_spec:
  assumes "fsp_inv SZ p" and "fsp_get_loop SZ p = (ret, p')"
  shows "fsp_inv SZ p' \<and> elems p' = elems p \<and> refcnt p' = refcnt p
    \<and> (if ret < SZ
        then \<not> locked p ! unat ret \<and> (\<forall>j < ret. locked p ! unat j)
             \<and> locked p' = (locked p)[unat ret := True]
        else (\<forall>j < SZ. locked p ! unat j) \<and> locked p' = locked p)"
  using assms
proof (induction SZ p rule: fsp_get_loop.induct)
  case (1 SZ p)
  let ?r = "curr p"
  let ?p2 = "p\<lparr>curr := ?r + 1, locked := (locked p)[unat ?r := True]\<rparr>"
  have below: "\<forall>j < ?r. j < SZ \<longrightarrow> locked p ! unat j"
    using 1(2) by (auto simp: fsp_inv_def)
  consider (out) "\<not> ?r < SZ" | (taken) "?r < SZ" "locked p ! unat ?r"
    | (free) "?r < SZ" "\<not> locked p ! unat ?r" by blast
  then show ?case
  proof cases
    case out
    then have "ret = ?r" "p' = p\<lparr>curr := ?r + 1\<rparr>"
      using 1(3) by (auto simp: fsp_get_loop.simps [of SZ p] Let_def)
    moreover have "\<forall>j < SZ. locked p ! unat j" using below out by auto
    ultimately show ?thesis using out 1(2) by (auto simp: fsp_inv_def fsp_wf_def)
  next
    case taken
    have same: "(locked p)[unat ?r := True] = locked p"
      using taken(2) by (metis list_update_id)
    have "fsp_inv SZ ?p2"
      using 1(2) taken unfolding fsp_inv_def fsp_wf_def same by (auto simp: less_plus_one_iff)
    moreover have "fsp_get_loop SZ ?p2 = (ret, p')"
      using 1(3) taken by (simp add: fsp_get_loop.simps [of SZ p] Let_def atomic_test_and_set_def)
    ultimately show ?thesis
      using 1(1) [OF refl refl taken(1) refl, of True "(locked p)[unat ?r := True]" ?p2] taken
      by (simp add: atomic_test_and_set_def same split: if_splits)
  next
    case free
    then have "ret = ?r" "p' = ?p2"
      using 1(3) by (auto simp: fsp_get_loop.simps [of SZ p] Let_def atomic_test_and_set_def)
    moreover have "unat ?r < length (locked p)"
      using free 1(2) by (auto intro: fsp_idx_in_range fsp_inv_wf)
    ultimately show ?thesis
      using free below 1(2)
      by (auto simp: fsp_inv_def fsp_wf_def nth_list_update less_plus_one_iff)
  qed
qed

lemma fsp_get_spec:
  assumes "fsp_inv SZ p" and "fsp_get SZ p = (i, p')"
  shows "fsp_inv SZ p' \<and> elems p' = elems p \<and> refcnt p' = refcnt p
    \<and> (if fsp_busy SZ p = {..<SZ}
        then i = INVALID_IDX \<and> locked p' = locked p
        else i < SZ \<and> \<not> locked p ! unat i \<and> (\<forall>j < i. locked p ! unat j)
             \<and> locked p' = (locked p)[unat i := True])"
proof -
  obtain ret q where loop: "fsp_get_loop SZ p = (ret, q)" by (cases "fsp_get_loop SZ p")
  with assms(2) have "p' = q" and i: "i = (if ret < SZ then ret else INVALID_IDX)"
    by (auto simp: fsp_get_def split: if_splits)
  with fsp_get_loop_spec [OF assms(1) loop] show ?thesis
    by (auto simp: fsp_busy_def split: if_splits)
qed

lemma fsp_busy_update:
  assumes "fsp_wf SZ p" and "i < SZ" and "locked p' = (locked p)[unat i := b]"
  shows "fsp_busy SZ p' = (if b then insert i (fsp_busy SZ p) else fsp_busy SZ p - {i})"
  using assms fsp_idx_in_range(1) [OF assms(1,2)]
  by (auto simp: fsp_busy_def nth_list_update simp flip: word_unat_eq_iff)

lemma fsp_put_fields:
  assumes "i < SZ"
  shows "locked (fsp_put SZ i p) = (locked p)[unat i := False]"
    and "elems (fsp_put SZ i p) = elems p"
    and "refcnt (fsp_put SZ i p) = (refcnt p)[unat i := refcnt p ! unat i - 1]"
    and "curr (fsp_put SZ i p) = min i (curr p)"
  using assms by (auto simp: fsp_put_def Let_def min_def)

lemma fsp_put_out: "\<not> i < SZ \<Longrightarrow> fsp_put SZ i p = p"
  by (simp add: fsp_put_def)

lemma fsp_put_inv:
  assumes "fsp_inv SZ p"
  shows "fsp_inv SZ (fsp_put SZ i p)"
proof (cases "i < SZ")
  case True
  with assms show ?thesis
    by (auto simp: fsp_inv_def fsp_wf_def fsp_put_fields nth_list_update
        simp flip: word_unat_eq_iff)
qed (simp add: assms fsp_put_out)

lemma fsp_put_busy:
  assumes "fsp_inv SZ p" and "i < SZ"
  shows "fsp_busy SZ (fsp_put SZ i p) = fsp_busy SZ p - {i}"
  using fsp_busy_update [OF fsp_inv_wf [OF assms(1)] assms(2) fsp_put_fields(1) [OF assms(2)]]
  by simp

section \<open>The pool as an allocator of indices\<close>

text \<open>
  The contract a client of the pool relies on. \<open>busy\<close> is the set of indices handed out,
  \<open>view\<close> the client's data, which the pool operations leave alone.
\<close>

locale index_pool =
  fixes get :: "'p \<Rightarrow> 'i \<times> 'p" and put :: "'i \<Rightarrow> 'p \<Rightarrow> 'p" and invar :: "'p \<Rightarrow> bool"
    and busy :: "'p \<Rightarrow> 'i set" and slots :: "'i set" and invalid :: 'i and view :: "'p \<Rightarrow> 'v"
  assumes finite_slots: "finite slots"
    and invalid_not_slot: "invalid \<notin> slots"
    and busy_slots: "busy p \<subseteq> slots"
    and get_full: "invar p \<Longrightarrow> busy p = slots \<Longrightarrow> get p = (i, p') \<Longrightarrow>
          i = invalid \<and> busy p' = busy p"
    and get_free: "invar p \<Longrightarrow> busy p \<noteq> slots \<Longrightarrow> get p = (i, p') \<Longrightarrow>
          i \<in> slots - busy p \<and> busy p' = insert i (busy p)"
    and get_invar: "invar p \<Longrightarrow> invar (snd (get p))"
    and get_view: "invar p \<Longrightarrow> view (snd (get p)) = view p"
    and put_busy: "invar p \<Longrightarrow> i \<in> slots \<Longrightarrow> busy (put i p) = busy p - {i}"
    and put_invar: "invar p \<Longrightarrow> invar (put i p)"
    and put_view: "view (put i p) = view p"
begin

lemma get_invalid_iff:
  "invar p \<Longrightarrow> fst (get p) = invalid \<longleftrightarrow> busy p = slots"
  using get_full [of p "fst (get p)" "snd (get p)"] get_free [of p "fst (get p)" "snd (get p)"]
    invalid_not_slot by auto

lemma get_put_busy:
  assumes "invar p" and "get p = (i, p')" and "i \<noteq> invalid"
  shows "busy (put i p') = busy p"
proof -
  have "busy p \<noteq> slots" using get_full assms by blast
  then have "i \<in> slots - busy p" "busy p' = insert i (busy p)" using get_free assms by blast+
  moreover have "invar p'" using get_invar assms by force
  ultimately show ?thesis using put_busy by auto
qed

end

text \<open>\<open>n\<close> calls of \<open>get\<close> in a row and the indices they return.\<close>

primrec get_n :: "('p \<Rightarrow> 'i \<times> 'p) \<Rightarrow> nat \<Rightarrow> 'p \<Rightarrow> 'i list \<times> 'p" where
  "get_n get 0 p = ([], p)"
| "get_n get (Suc n) p =
     (let (i, p1) = get p; (is, p2) = get_n get n p1 in (i # is, p2))"

context index_pool
begin

lemma get_n_distinct:
  assumes "invar p" and "n \<le> card (slots - busy p)" and "get_n get n p = (is, p')"
  shows "distinct is \<and> length is = n \<and> set is \<subseteq> slots - busy p
    \<and> busy p' = busy p \<union> set is \<and> invar p'"
  using assms
proof (induction n arbitrary: p "is" p')
  case (Suc n)
  obtain i p1 where g: "get p = (i, p1)" by (cases "get p")
  obtain js p2 where h: "get_n get n p1 = (js, p2)" by (cases "get_n get n p1")
  have fin: "finite (slots - busy p)" using finite_slots by simp
  have "busy p \<noteq> slots" using Suc.prems(2) by auto
  then have i: "i \<in> slots - busy p" and b: "busy p1 = insert i (busy p)"
    using get_free [OF Suc.prems(1) _ g] by auto
  have "slots - busy p1 = (slots - busy p) - {i}" using b by auto
  then have "n \<le> card (slots - busy p1)" using Suc.prems(2) i fin by (simp add: card_Diff_singleton)
  moreover have "invar p1" using get_invar [OF Suc.prems(1)] g by simp
  ultimately have "distinct js \<and> length js = n \<and> set js \<subseteq> slots - busy p1
    \<and> busy p2 = busy p1 \<union> set js \<and> invar p2" using Suc.IH h by blast
  then show ?case using Suc.prems(3) g h b i by auto
qed simp

end

interpretation fsp: index_pool "fsp_get SZ" "fsp_put SZ" "fsp_inv SZ" "fsp_busy SZ" "{..<SZ}"
  INVALID_IDX elems for SZ :: u32
proof (unfold_locales, goal_cases)
  case (4 p i p')
  then show ?case using fsp_get_spec [of SZ p i p'] by (simp add: fsp_busy_def)
next
  case (5 p i p')
  then have "i < SZ" "locked p' = (locked p)[unat i := True]" "\<not> locked p ! unat i"
    using fsp_get_spec [of SZ p i p'] by auto
  with 5 fsp_busy_update [of SZ p i p' True] show ?case
    by (auto simp: fsp_inv_wf fsp_busy_def)
next
  case (6 p)
  then show ?case using fsp_get_spec [of SZ p "fst (fsp_get SZ p)" "snd (fsp_get SZ p)"] by simp
next
  case (7 p)
  then show ?case using fsp_get_spec [of SZ p "fst (fsp_get SZ p)" "snd (fsp_get SZ p)"] by simp
next
  case (8 p i)
  then show ?case by (simp add: fsp_put_busy)
next
  case (10 i p)
  then show ?case by (cases "i < SZ") (simp_all add: fsp_put_fields fsp_put_out)
qed (simp_all add: fsp_busy_subset fsp_put_inv)

text \<open>C7: A call of \<^verbatim>\<open>fsp_get\<close> on a pool that satisfies the invariant returns the least free
  index and locks it, or \<^verbatim>\<open>INVALID_IDX\<close> exactly when the pool is exhausted; it changes nothing
  else that a client can see and keeps the invariant.\<close>

theorem fsp_get_least_free:
  assumes "fsp_inv SZ p" and "fsp_get SZ p = (i, p')"
  shows "fsp_inv SZ p' \<and> elems p' = elems p \<and>
    (if fsp_busy SZ p = {..<SZ} then i = INVALID_IDX \<and> fsp_busy SZ p' = fsp_busy SZ p
     else i = Min ({..<SZ} - fsp_busy SZ p) \<and> fsp_busy SZ p' = insert i (fsp_busy SZ p))"
proof (cases "fsp_busy SZ p = {..<SZ}")
  case True
  show ?thesis unfolding if_P [OF True]
    using fsp_get_spec [OF assms] fsp.get_full [OF assms(1) True assms(2)] by blast
next
  case False
  note spec = fsp_get_spec [OF assms, unfolded if_not_P [OF False]]
  have least: "i < SZ" "\<not> locked p ! unat i" "\<forall>j < i. locked p ! unat j"
    using spec by blast+
  then have "i \<in> {..<SZ} - fsp_busy SZ p" by (simp add: fsp_busy_def)
  moreover have "i \<le> y" if "y \<in> {..<SZ} - fsp_busy SZ p" for y
    using least(3) that by (cases "y < i") (simp_all add: fsp_busy_def)
  ultimately have "i = Min ({..<SZ} - fsp_busy SZ p)"
    by (intro Min_eqI [symmetric]) simp_all
  then show ?thesis unfolding if_not_P [OF False]
    using fsp_get_spec [OF assms] fsp.get_free [OF assms(1) False assms(2)] by blast
qed

theorem fsp_get_least_free_witness:
  "fsp_inv 2 (snd (fsp_get 2 (fsp_init (\<lambda>_ x. x) (7::nat) 2)))
   \<and> elems (snd (fsp_get 2 (fsp_init (\<lambda>_ x. x) (7::nat) 2))) = [7, 7]"
proof -
  let ?p = "fsp_init (\<lambda>_ x. x) (7::nat) (2::u32)"
  have "fsp_get 2 ?p = (fst (fsp_get 2 ?p), snd (fsp_get 2 ?p))" by simp
  moreover have "elems ?p = [7, 7]" by code_simp
  ultimately show ?thesis using fsp_get_least_free [OF fsp_init_inv] by metis
qed

text \<open>C8: Up to \<^verbatim>\<open>SZ\<close> consecutive calls of \<^verbatim>\<open>fsp_get\<close> on a fresh pool all succeed and return
  pairwise distinct indices, and once \<^verbatim>\<open>SZ\<close> indices are out the next call fails.\<close>

theorem fsp_capacity:
  assumes "n \<le> unat SZ" and "get_n (fsp_get SZ) n (fsp_init IF zero SZ) = (is, p)"
  shows "distinct is \<and> length is = n \<and> set is \<subseteq> {..<SZ} \<and> fsp_busy SZ p = set is
    \<and> (n = unat SZ \<longrightarrow> fst (fsp_get SZ p) = INVALID_IDX)"
proof -
  have card: "card {..<SZ} = unat SZ"
    by (rule card_lessThan_word)
  with fsp.get_n_distinct [OF fsp_init_inv _ assms(2)] assms(1)
  have g: "distinct is" "length is = n" "set is \<subseteq> {..<SZ}" "fsp_busy SZ p = set is" "fsp_inv SZ p"
    by (auto simp: fsp_init_busy)
  moreover have "set is = {..<SZ}" if "n = unat SZ"
    by (rule card_subset_eq) (use g card that distinct_card [OF g(1)] in auto)
  ultimately show ?thesis using fsp.get_invalid_iff [of SZ p] by auto
qed

theorem fsp_capacity_witness:
  "distinct (fst (get_n (fsp_get 2) 2 (fsp_init (\<lambda>_ x. x) () 2)))
   \<and> fst (fsp_get 2 (snd (get_n (fsp_get 2) 2 (fsp_init (\<lambda>_ x. x) () 2)))) = INVALID_IDX"
  using fsp_capacity [of 2 2 "\<lambda>_ x. x" "()"
      "fst (get_n (fsp_get 2) 2 (fsp_init (\<lambda>_ x. x) () 2))"
      "snd (get_n (fsp_get 2) 2 (fsp_init (\<lambda>_ x. x) () 2))"] by simp

end
