(* ===== verification/Fixed_Size_Pool_Conc.thy ===== *)
theory Fixed_Size_Pool_Conc
  imports Fixed_Size_Pool
begin

text \<open>
  \<^verbatim>\<open>fsp_get\<close> and \<^verbatim>\<open>fsp_put\<close> of \<^verbatim>\<open>zynq/gen_fixed_size_pool.h\<close> executed by many threads. The
  macros use sequentially consistent atomic operations, so an execution is an interleaving
  of steps, each of which performs one atomic access. The program counter of a thread says
  which access of which operation it performs next and holds the local variables \<^verbatim>\<open>ret\<close>,
  \<^verbatim>\<open>idx\<close> and \<^verbatim>\<open>old\<close>. The ghost field \<open>held\<close> is the set of indices that \<^verbatim>\<open>fsp_get\<close> returned
  and that no thread has passed to \<^verbatim>\<open>fsp_put\<close> since; a thread only puts an index that is
  held, which is the pool's calling convention.
\<close>

section \<open>Threads and steps\<close>

datatype pool_pc =
    Idle
  | GetAdd                       \<comment> \<open>before the fetch-and-add of \<open>curr\<close>\<close>
  | GetTas fsp_idx_t             \<comment> \<open>before the test-and-set of \<open>locked[ret]\<close>\<close>
  | PutSub fsp_idx_t             \<comment> \<open>before the decrement of \<open>refcnt[idx]\<close>\<close>
  | PutClear fsp_idx_t           \<comment> \<open>before the clear of \<open>locked[idx]\<close>\<close>
  | PutRead fsp_idx_t            \<comment> \<open>before the read of \<open>curr\<close> into \<open>old\<close>\<close>
  | PutCas fsp_idx_t fsp_idx_t   \<comment> \<open>before the compare-and-exchange\<close>

datatype 't pool_label = Tau 't | Got 't fsp_idx_t | Failed 't | Release 't fsp_idx_t

record ('a, 't) pool_sys =
  pool :: "'a fsp_t"
  pcs :: "'t \<Rightarrow> pool_pc"
  held :: "fsp_idx_t set"

definition goto :: "'t \<Rightarrow> pool_pc \<Rightarrow> ('a, 't) pool_sys \<Rightarrow> ('a, 't) pool_sys" where
  "goto t pc s = s\<lparr>pcs := (pcs s)(t := pc)\<rparr>"

inductive fsp_step ::
  "u32 \<Rightarrow> ('a, 't) pool_sys \<Rightarrow> 't pool_label \<Rightarrow> ('a, 't) pool_sys \<Rightarrow> bool" for SZ where
  get_call: "pcs s t = Idle \<Longrightarrow> fsp_step SZ s (Tau t) (goto t GetAdd s)"
| get_add: "pcs s t = GetAdd \<Longrightarrow> curr (pool s) < SZ \<Longrightarrow>
    fsp_step SZ s (Tau t)
      (goto t (GetTas (curr (pool s))) (s\<lparr>pool := (pool s)\<lparr>curr := curr (pool s) + 1\<rparr>\<rparr>))"
| get_fail: "pcs s t = GetAdd \<Longrightarrow> \<not> curr (pool s) < SZ \<Longrightarrow>
    fsp_step SZ s (Failed t)
      (goto t Idle (s\<lparr>pool := (pool s)\<lparr>curr := curr (pool s) + 1\<rparr>\<rparr>))"
| get_retry: "pcs s t = GetTas ret \<Longrightarrow> atomic_test_and_set (locked (pool s)) ret = (True, l) \<Longrightarrow>
    fsp_step SZ s (Tau t) (goto t GetAdd (s\<lparr>pool := (pool s)\<lparr>locked := l\<rparr>\<rparr>))"
| get_ret: "pcs s t = GetTas ret \<Longrightarrow> atomic_test_and_set (locked (pool s)) ret = (False, l) \<Longrightarrow>
    fsp_step SZ s (Got t ret)
      (goto t Idle (s\<lparr>pool := (pool s)\<lparr>locked := l\<rparr>, held := insert ret (held s)\<rparr>))"
| put_call: "pcs s t = Idle \<Longrightarrow> idx \<in> held s \<Longrightarrow> idx < SZ \<Longrightarrow>
    fsp_step SZ s (Release t idx) (goto t (PutSub idx) (s\<lparr>held := held s - {idx}\<rparr>))"
| put_sub: "pcs s t = PutSub idx \<Longrightarrow>
    fsp_step SZ s (Tau t)
      (goto t (PutClear idx) (s\<lparr>pool := (pool s)\<lparr>refcnt :=
         (refcnt (pool s))[unat idx := refcnt (pool s) ! unat idx - 1]\<rparr>\<rparr>))"
| put_clear: "pcs s t = PutClear idx \<Longrightarrow>
    fsp_step SZ s (Tau t)
      (goto t (PutRead idx)
        (s\<lparr>pool := (pool s)\<lparr>locked := (locked (pool s))[unat idx := False]\<rparr>\<rparr>))"
| put_done: "pcs s t = PutRead idx \<Longrightarrow> \<not> idx < curr (pool s) \<Longrightarrow>
    fsp_step SZ s (Tau t) (goto t Idle s)"
| put_read: "pcs s t = PutRead idx \<Longrightarrow> idx < curr (pool s) \<Longrightarrow>
    fsp_step SZ s (Tau t) (goto t (PutCas idx (curr (pool s))) s)"
| put_cas: "pcs s t = PutCas idx old \<Longrightarrow> curr (pool s) = old \<Longrightarrow>
    fsp_step SZ s (Tau t) (goto t Idle (s\<lparr>pool := (pool s)\<lparr>curr := idx\<rparr>\<rparr>))"
| put_retry: "pcs s t = PutCas idx old \<Longrightarrow> curr (pool s) \<noteq> old \<Longrightarrow>
    fsp_step SZ s (Tau t) (goto t (PutRead idx) s)"

definition pool_start :: "(nat \<Rightarrow> 'a \<Rightarrow> 'a) \<Rightarrow> 'a \<Rightarrow> u32 \<Rightarrow> ('a, 't) pool_sys" where
  "pool_start IF zero SZ = \<lparr> pool = fsp_init IF zero SZ, pcs = (\<lambda>_. Idle), held = {} \<rparr>"

inductive pool_reach :: "u32 \<Rightarrow> ('a, 't) pool_sys \<Rightarrow> bool" for SZ where
  pool_reach_init: "pool_reach SZ (pool_start IF zero SZ)"
| pool_reach_step: "pool_reach SZ s \<Longrightarrow> fsp_step SZ s l s' \<Longrightarrow> pool_reach SZ s'"

inductive_cases fsp_step_GotE: "fsp_step SZ s (Got t i) s'"

section \<open>The ownership invariant\<close>

text \<open>Thread at \<open>pc\<close> is about to clear the lock of \<open>i\<close>.\<close>

fun releasing :: "pool_pc \<Rightarrow> fsp_idx_t \<Rightarrow> bool" where
  "releasing (PutSub j) i = (i = j)"
| "releasing (PutClear j) i = (i = j)"
| "releasing _ i = False"

text \<open>Thread at \<open>pc\<close> will make slot \<open>i\<close> findable, or try to take it.\<close>

fun attending :: "pool_pc \<Rightarrow> fsp_idx_t \<Rightarrow> bool" where
  "attending (GetTas j) i = (i = j)"
| "attending (PutRead j) i = (i = j)"
| "attending (PutCas j _) i = (i = j)"
| "attending _ i = False"

fun pc_index_ok :: "u32 \<Rightarrow> pool_pc \<Rightarrow> bool" where
  "pc_index_ok SZ (GetTas j) = (j < SZ)"
| "pc_index_ok SZ (PutSub j) = (j < SZ)"
| "pc_index_ok SZ (PutClear j) = (j < SZ)"
| "pc_index_ok SZ (PutRead j) = (j < SZ)"
| "pc_index_ok SZ (PutCas j old) = (j < SZ \<and> j < old)"
| "pc_index_ok SZ _ = True"

definition conc_range :: "u32 \<Rightarrow> ('a, 't) pool_sys \<Rightarrow> bool" where
  "conc_range SZ s \<longleftrightarrow> fsp_wf SZ (pool s) \<and> held s \<subseteq> {..<SZ} \<and> (\<forall>t. pc_index_ok SZ (pcs s t))"

definition conc_own :: "u32 \<Rightarrow> ('a, 't) pool_sys \<Rightarrow> bool" where
  "conc_own SZ s \<longleftrightarrow>
     (\<forall>i < SZ. locked (pool s) ! unat i \<longleftrightarrow> i \<in> held s \<or> (\<exists>t. releasing (pcs s t) i))
     \<and> (\<forall>i t. i \<in> held s \<longrightarrow> \<not> releasing (pcs s t) i)
     \<and> (\<forall>i t u. releasing (pcs s t) i \<longrightarrow> releasing (pcs s u) i \<longrightarrow> t = u)"

definition conc_find :: "u32 \<Rightarrow> ('a, 't) pool_sys \<Rightarrow> bool" where
  "conc_find SZ s \<longleftrightarrow>
     (\<forall>i < SZ. i < curr (pool s) \<longrightarrow>
        locked (pool s) ! unat i \<or> (\<exists>t. attending (pcs s t) i))"

primrec thread_of :: "'t pool_label \<Rightarrow> 't" where
  "thread_of (Tau t) = t"
| "thread_of (Got t i) = t"
| "thread_of (Failed t) = t"
| "thread_of (Release t i) = t"

lemma conc_range_pc: "conc_range SZ s \<Longrightarrow> pc_index_ok SZ (pcs s t)"
  by (simp add: conc_range_def)

lemma locked_update:
  assumes "conc_range SZ s" and "i < SZ"
  shows "(locked (pool s))[unat i := b] ! unat j = (if i = j then b else locked (pool s) ! unat j)"
  using assms fsp_idx_in_range(1) [of SZ "pool s" i]
  by (auto simp: conc_range_def nth_list_update simp flip: word_unat_eq_iff)

lemmas conc_step_simps = goto_def atomic_test_and_set_def locked_update

lemma fsp_step_range:
  assumes "fsp_step SZ s l s'" and "conc_range SZ s"
  shows "conc_range SZ s'"
  using assms conc_range_pc [OF assms(2), of "thread_of l"]
  by cases (auto simp: conc_range_def fsp_wf_def conc_step_simps)

text \<open>A step that changes neither locks nor held indices, of a thread that releases the
  same index before and after.\<close>

lemma conc_own_cong:
  assumes "conc_own SZ s" and "locked (pool s') = locked (pool s)" and "held s' = held s"
    and "\<And>u. u \<noteq> t \<Longrightarrow> pcs s' u = pcs s u" and "releasing (pcs s' t) = releasing (pcs s t)"
  shows "conc_own SZ s'"
proof -
  have "releasing (pcs s' u) = releasing (pcs s u)" for u using assms(4,5) by (cases "u = t") auto
  with assms(1-3) show ?thesis by (simp add: conc_own_def)
qed

text \<open>The owner of an index: nobody, the client, or the thread that is releasing it.\<close>

lemma fsp_step_own:
  assumes "fsp_step SZ s l s'" and "conc_range SZ s" and "conc_own SZ s"
  shows "conc_own SZ s'"
  using assms(1)
proof cases
  case (get_retry t ret l)
  then have "(locked (pool s))[unat ret := True] = locked (pool s)"
    by (metis atomic_test_and_set_def list_update_id prod.inject)
  with get_retry show ?thesis
    by (intro conc_own_cong [OF assms(3), where t = t])
      (auto simp: goto_def atomic_test_and_set_def fun_eq_iff)
next
  case (get_ret t ret l)
  have r: "ret < SZ" "\<not> locked (pool s) ! unat ret" 
    using conc_range_pc [OF assms(2), of t] get_ret by (auto simp: atomic_test_and_set_def)
  with assms(3) have n: "\<not> releasing (pcs s u) ret" for u by (auto simp: conc_own_def)
  have rel: "releasing (pcs s' u) i = releasing (pcs s u) i" for u i
    using get_ret by (simp add: goto_def)
  have "locked (pool s') ! unat i = (i = ret \<or> locked (pool s) ! unat i)" for i
    using get_ret r(1) assms(2) by (auto simp: conc_step_simps split: if_splits)
  moreover have "held s' = insert ret (held s)" using get_ret by (simp add: goto_def)
  ultimately show ?thesis using assms(3) n unfolding conc_own_def rel by auto
next
  case (put_call t idx)
  have rel: "releasing (pcs s' u) i = (if u = t then i = idx else releasing (pcs s u) i)" for u i
    using put_call by (simp add: goto_def)
  have n: "\<not> releasing (pcs s u) idx" "\<not> releasing (pcs s t) i" for u i
    using put_call assms(3) by (auto simp: conc_own_def)
  have own: "i < SZ \<Longrightarrow> locked (pool s) ! unat i \<longleftrightarrow> i \<in> held s \<or> (\<exists>t. releasing (pcs s t) i)" for i
    using assms(3) by (simp add: conc_own_def)
  have "locked (pool s') = locked (pool s)" "held s' = held s - {idx}"
    using put_call by (simp_all add: goto_def)
  moreover have "(\<exists>u. if u = t then i = idx else releasing (pcs s u) i) \<longleftrightarrow>
      i = idx \<or> (\<exists>u. releasing (pcs s u) i)" for i
    using n by (metis (full_types))
  ultimately show ?thesis using assms(3) n put_call(3-5) unfolding conc_own_def rel by auto
next
  case (put_clear t idx)
  have i: "idx < SZ" using put_clear conc_range_pc [OF assms(2), of t] by simp
  have rel: "releasing (pcs s' u) i = (u \<noteq> t \<and> releasing (pcs s u) i)" for u i
    using put_clear by (simp add: goto_def)
  have t: "releasing (pcs s t) i \<longleftrightarrow> i = idx" for i using put_clear by simp
  have n: "idx \<notin> held s" "releasing (pcs s u) idx \<Longrightarrow> u = t" for u
    using assms(3) t unfolding conc_own_def by metis+
  have "locked (pool s') ! unat i = (i \<noteq> idx \<and> locked (pool s) ! unat i)" for i
    using put_clear i assms(2) by (auto simp: conc_step_simps split: if_splits)
  moreover have "held s' = held s" using put_clear by (simp add: goto_def)
  moreover have "(\<exists>u. u \<noteq> t \<and> releasing (pcs s u) i) \<longleftrightarrow>
      i \<noteq> idx \<and> (\<exists>u. releasing (pcs s u) i)" for i
    using n t by (metis (full_types))
  ultimately show ?thesis using assms(3) n unfolding conc_own_def rel by auto
qed (rule conc_own_cong [OF assms(3), where t = "thread_of l"];
     simp add: goto_def fun_eq_iff)+

text \<open>A step after which every slot below \<open>curr\<close> that was attended still is.\<close>

lemma conc_find_mono:
  assumes "conc_find SZ s"
    and "\<And>i. i < SZ \<Longrightarrow> i < curr (pool s') \<Longrightarrow>
      locked (pool s') ! unat i \<or> attending (pcs s' t) i \<or>
      i < curr (pool s) \<and> (locked (pool s) ! unat i \<longrightarrow> locked (pool s') ! unat i)
        \<and> \<not> attending (pcs s t) i"
    and "\<And>u. u \<noteq> t \<Longrightarrow> pcs s' u = pcs s u"
  shows "conc_find SZ s'"
  unfolding conc_find_def
proof (intro allI impI)
  fix i assume i: "i < SZ" "i < curr (pool s')"
  show "locked (pool s') ! unat i \<or> (\<exists>t. attending (pcs s' t) i)"
    using assms(1) assms(2) [OF i] i unfolding conc_find_def by (metis assms(3))
qed

lemma fsp_step_find:
  assumes "fsp_step SZ s l s'" and "conc_range SZ s" and "conc_find SZ s"
  shows "conc_find SZ s'"
proof (rule conc_find_mono [OF assms(3), where t = "thread_of l"])
  fix i assume "i < SZ" "i < curr (pool s')"
  with assms(1) show "locked (pool s') ! unat i \<or> attending (pcs s' (thread_of l)) i \<or>
      i < curr (pool s) \<and> (locked (pool s) ! unat i \<longrightarrow> locked (pool s') ! unat i)
        \<and> \<not> attending (pcs s (thread_of l)) i"
    using assms(2) conc_range_pc [OF assms(2), of "thread_of l"]
    by cases (auto simp: conc_step_simps less_plus_one_iff split: if_splits)
next
  fix u assume "u \<noteq> thread_of l"
  with assms(1) show "pcs s' u = pcs s u" by cases (auto simp: goto_def)
qed

section \<open>What every interleaving guarantees\<close>

lemma pool_reach_inv:
  "pool_reach SZ s \<Longrightarrow> conc_range SZ s \<and> conc_own SZ s \<and> conc_find SZ s"
proof (induction rule: pool_reach.induct)
  case (pool_reach_init IF zero)
  then show ?case
    by (auto simp: conc_range_def conc_own_def conc_find_def pool_start_def fsp_wf_def fsp_init_def
        word_less_nat_alt)
qed (auto intro: fsp_step_range fsp_step_own fsp_step_find)

lemma pool_quiescent:
  assumes "pool_reach SZ s" and "\<And>t. pcs s t = Idle"
  shows "fsp_inv SZ (pool s)" and "fsp_busy SZ (pool s) = held s"
  using pool_reach_inv [OF assms(1)] assms(2)
  by (auto simp: conc_range_def conc_own_def conc_find_def fsp_inv_def fsp_busy_def)

definition pool_run :: "u32 \<Rightarrow> ('a, 't) pool_sys \<Rightarrow> ('a, 't) pool_sys \<Rightarrow> bool" where
  "pool_run SZ = (\<lambda>s s'. \<exists>l. fsp_step SZ s l s')\<^sup>*\<^sup>*"

lemma pool_run_step: "fsp_step SZ s l s' \<Longrightarrow> pool_run SZ s' s'' \<Longrightarrow> pool_run SZ s s''"
  unfolding pool_run_def by (metis (mono_tags, lifting) converse_rtranclp_into_rtranclp)

lemma pool_run_refl [simp]: "pool_run SZ s s"
  by (simp add: pool_run_def)

definition got :: "u32 \<Rightarrow> fsp_idx_t \<Rightarrow> fsp_idx_t set \<Rightarrow> fsp_idx_t set" where
  "got SZ ret h = (if ret < SZ then insert ret h else h)"

lemma solo_get_loop:
  assumes "pcs s t = GetAdd" and "fsp_get_loop SZ (pool s) = (ret, p')"
  shows "pool_run SZ s (s\<lparr>pool := p', pcs := (pcs s)(t := Idle),
           held := got SZ ret (held s)\<rparr>)"
  using assms
proof (induction SZ "pool s" arbitrary: s rule: fsp_get_loop.induct)
  case (1 SZ)
  let ?r = "curr (pool s)"
  let ?l = "(locked (pool s))[unat ?r := True]"
  let ?s1 = "goto t (GetTas ?r) (s\<lparr>pool := (pool s)\<lparr>curr := ?r + 1\<rparr>\<rparr>)"
  note loop = fsp_get_loop.simps [of SZ "pool s"]
  show ?case
  proof (cases "?r < SZ")
    case False
    with 1(3) show ?thesis
      using pool_run_step [OF fsp_step.get_fail [OF 1(2) False] pool_run_refl]
      by (auto simp: loop Let_def goto_def got_def)
  next
    case True
    have s1: "fsp_step SZ s (Tau t) ?s1" using 1(2) True by (rule fsp_step.get_add)
    show ?thesis
    proof (cases "locked (pool s) ! unat ?r")
      case taken: True
      let ?s2 = "goto t GetAdd (?s1\<lparr>pool := (pool ?s1)\<lparr>locked := ?l\<rparr>\<rparr>)"
      have "fsp_step SZ ?s1 (Tau t) ?s2"
        by (rule fsp_step.get_retry [where ret = ?r])
          (simp_all add: goto_def atomic_test_and_set_def taken)
      moreover have "fsp_get_loop SZ (pool ?s2) = (ret, p')"
        using 1(3) taken True by (simp add: goto_def atomic_test_and_set_def loop Let_def)
      then have "pool_run SZ ?s2 (?s2\<lparr>pool := p', pcs := (pcs ?s2)(t := Idle),
          held := got SZ ret (held ?s2)\<rparr>)"
        by (intro 1(1) [OF refl refl True refl, of True ?l ?s2])
          (simp_all add: goto_def atomic_test_and_set_def taken)
      then have "pool_run SZ ?s2 (s\<lparr>pool := p', pcs := (pcs s)(t := Idle),
          held := got SZ ret (held s)\<rparr>)" by (simp add: goto_def)
      ultimately show ?thesis by (rule pool_run_step [OF s1, OF pool_run_step])
    next
      case free: False
      let ?s2 = "goto t Idle (?s1\<lparr>pool := (pool ?s1)\<lparr>locked := ?l\<rparr>, held := insert ?r (held ?s1)\<rparr>)"
      have "fsp_step SZ ?s1 (Got t ?r) ?s2"
        by (rule fsp_step.get_ret [where ret = ?r])
          (simp_all add: goto_def atomic_test_and_set_def free)
      moreover have "?s2 = s\<lparr>pool := p', pcs := (pcs s)(t := Idle),
           held := got SZ ret (held s)\<rparr>"
        using 1(3) free True by (auto simp: goto_def atomic_test_and_set_def loop Let_def got_def)
      ultimately show ?thesis using pool_run_step [OF s1 pool_run_step [OF _ pool_run_refl]] by simp
    qed
  qed
qed

text \<open>C2: In every reachable interleaving of any number of threads, an index that a call of
  \<^verbatim>\<open>fsp_get\<close> returns is in range, is not held by anybody, and is not in the hands of a thread
  that is still releasing it: no two callers ever share a pool element.\<close>

theorem fsp_mutual_exclusion:
  assumes "pool_reach SZ s" and "fsp_step SZ s (Got t i) s'"
  shows "i < SZ \<and> i \<notin> held s \<and> (\<forall>u. \<not> releasing (pcs s u) i) \<and> held s' = insert i (held s)"
proof -
  have "pcs s t = GetTas i" "\<not> locked (pool s) ! unat i" "held s' = insert i (held s)"
    using assms(2) by (auto elim!: fsp_step_GotE simp: atomic_test_and_set_def goto_def)
  moreover from this have "i < SZ"
    using conc_range_pc [of SZ s t] pool_reach_inv [OF assms(1)] by simp
  ultimately show ?thesis
    using pool_reach_inv [OF assms(1)] by (auto simp: conc_own_def)
qed

text \<open>C3: No slot is ever lost: whenever all threads are between calls, the pool satisfies the
  invariant of the sequential model, its locked slots are exactly the held ones, and a
  further \<^verbatim>\<open>fsp_get\<close> fails only if all slots are held. The racing updates of \<open>curr\<close> (fetch-and-add
  against compare-and-exchange, wrap-around included) cannot hide a free slot.\<close>

theorem fsp_no_lost_slot:
  assumes "pool_reach SZ s" and "\<And>t. pcs s t = Idle"
  shows "fsp_inv SZ (pool s) \<and> fsp_busy SZ (pool s) = held s
    \<and> (fst (fsp_get SZ (pool s)) = INVALID_IDX \<longleftrightarrow> held s = {..<SZ})"
  using pool_quiescent [OF assms] fsp.get_invalid_iff [of SZ "pool s"] by simp


section \<open>Concrete executions\<close>

definition demo_sys :: "(unit, nat) pool_sys" where
  "demo_sys = pool_start (\<lambda>_ _. ()) () 2"

definition demo_sys2 :: "(unit, nat) pool_sys" where
  "demo_sys2 = goto 0 (GetTas 0) (demo_sys\<lparr>pool := (pool demo_sys)\<lparr>curr := 1\<rparr>\<rparr>)"

definition demo_sys3 :: "(unit, nat) pool_sys" where
  "demo_sys3 = goto 0 Idle
     (demo_sys2\<lparr>pool := (pool demo_sys2)\<lparr>locked := [True, False]\<rparr>, held := {0}\<rparr>)"

lemma demo_reach2: "pool_reach 2 demo_sys2"
proof -
  let ?s1 = "goto 0 GetAdd demo_sys"
  have "pool_reach 2 demo_sys" unfolding demo_sys_def by (rule pool_reach_init)
  moreover have "fsp_step 2 demo_sys (Tau 0) ?s1"
    by (rule fsp_step.get_call) (simp add: demo_sys_def pool_start_def)
  ultimately have r1: "pool_reach 2 ?s1" by (rule pool_reach_step)
  have "fsp_step 2 ?s1 (Tau 0) (goto 0 (GetTas (curr (pool ?s1)))
      (?s1\<lparr>pool := (pool ?s1)\<lparr>curr := curr (pool ?s1) + 1\<rparr>\<rparr>))"
    by (rule fsp_step.get_add) (simp_all add: demo_sys_def pool_start_def goto_def fsp_init_def)
  from pool_reach_step [OF r1 this] show ?thesis
    by (simp add: demo_sys2_def goto_def demo_sys_def pool_start_def fsp_init_def)
qed

lemma demo_step3: "fsp_step 2 demo_sys2 (Got 0 0) demo_sys3"
proof -
  have "fsp_step 2 demo_sys2 (Got 0 0) (goto 0 Idle
      (demo_sys2\<lparr>pool := (pool demo_sys2)\<lparr>locked := [True, False]\<rparr>,
        held := insert 0 (held demo_sys2)\<rparr>))"
  proof (rule fsp_step.get_ret)
    show "pcs demo_sys2 0 = GetTas 0" by (simp add: demo_sys2_def goto_def)
    show "atomic_test_and_set (locked (pool demo_sys2)) 0 = (False, [True, False])"
      by code_simp
  qed
  then show ?thesis
    by (simp add: demo_sys3_def demo_sys2_def goto_def demo_sys_def pool_start_def)
qed

lemma demo_idle3: "pcs demo_sys3 t = Idle"
  by (simp add: demo_sys3_def demo_sys2_def goto_def demo_sys_def pool_start_def)

theorem fsp_mutual_exclusion_witness:
  "(0::u32) < 2 \<and> 0 \<notin> held demo_sys2 \<and> held demo_sys3 = insert 0 (held demo_sys2)"
  using fsp_mutual_exclusion [OF demo_reach2 demo_step3] by simp

theorem fsp_no_lost_slot_witness:
  "fsp_inv 2 (pool demo_sys3) \<and> fsp_busy 2 (pool demo_sys3) = {0}"
  using fsp_no_lost_slot [OF pool_reach_step [OF demo_reach2 demo_step3] demo_idle3]
  by (simp add: demo_sys3_def goto_def)


end
