(* ===== verification/Zynq_Dmamgmt.thy ===== *)
theory Zynq_Dmamgmt
  imports Fixed_Size_Pool "HOL-Library.Multiset"
begin

text \<open>
  DMA buffer management of the Zynq platform, \<^verbatim>\<open>zynq/zynq_dmamgmt.c\<close>: a table of coherent DMA
  buffers on top of the fixed-size pool. The kernel's \<^verbatim>\<open>dma_alloc_coherent\<close> is an argument
  of the definitions: from the calls made so far and a length it gives the kernel virtual
  address (0 for failure) and the bus address it stores. Both DMA calls are recorded in the
  field \<open>calls\<close>, so that leaks and double frees are visible.
\<close>

section \<open>State and operations\<close>

definition ZYNQ_DMAMGMT_POOLSZ :: u32 where
  [tlkm_const]: "ZYNQ_DMAMGMT_POOLSZ = 1024"

record dma_buf_t =
  len :: u64
  handle :: u64
  dma_addr :: u64
  kvirt_addr :: u64

datatype dma_call =
    Dma_alloc u64 u64 u64   \<comment> \<open>length, kernel address, bus address of a buffer obtained\<close>
  | Dma_free u64 u64 u64    \<comment> \<open>arguments of \<^verbatim>\<open>dma_free_coherent\<close>\<close>

record dmamgmt =
  dmabuf :: "dma_buf_t fsp_t"
  calls :: "dma_call list"

type_synonym dma_alloc_fn = "dma_call list \<Rightarrow> u64 \<Rightarrow> u64 \<times> u64"

definition init_dma_buf_t :: "nat \<Rightarrow> dma_buf_t \<Rightarrow> dma_buf_t" where
  "init_dma_buf_t idx buf = buf\<lparr>len := 0, handle := 0, dma_addr := 0, kvirt_addr := 0\<rparr>"

definition zero_dma_buf :: dma_buf_t where
  "zero_dma_buf = \<lparr>len = 0, handle = 0, dma_addr = 0, kvirt_addr = 0\<rparr>"

definition upd_elem :: "nat \<Rightarrow> (dma_buf_t \<Rightarrow> dma_buf_t) \<Rightarrow> dma_buf_t fsp_t \<Rightarrow> dma_buf_t fsp_t" where
  "upd_elem i f p = p\<lparr>elems := (elems p)[i := f (elems p ! i)]\<rparr>"

text \<open>The loop of \<^verbatim>\<open>find_dma_addr\<close>.\<close>

function find_dma_addr_loop :: "dma_buf_t list \<Rightarrow> u64 \<Rightarrow> nat \<Rightarrow> nat" where
  "find_dma_addr_loop es addr idx =
     (if idx < unat ZYNQ_DMAMGMT_POOLSZ \<and> dma_addr (es ! idx) \<noteq> addr
      then find_dma_addr_loop es addr (idx + 1) else idx)"
  by pat_completeness auto
termination
  by (relation "measure (\<lambda>(es, addr, idx). unat ZYNQ_DMAMGMT_POOLSZ - idx)") auto

definition find_dma_addr :: "dmamgmt \<Rightarrow> u64 \<Rightarrow> int" where
  "find_dma_addr s addr =
     (let idx = find_dma_addr_loop (elems (dmabuf s)) addr 0 in
      if idx < unat ZYNQ_DMAMGMT_POOLSZ then int idx else - 1)"

definition zynq_dmamgmt_init :: "dma_call list \<Rightarrow> int \<times> dmamgmt" where
  "zynq_dmamgmt_init cs =
     (0, \<lparr>dmabuf = fsp_init init_dma_buf_t zero_dma_buf ZYNQ_DMAMGMT_POOLSZ, calls = cs\<rparr>)"

text \<open>Result: the bus address (0 for failure) and the value stored through \<^verbatim>\<open>hid\<close>, if any.\<close>

definition zynq_dmamgmt_alloc ::
  "dma_alloc_fn \<Rightarrow> u64 \<Rightarrow> dmamgmt \<Rightarrow> (u64 \<times> u64 option) \<times> dmamgmt" where
  "zynq_dmamgmt_alloc dma_alloc_coherent n s =
     (let (idx, p1) = fsp_get ZYNQ_DMAMGMT_POOLSZ (dmabuf s) in
      if idx = INVALID_IDX then ((0, None), s\<lparr>dmabuf := p1\<rparr>)
      else
        let (kv, da) = dma_alloc_coherent (calls s) n;
            p2 = upd_elem (unat idx) (\<lambda>b. b\<lparr>kvirt_addr := kv, dma_addr := da\<rparr>) p1
        in if kv = 0
           then ((0, None), s\<lparr>dmabuf := fsp_put ZYNQ_DMAMGMT_POOLSZ idx p2\<rparr>)
           else let p3 = upd_elem (unat idx) (\<lambda>b. b\<lparr>len := n\<rparr>) p2
                in ((dma_addr (elems p3 ! unat idx), Some (ucast idx)),
                    s\<lparr>dmabuf := p3, calls := calls s @ [Dma_alloc n kv da]\<rparr>))"

definition zynq_dmamgmt_dealloc :: "u64 \<Rightarrow> dmamgmt \<Rightarrow> int \<times> dmamgmt" where
  "zynq_dmamgmt_dealloc idx s =
     (if idx < ucast ZYNQ_DMAMGMT_POOLSZ \<and> kvirt_addr (elems (dmabuf s) ! unat idx) \<noteq> 0
      then (let b = elems (dmabuf s) ! unat idx;
                p1 = upd_elem (unat idx) (init_dma_buf_t (unat idx)) (dmabuf s)
            in (0, s\<lparr>dmabuf := fsp_put ZYNQ_DMAMGMT_POOLSZ (ucast idx) p1,
                     calls := calls s @ [Dma_free (len b) (kvirt_addr b) (dma_addr b)]\<rparr>))
      else (1, s))"

definition zynq_dmamgmt_dealloc_dma :: "u64 \<Rightarrow> dmamgmt \<Rightarrow> int \<times> dmamgmt" where
  "zynq_dmamgmt_dealloc_dma addr s = zynq_dmamgmt_dealloc (word_of_int (find_dma_addr s addr)) s"

definition zynq_dmamgmt_get :: "dmamgmt \<Rightarrow> u64 \<Rightarrow> dma_buf_t option" where
  "zynq_dmamgmt_get s idx =
     (if idx \<ge> ucast ZYNQ_DMAMGMT_POOLSZ \<or> \<not> locked (dmabuf s) ! unat idx then None
      else Some (elems (dmabuf s) ! unat idx))"

definition zynq_dmamgmt_get_id :: "dmamgmt \<Rightarrow> u64 \<Rightarrow> int" where
  "zynq_dmamgmt_get_id s addr = find_dma_addr s addr"

text \<open>The loop body and the loop of \<^verbatim>\<open>zynq_dmamgmt_exit\<close>.\<close>

definition exit_slot :: "nat \<Rightarrow> dmamgmt \<Rightarrow> dmamgmt" where
  "exit_slot i s =
     (if kvirt_addr (elems (dmabuf s) ! i) \<noteq> 0
      then snd (zynq_dmamgmt_dealloc (word_of_nat i) s) else s)"

definition zynq_dmamgmt_exit :: "dmamgmt \<Rightarrow> dmamgmt" where
  "zynq_dmamgmt_exit s = fold exit_slot [0..<unat ZYNQ_DMAMGMT_POOLSZ] s"

section \<open>Invariant\<close>

abbreviation dm_size :: nat where
  "dm_size \<equiv> unat ZYNQ_DMAMGMT_POOLSZ"

text \<open>A slot is locked exactly if it holds a kernel buffer.\<close>

definition dm_inv :: "dmamgmt \<Rightarrow> bool" where
  "dm_inv s \<longleftrightarrow> fsp_inv ZYNQ_DMAMGMT_POOLSZ (dmabuf s) \<and>
     (\<forall>i < dm_size. locked (dmabuf s) ! i \<longleftrightarrow> kvirt_addr (elems (dmabuf s) ! i) \<noteq> 0)"

text \<open>The kernel buffers the table holds, and those obtained and not returned so far.\<close>

definition buf_args :: "dma_buf_t \<Rightarrow> u64 \<times> u64 \<times> u64" where
  "buf_args b = (len b, kvirt_addr b, dma_addr b)"

definition live_bufs :: "dmamgmt \<Rightarrow> (u64 \<times> u64 \<times> u64) multiset" where
  "live_bufs s = image_mset buf_args {#b \<in># mset (elems (dmabuf s)). kvirt_addr b \<noteq> 0#}"

fun obtained :: "dma_call list \<Rightarrow> (u64 \<times> u64 \<times> u64) multiset" where
  "obtained [] = {#}"
| "obtained (Dma_alloc n kv da # cs) = add_mset (n, kv, da) (obtained cs)"
| "obtained (Dma_free n kv da # cs) = obtained cs"

fun returned :: "dma_call list \<Rightarrow> (u64 \<times> u64 \<times> u64) multiset" where
  "returned [] = {#}"
| "returned (Dma_alloc n kv da # cs) = returned cs"
| "returned (Dma_free n kv da # cs) = add_mset (n, kv, da) (returned cs)"

definition dm_balanced :: "dmamgmt \<Rightarrow> bool" where
  "dm_balanced s \<longleftrightarrow> obtained (calls s) = returned (calls s) + live_bufs s"

lemma obtained_append [simp]: "obtained (cs @ ds) = obtained cs + obtained ds"
  by (induction cs rule: obtained.induct) auto

lemma returned_append [simp]: "returned (cs @ ds) = returned cs + returned ds"
  by (induction cs rule: returned.induct) auto

lemma dm_size_eq [simp]: "dm_size = 1024"
  by (simp add: ZYNQ_DMAMGMT_POOLSZ_def)

lemma dm_wf:
  "dm_inv s \<Longrightarrow> length (elems (dmabuf s)) = 1024 \<and> length (locked (dmabuf s)) = 1024
     \<and> length (refcnt (dmabuf s)) = 1024"
  by (simp add: dm_inv_def fsp_inv_def fsp_wf_def ZYNQ_DMAMGMT_POOLSZ_def)

lemma dm_pool_inv: "dm_inv s \<Longrightarrow> fsp_inv ZYNQ_DMAMGMT_POOLSZ (dmabuf s)"
  by (simp add: dm_inv_def)

lemma fsp_inv_elems_cong:
  "fsp_inv SZ p \<Longrightarrow> length es = length (elems p) \<Longrightarrow> fsp_inv SZ (p\<lparr>elems := es\<rparr>)"
  by (simp add: fsp_inv_def fsp_wf_def)

lemma fsp_inv_upd_elem: "fsp_inv SZ p \<Longrightarrow> fsp_inv SZ (upd_elem i f p)"
  by (simp add: upd_elem_def fsp_inv_elems_cong)

lemma upd_elem_simps [simp]:
  "locked (upd_elem i f p) = locked p" "refcnt (upd_elem i f p) = refcnt p"
  "curr (upd_elem i f p) = curr p" "elems (upd_elem i f p) = (elems p)[i := f (elems p ! i)]"
  by (simp_all add: upd_elem_def)

text \<open>Replacing one entry of a list, seen through a filter.\<close>

lemma filter_mset_update:
  assumes "i < length xs"
  shows "filter_mset P (mset (xs[i := v])) =
    (if P v then {#v#} else {#}) + (filter_mset P (mset xs) - (if P (xs ! i) then {#xs ! i#} else {#}))"
  using assms by (simp add: mset_update)

lemma live_bufs_take:
  assumes "i < length (elems p)" and "kvirt_addr (elems p ! i) = 0" and "kvirt_addr b \<noteq> 0"
    and "elems (dmabuf s') = (elems p)[i := b]"
  shows "live_bufs s' = add_mset (buf_args b) (live_bufs (s\<lparr>dmabuf := p\<rparr>))"
  using assms by (simp add: live_bufs_def filter_mset_update)

lemma live_bufs_drop:
  assumes "i < length (elems p)" and "kvirt_addr (elems p ! i) \<noteq> 0" and "kvirt_addr b = 0"
    and "elems (dmabuf s') = (elems p)[i := b]"
  shows "live_bufs (s\<lparr>dmabuf := p\<rparr>) = add_mset (buf_args (elems p ! i)) (live_bufs s')"
proof -
  have "elems p ! i \<in># filter_mset (\<lambda>b. kvirt_addr b \<noteq> 0) (mset (elems p))"
    using assms by simp
  then show ?thesis using assms
    by (simp add: live_bufs_def filter_mset_update image_mset_Diff)
qed

section \<open>Behaviour of the operations\<close>

text \<open>The three ways \<^verbatim>\<open>zynq_dmamgmt_alloc\<close> can go.\<close>

lemma zynq_dmamgmt_alloc_cases [consumes 3, case_names full failed ok]:
  assumes "dm_inv s" and "zynq_dmamgmt_alloc dac n s = ((a, hid), s')"
    and "dac (calls s) n = (kv, da)"
  obtains (full) "fsp_busy ZYNQ_DMAMGMT_POOLSZ (dmabuf s) = {..<ZYNQ_DMAMGMT_POOLSZ}"
      "a = 0" "hid = None" "calls s' = calls s" "fsp_inv ZYNQ_DMAMGMT_POOLSZ (dmabuf s')"
      "locked (dmabuf s') = locked (dmabuf s)" "elems (dmabuf s') = elems (dmabuf s)"
  | (failed) i where "i < 1024" "\<not> locked (dmabuf s) ! i" "kv = 0"
      "a = 0" "hid = None" "calls s' = calls s" "fsp_inv ZYNQ_DMAMGMT_POOLSZ (dmabuf s')"
      "locked (dmabuf s') = locked (dmabuf s)"
      "elems (dmabuf s') =
         (elems (dmabuf s))[i := (elems (dmabuf s) ! i)\<lparr>kvirt_addr := 0, dma_addr := da\<rparr>]"
  | (ok) i where "i < 1024" "\<not> locked (dmabuf s) ! i" "kv \<noteq> 0"
      "a = da" "hid = Some (word_of_nat i)" "calls s' = calls s @ [Dma_alloc n kv da]"
      "fsp_inv ZYNQ_DMAMGMT_POOLSZ (dmabuf s')"
      "locked (dmabuf s') = (locked (dmabuf s))[i := True]"
      "elems (dmabuf s') = (elems (dmabuf s))[i :=
         (elems (dmabuf s) ! i)\<lparr>kvirt_addr := kv, dma_addr := da, len := n\<rparr>]"
proof -
  let ?SZ = ZYNQ_DMAMGMT_POOLSZ
  obtain j p1 where g: "fsp_get ?SZ (dmabuf s) = (j, p1)" by (cases "fsp_get ?SZ (dmabuf s)")
  note spec = fsp_get_spec [OF dm_pool_inv [OF assms(1)] g]
  show thesis
  proof (cases "fsp_busy ?SZ (dmabuf s) = {..<?SZ}")
    case True
    note sp = spec [unfolded if_P [OF True]]
    then have "j = INVALID_IDX" by blast
    then have "s' = s\<lparr>dmabuf := p1\<rparr>" "a = 0" "hid = None"
      using assms(2) g by (auto simp: zynq_dmamgmt_alloc_def)
    with sp True full show thesis by simp
  next
    case False
    note sp = spec [unfolded if_not_P [OF False]]
    then have j: "j < ?SZ" "\<not> locked (dmabuf s) ! unat j"
      and p1: "locked p1 = (locked (dmabuf s))[unat j := True]" "elems p1 = elems (dmabuf s)"
        "fsp_inv ?SZ p1" by blast+
    then have ne: "j \<noteq> INVALID_IDX" using INVALID_IDX_not_less by blast
    have lt: "unat j < 1024" using j(1) by (simp add: word_less_nat_alt ZYNQ_DMAMGMT_POOLSZ_def)
    have len: "length (elems (dmabuf s)) = 1024" "length (locked (dmabuf s)) = 1024"
      using dm_wf [OF assms(1)] by simp_all
    have uj: "word_of_nat (unat j) = (ucast j :: u64)" by (simp add: unsigned_ucast_eq)
    have same: "(locked (dmabuf s))[unat j := False] = locked (dmabuf s)"
      using j(2) by (metis list_update_id)
    show thesis
    proof (cases "kv = 0")
      case True
      then have "s' = s\<lparr>dmabuf := fsp_put ?SZ j
            (upd_elem (unat j) (\<lambda>b. b\<lparr>kvirt_addr := kv, dma_addr := da\<rparr>) p1)\<rparr>"
          "a = 0" "hid = None"
        using assms(2,3) g ne by (auto simp: zynq_dmamgmt_alloc_def)
      with True lt j p1 same show thesis
        by (intro failed [of "unat j"])
          (simp_all add: fsp_put_fields fsp_put_inv fsp_inv_upd_elem)
    next
      case False
      let ?p2 = "upd_elem (unat j) (\<lambda>b. b\<lparr>kvirt_addr := kv, dma_addr := da\<rparr>) p1"
      have "s' = s\<lparr>dmabuf := upd_elem (unat j) (\<lambda>b. b\<lparr>len := n\<rparr>) ?p2,
              calls := calls s @ [Dma_alloc n kv da]\<rparr>"
          "a = da" "hid = Some (ucast j)"
        using False assms(2,3) g ne lt len p1(2) by (auto simp: zynq_dmamgmt_alloc_def Let_def)
      with False lt j p1 uj len show thesis
        by (intro ok [of "unat j"]) (simp_all add: fsp_inv_upd_elem)
    qed
  qed
qed

text \<open>The two ways \<^verbatim>\<open>zynq_dmamgmt_dealloc\<close> can go.\<close>

lemma unat_less_poolsz: "idx < (ucast ZYNQ_DMAMGMT_POOLSZ :: u64) \<longleftrightarrow> unat idx < 1024"
  by (simp add: word_less_nat_alt ZYNQ_DMAMGMT_POOLSZ_def)

lemma zynq_dmamgmt_dealloc_ok:
  assumes "dm_inv s" and "unat idx < 1024" and "locked (dmabuf s) ! unat idx"
    and b: "b = elems (dmabuf s) ! unat idx"
  obtains s' where "zynq_dmamgmt_dealloc idx s = (0, s')"
    "calls s' = calls s @ [Dma_free (len b) (kvirt_addr b) (dma_addr b)]"
    "locked (dmabuf s') = (locked (dmabuf s))[unat idx := False]"
    "elems (dmabuf s') = (elems (dmabuf s))[unat idx := zero_dma_buf]"
    "fsp_inv ZYNQ_DMAMGMT_POOLSZ (dmabuf s')"
proof -
  have kv: "kvirt_addr b \<noteq> 0" using assms by (simp add: dm_inv_def)
  have u: "unat (ucast idx :: u32) = unat idx"
    using assms(2) by (simp add: unsigned_ucast_eq take_bit_nat_eq_self)
  then have lt: "(ucast idx :: u32) < ZYNQ_DMAMGMT_POOLSZ"
    using assms(2) by (simp add: word_less_nat_alt ZYNQ_DMAMGMT_POOLSZ_def)
  have z: "init_dma_buf_t i x = zero_dma_buf" for i x
    by (simp add: init_dma_buf_t_def zero_dma_buf_def)
  have "zynq_dmamgmt_dealloc idx s =
      (0, s\<lparr>dmabuf := fsp_put ZYNQ_DMAMGMT_POOLSZ (ucast idx)
               (upd_elem (unat idx) (init_dma_buf_t (unat idx)) (dmabuf s)),
            calls := calls s @ [Dma_free (len b) (kvirt_addr b) (dma_addr b)]\<rparr>)"
    using assms kv by (simp add: zynq_dmamgmt_dealloc_def unat_less_poolsz Let_def)
  then show thesis
    by (rule that) (use assms lt u in \<open>simp_all add: fsp_put_fields fsp_put_inv
        fsp_inv_upd_elem dm_pool_inv z\<close>)
qed

lemma zynq_dmamgmt_dealloc_bad:
  assumes "dm_inv s" and "\<not> (unat idx < 1024 \<and> locked (dmabuf s) ! unat idx)"
  shows "zynq_dmamgmt_dealloc idx s = (1, s)"
  using assms by (auto simp: zynq_dmamgmt_dealloc_def unat_less_poolsz dm_inv_def)

text \<open>Every operation keeps the invariant and the balance of obtained and returned buffers.\<close>

lemma dm_inv_update:
  assumes "dm_inv s" and "fsp_inv ZYNQ_DMAMGMT_POOLSZ (dmabuf s')" and "i < 1024"
    and "locked (dmabuf s') = (locked (dmabuf s))[i := kvirt_addr b \<noteq> 0]"
    and "elems (dmabuf s') = (elems (dmabuf s))[i := b]"
  shows "dm_inv s'"
  using assms dm_wf [OF assms(1)] by (auto simp: dm_inv_def nth_list_update)

lemma live_bufs_same:
  "elems (dmabuf s') = elems (dmabuf s) \<Longrightarrow> live_bufs s' = live_bufs s"
  by (simp add: live_bufs_def)

lemma zynq_dmamgmt_init_inv: "dm_inv (snd (zynq_dmamgmt_init cs))"
  using fsp_init_inv [of ZYNQ_DMAMGMT_POOLSZ init_dma_buf_t zero_dma_buf]
  by (simp add: dm_inv_def zynq_dmamgmt_init_def fsp_init_def init_dma_buf_t_def)

lemma zynq_dmamgmt_init_balanced: "dm_balanced (snd (zynq_dmamgmt_init []))"
  by (auto simp: dm_balanced_def live_bufs_def zynq_dmamgmt_init_def fsp_init_def
      init_dma_buf_t_def filter_mset_eq_conv)

lemma zynq_dmamgmt_alloc_inv:
  assumes "dm_inv s"
  shows "dm_inv (snd (zynq_dmamgmt_alloc dac n s))"
proof -
  obtain a hid s' kv da where r: "zynq_dmamgmt_alloc dac n s = ((a, hid), s')"
      "dac (calls s) n = (kv, da)" by (metis surj_pair)
  from assms r show ?thesis
  proof (cases rule: zynq_dmamgmt_alloc_cases)
    case full
    then show ?thesis using assms r by (simp add: dm_inv_def)
  next
    case (failed i)
    then have "locked (dmabuf s') = (locked (dmabuf s))[i := False]" by (metis list_update_id)
    then have "dm_inv s'"
      using failed by (intro dm_inv_update [OF assms _ _ _ failed(9)]) simp_all
    with r show ?thesis by simp
  next
    case (ok i)
    then have "dm_inv s'" by (intro dm_inv_update [OF assms _ _ _ ok(9)]) simp_all
    with r show ?thesis by simp
  qed
qed

lemma zynq_dmamgmt_alloc_balanced:
  assumes "dm_inv s" and "dm_balanced s"
  shows "dm_balanced (snd (zynq_dmamgmt_alloc dac n s))"
proof -
  obtain a hid s' kv da where r: "zynq_dmamgmt_alloc dac n s = ((a, hid), s')"
      "dac (calls s) n = (kv, da)" by (metis surj_pair)
  note len = dm_wf [OF assms(1)]
  from assms(1) r show ?thesis
  proof (cases rule: zynq_dmamgmt_alloc_cases)
    case full
    then show ?thesis using assms r live_bufs_same [of s' s] by (simp add: dm_balanced_def)
  next
    case (failed i)
    then have "kvirt_addr (elems (dmabuf s) ! i) = 0" using assms(1) by (simp add: dm_inv_def)
    then have "live_bufs s' = live_bufs s"
      using failed len by (simp add: live_bufs_def filter_mset_update)
    then show ?thesis using assms(2) r failed by (simp add: dm_balanced_def)
  next
    case (ok i)
    then have "kvirt_addr (elems (dmabuf s) ! i) = 0" using assms(1) by (simp add: dm_inv_def)
    then have "live_bufs s' = add_mset (n, kv, da) (live_bufs s)"
      using ok len by (simp add: live_bufs_def filter_mset_update buf_args_def)
    then show ?thesis using assms(2) r ok by (simp add: dm_balanced_def)
  qed
qed

lemma zynq_dmamgmt_dealloc_inv:
  assumes "dm_inv s"
  shows "dm_inv (snd (zynq_dmamgmt_dealloc idx s))"
proof (cases "unat idx < 1024 \<and> locked (dmabuf s) ! unat idx")
  case True
  then obtain s' where "zynq_dmamgmt_dealloc idx s = (0, s')"
    "locked (dmabuf s') = (locked (dmabuf s))[unat idx := False]"
    "elems (dmabuf s') = (elems (dmabuf s))[unat idx := zero_dma_buf]"
    "fsp_inv ZYNQ_DMAMGMT_POOLSZ (dmabuf s')"
    using zynq_dmamgmt_dealloc_ok [OF assms] by metis
  with True show ?thesis
    by (auto intro: dm_inv_update [OF assms, of s' "unat idx" zero_dma_buf] simp: zero_dma_buf_def)
qed (simp add: zynq_dmamgmt_dealloc_bad assms)

lemma zynq_dmamgmt_dealloc_balanced:
  assumes "dm_inv s" and "dm_balanced s"
  shows "dm_balanced (snd (zynq_dmamgmt_dealloc idx s))"
proof (cases "unat idx < 1024 \<and> locked (dmabuf s) ! unat idx")
  case True
  let ?b = "elems (dmabuf s) ! unat idx"
  from True obtain s' where d: "zynq_dmamgmt_dealloc idx s = (0, s')"
    "calls s' = calls s @ [Dma_free (len ?b) (kvirt_addr ?b) (dma_addr ?b)]"
    "elems (dmabuf s') = (elems (dmabuf s))[unat idx := zero_dma_buf]"
    using zynq_dmamgmt_dealloc_ok [OF assms(1)] by metis
  have "kvirt_addr ?b \<noteq> 0" using True assms(1) by (auto simp: dm_inv_def)
  then have "live_bufs (s\<lparr>dmabuf := dmabuf s\<rparr>) = add_mset (buf_args ?b) (live_bufs s')"
    using True d(3) dm_wf [OF assms(1)] by (intro live_bufs_drop) (auto simp: zero_dma_buf_def)
  then show ?thesis using assms(2) d by (simp add: dm_balanced_def buf_args_def)
qed (simp add: zynq_dmamgmt_dealloc_bad assms)

text \<open>The slots \<^verbatim>\<open>zynq_dmamgmt_exit\<close> has visited are free.\<close>

lemma exit_slot_step:
  assumes "dm_inv s" and "dm_balanced s" and "i < 1024"
  shows "dm_inv (exit_slot i s) \<and> dm_balanced (exit_slot i s)
    \<and> \<not> locked (dmabuf (exit_slot i s)) ! i
    \<and> (\<forall>j < 1024. \<not> locked (dmabuf s) ! j \<longrightarrow> \<not> locked (dmabuf (exit_slot i s)) ! j)"
proof (cases "locked (dmabuf s) ! i")
  case True
  have u: "unat (word_of_nat i :: u64) = i" using assms(3) by (simp add: unat_of_nat take_bit_nat_eq_self)
  have "exit_slot i s = snd (zynq_dmamgmt_dealloc (word_of_nat i) s)"
    using True assms by (simp add: exit_slot_def dm_inv_def)
  moreover obtain s' where "zynq_dmamgmt_dealloc (word_of_nat i) s = (0, s')"
      "locked (dmabuf s') = (locked (dmabuf s))[i := False]"
    using zynq_dmamgmt_dealloc_ok [OF assms(1), of "word_of_nat i"] assms(3) True u by auto
  ultimately show ?thesis
    using zynq_dmamgmt_dealloc_inv [OF assms(1), of "word_of_nat i"]
      zynq_dmamgmt_dealloc_balanced [OF assms(1,2), of "word_of_nat i"] assms(3) dm_wf [OF assms(1)]
    by (auto simp: nth_list_update)
next
  case False
  then have "exit_slot i s = s" using assms by (simp add: exit_slot_def dm_inv_def)
  with False assms show ?thesis by simp
qed

lemma exit_prefix:
  assumes "dm_inv s" and "dm_balanced s" and "k \<le> 1024" and "s' = fold exit_slot [0..<k] s"
  shows "dm_inv s' \<and> dm_balanced s' \<and> (\<forall>i < k. \<not> locked (dmabuf s') ! i)"
  using assms(3,4)
proof (induction k arbitrary: s')
  case (Suc k)
  let ?t = "fold exit_slot [0..<k] s"
  have t: "dm_inv ?t" "dm_balanced ?t" "\<forall>i < k. \<not> locked (dmabuf ?t) ! i" and k: "k < 1024"
    using Suc by simp_all
  have "s' = exit_slot k ?t" using Suc.prems by simp
  with exit_slot_step [OF t(1,2) k] t(3) k show ?case by (auto simp: less_Suc_eq)
qed (use assms in simp)

text \<open>First match of \<^verbatim>\<open>find_dma_addr\<close>.\<close>

declare find_dma_addr_loop.simps [simp del]

lemma find_dma_addr_loop_spec:
  assumes "k \<le> dm_size"
  shows "k \<le> find_dma_addr_loop es addr k \<and> find_dma_addr_loop es addr k \<le> dm_size
    \<and> (\<forall>j. k \<le> j \<and> j < find_dma_addr_loop es addr k \<longrightarrow> dma_addr (es ! j) \<noteq> addr)
    \<and> (find_dma_addr_loop es addr k < dm_size \<longrightarrow>
         dma_addr (es ! find_dma_addr_loop es addr k) = addr)"
  using assms
proof (induction es addr k rule: find_dma_addr_loop.induct)
  case (1 es addr k)
  show ?case
  proof (cases "k < dm_size \<and> dma_addr (es ! k) \<noteq> addr")
    case True
    then have eq: "find_dma_addr_loop es addr k = find_dma_addr_loop es addr (k + 1)"
      by (simp add: find_dma_addr_loop.simps [of es addr k])
    from 1 True have "k + 1 \<le> find_dma_addr_loop es addr (k + 1)"
      "find_dma_addr_loop es addr (k + 1) \<le> dm_size"
      "\<forall>j. k + 1 \<le> j \<and> j < find_dma_addr_loop es addr (k + 1) \<longrightarrow> dma_addr (es ! j) \<noteq> addr"
      "find_dma_addr_loop es addr (k + 1) < dm_size \<longrightarrow>
         dma_addr (es ! find_dma_addr_loop es addr (k + 1)) = addr" by auto
    with True show ?thesis unfolding eq by (metis Suc_eq_plus1 Suc_leD not_less_eq_eq order.antisym)
  next
    case False
    then have eq: "find_dma_addr_loop es addr k = k"
      by (subst find_dma_addr_loop.simps) (simp only: if_False)
    with False 1(2) show ?thesis by auto
  qed
qed

lemma find_dma_addr_eq:
  "find_dma_addr s addr = (case find (\<lambda>i. dma_addr (elems (dmabuf s) ! i) = addr) [0..<1024] of
     Some i \<Rightarrow> int i | None \<Rightarrow> - 1)"
proof -
  let ?k = "find_dma_addr_loop (elems (dmabuf s)) addr 0"
  have k: "?k \<le> 1024" "\<forall>j < ?k. dma_addr (elems (dmabuf s) ! j) \<noteq> addr"
    "?k < 1024 \<longrightarrow> dma_addr (elems (dmabuf s) ! ?k) = addr"
    using find_dma_addr_loop_spec [of 0 "elems (dmabuf s)" addr] by simp_all
  show ?thesis
  proof (cases "?k < 1024")
    case True
    then have "find (\<lambda>i. dma_addr (elems (dmabuf s) ! i) = addr) [0..<1024] = Some ?k"
      using k unfolding find_Some_iff by (intro exI [of _ ?k]) simp
    then show ?thesis using True by (simp add: find_dma_addr_def)
  next
    case False
    then have "find (\<lambda>i. dma_addr (elems (dmabuf s) ! i) = addr) [0..<1024] = None"
      using k unfolding find_None_iff by simp
    then show ?thesis using False by (simp add: find_dma_addr_def)
  qed
qed

section \<open>Properties\<close>

text \<open>The states the management code can reach, for any behaviour of \<^verbatim>\<open>dma_alloc_coherent\<close>.\<close>

inductive dm_reach :: "dma_alloc_fn \<Rightarrow> dmamgmt \<Rightarrow> bool" for dac where
  "dm_reach dac (snd (zynq_dmamgmt_init []))"
| "dm_reach dac s \<Longrightarrow> dm_reach dac (snd (zynq_dmamgmt_alloc dac n s))"
| "dm_reach dac s \<Longrightarrow> dm_reach dac (snd (zynq_dmamgmt_dealloc idx s))"
| "dm_reach dac s \<Longrightarrow> dm_reach dac (snd (zynq_dmamgmt_dealloc_dma addr s))"

lemma dm_reach_inv: "dm_reach dac s \<Longrightarrow> dm_inv s \<and> dm_balanced s"
  by (induction rule: dm_reach.induct)
    (simp_all add: zynq_dmamgmt_init_inv zynq_dmamgmt_init_balanced zynq_dmamgmt_alloc_inv
      zynq_dmamgmt_alloc_balanced zynq_dmamgmt_dealloc_inv zynq_dmamgmt_dealloc_balanced
      zynq_dmamgmt_dealloc_dma_def)

text \<open>C6: Whatever sequence of allocations and deallocations (by handle or by bus address,
  valid or not) the table has gone through and however \<^verbatim>\<open>dma_alloc_coherent\<close> answered, a slot is
  locked exactly if it holds a kernel buffer, and the buffers obtained from the kernel are, as
  a multiset, those returned to it plus those in the table: nothing leaks, nothing is
  freed twice or with wrong arguments.\<close>

theorem zynq_dmamgmt_no_leak:
  assumes "dm_reach dac s"
  shows "dm_inv s \<and> obtained (calls s) = returned (calls s) + live_bufs s"
  using dm_reach_inv [OF assms] by (simp add: dm_balanced_def)

theorem zynq_dmamgmt_no_leak_witness:
  "dm_inv (snd (zynq_dmamgmt_alloc (\<lambda>_ n. (4096, 65536)) 100 (snd (zynq_dmamgmt_init []))))"
  using zynq_dmamgmt_no_leak [OF dm_reach.intros(2) [OF dm_reach.intros(1)]] by blast

text \<open>\<^verbatim>\<open>zynq_dmamgmt_exit\<close> leaves no slot locked and returns every outstanding kernel buffer
  exactly once.\<close>

theorem zynq_dmamgmt_exit_frees_all:
  assumes "dm_reach dac s"
  shows "(\<forall>i < 1024. \<not> locked (dmabuf (zynq_dmamgmt_exit s)) ! i)
    \<and> obtained (calls (zynq_dmamgmt_exit s)) = returned (calls (zynq_dmamgmt_exit s))"
proof -
  let ?s' = "zynq_dmamgmt_exit s"
  have e: "dm_inv ?s'" "dm_balanced ?s'" "\<forall>i < 1024. \<not> locked (dmabuf ?s') ! i"
    using dm_reach_inv [OF assms] exit_prefix [of s 1024 ?s'] by (simp_all add: zynq_dmamgmt_exit_def)
  then have "\<forall>b \<in> set (elems (dmabuf ?s')). kvirt_addr b = 0"
    using dm_wf [OF e(1)] by (auto simp: dm_inv_def in_set_conv_nth)
  then have "live_bufs ?s' = {#}" by (auto simp: live_bufs_def filter_mset_eq_conv)
  with e show ?thesis by (simp add: dm_balanced_def)
qed

text \<open>C10: Round trip of a DMA buffer. If an allocation stores a handle, \<^verbatim>\<open>zynq_dmamgmt_get\<close> returns
  for that handle the buffer with the requested length and the kernel's addresses, the handle was
  not valid before, and deallocating it succeeds, passes the very same triple to
  \<^verbatim>\<open>dma_free_coherent\<close> and makes the handle invalid again.\<close>

theorem zynq_dmamgmt_roundtrip:
  assumes "dm_inv s" and "zynq_dmamgmt_alloc dac n s = ((a, Some h), s')"
    and "dac (calls s) n = (kv, da)"
  shows "a = da \<and> zynq_dmamgmt_get s h = None
    \<and> (\<exists>b. zynq_dmamgmt_get s' h = Some b \<and> len b = n \<and> kvirt_addr b = kv \<and> dma_addr b = da)
    \<and> (\<exists>s''. zynq_dmamgmt_dealloc h s' = (0, s'') \<and> zynq_dmamgmt_get s'' h = None
         \<and> calls s'' = calls s @ [Dma_alloc n kv da, Dma_free n kv da]
         \<and> locked (dmabuf s'') = locked (dmabuf s))"
  using assms
proof (cases rule: zynq_dmamgmt_alloc_cases)
  case (ok i)
  have u: "unat h = i" using ok by (simp add: unat_of_nat take_bit_nat_eq_self)
  have inv': "dm_inv s'" using zynq_dmamgmt_alloc_inv [OF assms(1), of dac n] assms(2) by simp
  have lens: "length (elems (dmabuf s)) = 1024" "length (locked (dmabuf s)) = 1024"
    using dm_wf [OF assms(1)] by simp_all
  have lk: "locked (dmabuf s') ! unat h" "unat h < 1024" using ok u lens by simp_all
  obtain s'' where d: "zynq_dmamgmt_dealloc h s' = (0, s'')"
    "calls s'' = calls s' @ [Dma_free n kv da]"
    "locked (dmabuf s'') = (locked (dmabuf s'))[unat h := False]"
    using zynq_dmamgmt_dealloc_ok [OF inv' lk(2,1) refl] ok u lens by auto
  have "locked (dmabuf s'') = locked (dmabuf s)"
    using d(3) ok u lens by (metis list_update_id list_update_overwrite)
  with d ok u lens show ?thesis
    by (auto simp: zynq_dmamgmt_get_def unat_less_poolsz not_less [symmetric])
qed simp_all

theorem zynq_dmamgmt_roundtrip_witness:
  "\<exists>h s'. zynq_dmamgmt_alloc (\<lambda>_ n. (4096, 65536)) 100 (snd (zynq_dmamgmt_init []))
        = ((65536, Some h), s')
      \<and> fst (zynq_dmamgmt_dealloc h s') = 0"
proof -
  let ?s = "snd (zynq_dmamgmt_init [])"
  let ?dac = "\<lambda>_ n. (4096, 65536) :: u64 \<times> u64"
  obtain a hid s' where r: "zynq_dmamgmt_alloc ?dac 100 ?s = ((a, hid), s')" by (metis surj_pair)
  have d: "?dac (calls ?s) 100 = (4096, 65536)" by simp
  have free: "\<not> locked (dmabuf ?s) ! 0" by (simp add: zynq_dmamgmt_init_def fsp_init_def)
  from zynq_dmamgmt_init_inv r d have "\<exists>h. hid = Some h"
  proof (cases rule: zynq_dmamgmt_alloc_cases)
    case full
    then have "0 \<in> fsp_busy ZYNQ_DMAMGMT_POOLSZ (dmabuf ?s)" by (simp add: ZYNQ_DMAMGMT_POOLSZ_def)
    with free show ?thesis by (simp add: fsp_busy_def)
  qed simp_all
  then obtain h where "hid = Some h" ..
  with zynq_dmamgmt_roundtrip [of ?s ?dac 100 a h s' 4096 65536] zynq_dmamgmt_init_inv r
  show ?thesis by auto
qed

text \<open>Deallocation by bus address acts on the first table entry with that address: if
  that slot is in use its buffer is returned to the kernel, otherwise, or without such an
  entry, the call reports an error and changes nothing.\<close>

theorem zynq_dmamgmt_dealloc_dma_first:
  assumes "dm_inv s"
  shows "case find (\<lambda>i. dma_addr (elems (dmabuf s) ! i) = addr) [0..<1024] of
      Some i \<Rightarrow> zynq_dmamgmt_dealloc_dma addr s = zynq_dmamgmt_dealloc (word_of_nat i) s
        \<and> (fst (zynq_dmamgmt_dealloc_dma addr s) = 0 \<longleftrightarrow> locked (dmabuf s) ! i)
    | None \<Rightarrow> zynq_dmamgmt_dealloc_dma addr s = (1, s)"
proof (cases "find (\<lambda>i. dma_addr (elems (dmabuf s) ! i) = addr) [0..<1024]")
  case None
  have "zynq_dmamgmt_dealloc (word_of_int (- 1)) s = (1, s)"
    by (rule zynq_dmamgmt_dealloc_bad [OF assms]) (simp add: unsigned_minus_1_eq_mask mask_eq_exp_minus_1)
  with None show ?thesis by (simp add: zynq_dmamgmt_dealloc_dma_def find_dma_addr_eq)
next
  case (Some i)
  then have i: "i < 1024" by (auto simp: find_Some_iff)
  then have u: "unat (word_of_nat i :: u64) = i" by (simp add: unat_of_nat take_bit_nat_eq_self)
  have "fst (zynq_dmamgmt_dealloc (word_of_nat i) s) = 0 \<longleftrightarrow> locked (dmabuf s) ! i"
    using zynq_dmamgmt_dealloc_ok [OF assms, of "word_of_nat i"]
      zynq_dmamgmt_dealloc_bad [OF assms, of "word_of_nat i"] u i by (metis fst_conv zero_neq_one)
  with Some show ?thesis by (simp add: zynq_dmamgmt_dealloc_dma_def find_dma_addr_eq)
qed

end
