(* ===== verification/Tlkm_Perfc.thy ===== *)
theory Tlkm_Perfc
  imports Tlkm_Prelude
begin

text \<open>
  The performance counters of \<^verbatim>\<open>device/tlkm_perfc.c\<close> and \<^verbatim>\<open>tlkm_perfc.h\<close>. The macro
  \<^verbatim>\<open>TLKM_PERFC_COUNTERS\<close> declares one array of \<^verbatim>\<open>TLKM_DEVS_SZ\<close> atomic 32-bit counters per
  name, members of one structure in the order of the macro. The structure is modelled by
  its layout, one list of all counters, so that an index beyond an array meets the
  neighbouring counter as it does in memory; an access behind the whole structure has no
  effect in the model.
\<close>

definition TLKM_DEVS_SZ :: nat where
  [tlkm_const]: "TLKM_DEVS_SZ = 10"

datatype perfc =
    signals_read | signals_written | signals_signaled | control_ioctls | total_alloced_mem
  | total_freed_mem | total_usr2dev_transfers | total_dev2usr_transfers | total_ctl_writes
  | total_ctl_reads | link_width | link_speed | dma_reads | dma_writes | outstanding
  | outstanding_high_watermark | limited_by_read_sz | limited_by_outbuf_sz | indices_in_order
  | indices_reversed | irq_error_already_pending | total_irqs

primrec perfc_pos :: "perfc \<Rightarrow> nat" where
  "perfc_pos signals_read = 0"
| "perfc_pos signals_written = 1"
| "perfc_pos signals_signaled = 2"
| "perfc_pos control_ioctls = 3"
| "perfc_pos total_alloced_mem = 4"
| "perfc_pos total_freed_mem = 5"
| "perfc_pos total_usr2dev_transfers = 6"
| "perfc_pos total_dev2usr_transfers = 7"
| "perfc_pos total_ctl_writes = 8"
| "perfc_pos total_ctl_reads = 9"
| "perfc_pos link_width = 10"
| "perfc_pos link_speed = 11"
| "perfc_pos dma_reads = 12"
| "perfc_pos dma_writes = 13"
| "perfc_pos outstanding = 14"
| "perfc_pos outstanding_high_watermark = 15"
| "perfc_pos limited_by_read_sz = 16"
| "perfc_pos limited_by_outbuf_sz = 17"
| "perfc_pos indices_in_order = 18"
| "perfc_pos indices_reversed = 19"
| "perfc_pos irq_error_already_pending = 20"
| "perfc_pos total_irqs = 21"

definition perfc_index :: "perfc \<Rightarrow> u32 \<Rightarrow> nat" where
  "perfc_index n dev_id = perfc_pos n * TLKM_DEVS_SZ + unat dev_id"

type_synonym tlkm_perfc_t = "u32 list"

definition tlkm_perfc_zero :: tlkm_perfc_t where
  "tlkm_perfc_zero = replicate (22 * TLKM_DEVS_SZ) 0"

definition tlkm_perfc_get :: "perfc \<Rightarrow> u32 \<Rightarrow> tlkm_perfc_t \<Rightarrow> u32" where
  "tlkm_perfc_get n dev_id c = c ! perfc_index n dev_id"

definition tlkm_perfc_set :: "perfc \<Rightarrow> u32 \<Rightarrow> u32 \<Rightarrow> tlkm_perfc_t \<Rightarrow> tlkm_perfc_t" where
  "tlkm_perfc_set n dev_id v c = c[perfc_index n dev_id := v]"

definition tlkm_perfc_add :: "perfc \<Rightarrow> u32 \<Rightarrow> u32 \<Rightarrow> tlkm_perfc_t \<Rightarrow> tlkm_perfc_t" where
  "tlkm_perfc_add n dev_id v c =
     c[perfc_index n dev_id := c ! perfc_index n dev_id + v]"

definition tlkm_perfc_inc :: "perfc \<Rightarrow> u32 \<Rightarrow> tlkm_perfc_t \<Rightarrow> tlkm_perfc_t" where
  "tlkm_perfc_inc n dev_id c =
     c[perfc_index n dev_id := c ! perfc_index n dev_id + 1]"

definition perfc_wf :: "tlkm_perfc_t \<Rightarrow> bool" where
  "perfc_wf c \<longleftrightarrow> length c = 220"

lemma perfc_pos_less: "perfc_pos n < 22"
  by (cases n) simp_all

lemma perfc_pos_inj: "perfc_pos m = perfc_pos n \<longleftrightarrow> m = n"
  by (cases m; cases n) simp_all

lemma perfc_index_less:
  "unat d < 10 \<Longrightarrow> perfc_index n d < 220"
  using perfc_pos_less [of n] by (simp add: perfc_index_def TLKM_DEVS_SZ_def)

lemma perfc_index_inj:
  assumes "unat d < 10" and "unat e < 10"
  shows "perfc_index m d = perfc_index n e \<longleftrightarrow> m = n \<and> d = e"
proof
  assume "perfc_index m d = perfc_index n e"
  then have "perfc_pos m = perfc_pos n" "unat d = unat e"
    using assms unfolding perfc_index_def TLKM_DEVS_SZ_def by presburger+
  then show "m = n \<and> d = e" by (simp add: perfc_pos_inj word_unat_eq_iff)
qed simp

lemma perfc_ops_wf [simp]:
  "perfc_wf c \<Longrightarrow> perfc_wf (tlkm_perfc_add n d v c)"
  "perfc_wf c \<Longrightarrow> perfc_wf (tlkm_perfc_inc n d c)"
  "perfc_wf c \<Longrightarrow> perfc_wf (tlkm_perfc_set n d v c)"
  "perfc_wf tlkm_perfc_zero"
  by (simp_all add: perfc_wf_def tlkm_perfc_add_def tlkm_perfc_inc_def tlkm_perfc_set_def
      tlkm_perfc_zero_def TLKM_DEVS_SZ_def)

text \<open>For the device ids the arrays are made for (below \<^verbatim>\<open>TLKM_DEVS_SZ\<close>), adding to one
  counter of one device, with 32-bit wrap-around, changes that counter only.\<close>

theorem tlkm_perfc_add_get:
  assumes "perfc_wf c" and "unat d < 10" and "unat e < 10"
  shows "tlkm_perfc_get n e (tlkm_perfc_add m d v c) =
    tlkm_perfc_get n e c + (if m = n \<and> d = e then v else 0)"
  using assms perfc_index_less [of d m] perfc_index_inj [of d e m n]
  by (auto simp: tlkm_perfc_get_def tlkm_perfc_add_def perfc_wf_def nth_list_update)

text \<open>An eleventh device shares its counters with the first device's next counter.\<close>

lemma tlkm_perfc_alias:
  "tlkm_perfc_get total_freed_mem 0 (tlkm_perfc_add total_alloced_mem 10 v c) =
   tlkm_perfc_get total_alloced_mem 10 (tlkm_perfc_add total_alloced_mem 10 v c)"
  by (simp add: tlkm_perfc_get_def perfc_index_def TLKM_DEVS_SZ_def)

end
