(* ===== verification/Tlkm_Types.thy ===== *)
theory Tlkm_Types
  imports Tlkm_Perfc
begin

text \<open>
  The data structures shared by the parts of the module: register spaces
  (\<^verbatim>\<open>user/tlkm_platform.h\<close>), status core contents (\<^verbatim>\<open>tlkm/tlkm_status.h\<close>), device classes
  (\<^verbatim>\<open>tlkm/tlkm_class.h\<close>), devices (\<^verbatim>\<open>tlkm/tlkm_device.h\<close>) and the commands user space
  passes to the device files (\<^verbatim>\<open>user/tlkm_device_ioctl_cmds.h\<close>). The function pointers of a
  class are calls into the class's code; here only whether an optional one is set is kept.
  Locks and list heads have no field: the definitions are the critical sections, and lists
  of the kernel are HOL lists in the structures that own them.
\<close>

text \<open>Signed C integers are integers in range; the code never makes them overflow.\<close>

type_synonym s32 = int
type_synonym dev_id_t = u32
type_synonym dev_addr_t = u64

record platform_regspace =
  base :: u64
  high :: u64
  rsize :: u64

definition INIT_REGSPACE :: "u64 \<Rightarrow> u64 \<Rightarrow> platform_regspace" where
  "INIT_REGSPACE b s = \<lparr>base = b, high = b + s - 1, rsize = s\<rparr>"

record platform_mmap =
  m_status :: u64
  m_arch :: u64
  m_plat :: u64

definition TLKM_COMPONENT_MAX :: nat where
  [tlkm_const]: "TLKM_COMPONENT_MAX = 16"

definition TLKM_COMPONENTS_NAME_MAX :: nat where
  [tlkm_const]: "TLKM_COMPONENTS_NAME_MAX = 32"

record tlkm_component =
  c_name :: "u8 list"
  c_offset :: dev_addr_t
  c_size :: u64

text \<open>The fields of the decoded status message that the driver reads.\<close>

record tlkm_status =
  arch_base :: "u64 \<times> u64"       \<comment> \<open>base and size\<close>
  platform_base :: "u64 \<times> u64"

definition status_zero :: tlkm_status where
  "status_zero = \<lparr>arch_base = (0, 0), platform_base = (0, 0)\<rparr>"

text \<open>Access modes are passed through from user space as plain numbers.\<close>

type_synonym tlkm_access_t = u32

definition TLKM_ACCESS_EXCLUSIVE :: tlkm_access_t where
  [tlkm_const]: "TLKM_ACCESS_EXCLUSIVE = 0"
definition TLKM_ACCESS_MONITOR :: tlkm_access_t where
  [tlkm_const]: "TLKM_ACCESS_MONITOR = 1"
definition TLKM_ACCESS_SHARED :: tlkm_access_t where
  [tlkm_const]: "TLKM_ACCESS_SHARED = 2"
definition TLKM_ACCESS_TYPES :: nat where
  [tlkm_const]: "TLKM_ACCESS_TYPES = 3"

record tlkm_class =
  cls_name :: string
  has_init_subsystems :: bool
  has_exit_subsystems :: bool
  has_init_interrupts :: bool
  has_exit_interrupts :: bool
  has_miscdev_close :: bool
  has_addr2map :: bool
  has_ioctl :: bool
  number_of_interrupts :: u64
  platform_status :: platform_regspace

record tlkm_device =
  cls :: tlkm_class
  dev_id :: dev_id_t
  dname :: string
  ref_cnt :: "u64 list"
  vendor_id :: u32
  product_id :: u32
  base_offset :: dev_addr_t
  mmap :: platform_mmap
  status :: tlkm_status
  arch :: platform_regspace
  plat :: platform_regspace
  ctrl :: int
  components :: "tlkm_component list"

record tlkm_mm_cmd =
  sz :: u64
  mm_dev_addr :: dev_addr_t

record tlkm_copy_cmd =
  length_of :: u64
  user_addr :: u64
  cp_dev_addr :: dev_addr_t

record tlkm_bulk_cmd =
  mm :: tlkm_mm_cmd
  copy :: tlkm_copy_cmd

record tlkm_size_cmd =
  s_status :: u64
  s_arch :: u64
  s_platform :: u64

record tlkm_register_interrupt =
  pe_id :: s32
  int_fd :: s32

record tlkm_dma_buffer_allocate =
  ba_size :: u64
  ba_from_device :: bool
  ba_buffer_id :: u64
  ba_addr :: u64

record tlkm_dma_buffer_op =
  op_buffer_id :: u64

record tlkm_gp_buffer_allocate_cmd =
  gp_size :: u64
  gp_buffer_id :: u64

record tlkm_gp_buffer_map_cmd =
  map_buffer_id :: u64
  map_dev_addr :: u64

record tlkm_bar_addr_cmd =
  bar_idx :: u64
  bar_addr :: u64

record tlkm_svm_init_cmd =
  svm_result :: s32

record tlkm_svm_migrate_cmd =
  svm_vaddr :: u64
  svm_size :: u64

record tlkm_device_info =
  i_dev_id :: dev_id_t
  i_vendor_id :: u32
  i_product_id :: u32
  i_name :: string

text \<open>The commands of the device file with their argument blocks, \<^verbatim>\<open>TLKM_DEV_IOCTL_CMDS\<close>; every
  other command number is \<open>Invalid_ioctl\<close>.\<close>

datatype tlkm_dev_cmd =
    Info tlkm_device_info | Size tlkm_size_cmd
  | Alloc tlkm_mm_cmd | Free tlkm_mm_cmd | Copyto tlkm_copy_cmd | Copyfrom tlkm_copy_cmd
  | Register_interrupt tlkm_register_interrupt
  | Alloc_copyto tlkm_bulk_cmd | Copyfrom_free tlkm_bulk_cmd
  | Read tlkm_copy_cmd | Write tlkm_copy_cmd
  | Dma_buffer_allocate tlkm_dma_buffer_allocate | Dma_buffer_free tlkm_dma_buffer_op
  | Dma_buffer_to_dev tlkm_dma_buffer_op | Dma_buffer_from_dev tlkm_dma_buffer_op
  | Kernel_buffer_allocate tlkm_gp_buffer_allocate_cmd | Kernel_buffer_free tlkm_dma_buffer_op
  | Kernel_buffer_map tlkm_gp_buffer_map_cmd | Kernel_buffer_unmap tlkm_dma_buffer_op
  | Pcie_bar_addr tlkm_bar_addr_cmd
  | Svm_launch tlkm_svm_init_cmd | Svm_migrate_to_dev tlkm_svm_migrate_cmd
  | Svm_migrate_to_ram tlkm_svm_migrate_cmd
  | Invalid_ioctl u32

text \<open>The macro by which all platforms dispatch a command: copy the block in, run the handler,
  copy the block back. \<open>copy_in\<close> and \<open>copy_out\<close> say whether the copies succeed; the result is the
  return value, the block user space gets back, if any, and the new state.\<close>

definition ioctl_dispatch ::
  "(tlkm_dev_cmd \<Rightarrow> 's \<Rightarrow> int \<times> tlkm_dev_cmd \<times> 's) \<Rightarrow> bool \<Rightarrow> bool \<Rightarrow> tlkm_dev_cmd \<Rightarrow> 's
     \<Rightarrow> int \<times> tlkm_dev_cmd option \<times> 's" where
  "ioctl_dispatch handler copy_in copy_out c s =
     (case c of
        Invalid_ioctl n \<Rightarrow> (- ENXIO, None, s)
      | _ \<Rightarrow> if \<not> copy_in then (- EFAULT, None, s)
             else let (r, c', s') = handler c s
                  in if copy_out then (r, Some c', s') else (- EFAULT, None, s'))"

lemma ioctl_dispatch_inv:
  assumes "\<And>r c' t. handler c s = (r, c', t) \<Longrightarrow> P t" and "P s"
  shows "P (snd (snd (ioctl_dispatch handler copy_in copy_out c s)))"
  using assms by (auto simp: ioctl_dispatch_def split: tlkm_dev_cmd.split prod.split)

lemma INIT_REGSPACE_simps [simp]:
  "base (INIT_REGSPACE b s) = b" "rsize (INIT_REGSPACE b s) = s"
  "high (INIT_REGSPACE b s) = b + s - 1"
  by (simp_all add: INIT_REGSPACE_def)

end
