(* ===== verification/Zynq_Ioctl.thy ===== *)
theory Zynq_Ioctl
  imports Zynq_Dmamgmt Tlkm_Types
begin

text \<open>
  The ioctl commands of the Zynq platform, \<^verbatim>\<open>zynq/zynq_ioctl.c\<close>, on top of the DMA buffer
  table. User memory is reached through \<^verbatim>\<open>copy_from_user\<close> and \<^verbatim>\<open>copy_to_user\<close>: their results
  (bytes not copied) are arguments, the copies made are recorded. Since \<^verbatim>\<open>dev_addr_t\<close> is
  unsigned, the tests \<^verbatim>\<open>dev_addr >= 0\<close> of the code are always true and \<^verbatim>\<open>dev_addr < 0\<close> always
  false. The commands that the platform does not implement return an error.
\<close>

section \<open>Commands\<close>

datatype ucopy =
    From_user u64 u64 u64   \<comment> \<open>kernel destination, user source, length\<close>
  | To_user u64 u64 u64     \<comment> \<open>user destination, kernel source, length\<close>

record zynq_sys =
  zdm :: dmamgmt
  zperf :: tlkm_perfc_t
  zcopies :: "ucopy list"

record zynq_env =
  dma_alloc_coherent :: dma_alloc_fn
  user_copy :: "ucopy list \<Rightarrow> ucopy \<Rightarrow> u64"
  zdev_id :: dev_id_t

definition do_copy :: "zynq_env \<Rightarrow> ucopy \<Rightarrow> zynq_sys \<Rightarrow> u64 \<times> zynq_sys" where
  "do_copy E c s = (user_copy E (zcopies s) c, s\<lparr>zcopies := zcopies s @ [c]\<rparr>)"

definition perf_add :: "zynq_env \<Rightarrow> perfc \<Rightarrow> u64 \<Rightarrow> zynq_sys \<Rightarrow> zynq_sys" where
  "perf_add E n v s = s\<lparr>zperf := tlkm_perfc_add n (zdev_id E) (ucast v) (zperf s)\<rparr>"

definition zynq_ioctl_alloc ::
  "zynq_env \<Rightarrow> tlkm_mm_cmd \<Rightarrow> zynq_sys \<Rightarrow> int \<times> tlkm_mm_cmd \<times> zynq_sys" where
  "zynq_ioctl_alloc E cmd s =
     (if sz cmd = 0 \<or> sz cmd > push_bit 27 1 then (- EINVAL, cmd, s)
      else if zynq_dmamgmt_get (zdm s) (mm_dev_addr cmd) \<noteq> None then (- EINVAL, cmd, s)
      else let ((a, _), dm) = zynq_dmamgmt_alloc (dma_alloc_coherent E) (sz cmd) (zdm s);
               s1 = s\<lparr>zdm := dm\<rparr>
           in if a = 0 then (- ENOMEM, cmd, s1)
              else (0, cmd\<lparr>mm_dev_addr := a\<rparr>, perf_add E total_alloced_mem (sz cmd) s1))"

definition zynq_ioctl_free ::
  "zynq_env \<Rightarrow> tlkm_mm_cmd \<Rightarrow> zynq_sys \<Rightarrow> int \<times> tlkm_mm_cmd \<times> zynq_sys" where
  "zynq_ioctl_free E cmd s =
     (let dm = snd (zynq_dmamgmt_dealloc_dma (mm_dev_addr cmd) (zdm s))
      in (0, cmd\<lparr>mm_dev_addr := - 1\<rparr>, perf_add E total_freed_mem (sz cmd) (s\<lparr>zdm := dm\<rparr>)))"

text \<open>The buffer a bus address stands for.\<close>

definition buffer_of :: "zynq_sys \<Rightarrow> dev_addr_t \<Rightarrow> dma_buf_t option" where
  "buffer_of s a = zynq_dmamgmt_get (zdm s) (word_of_int (zynq_dmamgmt_get_id (zdm s) a))"

definition copyto_buffer ::
  "zynq_env \<Rightarrow> tlkm_copy_cmd \<Rightarrow> zynq_sys \<Rightarrow> int \<times> tlkm_copy_cmd \<times> zynq_sys" where
  "copyto_buffer E cmd s =
     (case buffer_of s (cp_dev_addr cmd) of
        None \<Rightarrow> (- ENOMEM, cmd, s)
      | Some dmab \<Rightarrow>
          if kvirt_addr dmab = 0 then (- ENOMEM, cmd, s)
          else let (left, s1) = do_copy E (From_user (kvirt_addr dmab) (user_addr cmd) (length_of cmd)) s
               in if left \<noteq> 0 then (- EACCES, cmd, s1)
                  else (0, cmd, perf_add E total_usr2dev_transfers (length_of cmd) s1))"

definition zynq_ioctl_copyto ::
  "zynq_env \<Rightarrow> tlkm_copy_cmd \<Rightarrow> zynq_sys \<Rightarrow> int \<times> tlkm_copy_cmd \<times> zynq_sys" where
  "zynq_ioctl_copyto E cmd s =
     (if buffer_of s (cp_dev_addr cmd) = None
      then let (ret, mm, s1) = zynq_ioctl_alloc E \<lparr>sz = length_of cmd, mm_dev_addr = - 1\<rparr> s;
               cmd1 = cmd\<lparr>cp_dev_addr := mm_dev_addr mm\<rparr>
           in if ret \<noteq> 0 then (ret, cmd1, s1) else copyto_buffer E cmd1 s1
      else copyto_buffer E cmd s)"

definition zynq_ioctl_copyfrom ::
  "zynq_env \<Rightarrow> tlkm_copy_cmd \<Rightarrow> zynq_sys \<Rightarrow> int \<times> tlkm_copy_cmd \<times> zynq_sys" where
  "zynq_ioctl_copyfrom E cmd s =
     (case buffer_of s (cp_dev_addr cmd) of
        None \<Rightarrow> (- EINVAL, cmd, s)
      | Some dmab \<Rightarrow>
          if kvirt_addr dmab = 0 then (- EINVAL, cmd, s)
          else let (left, s1) = do_copy E (To_user (user_addr cmd) (kvirt_addr dmab) (length_of cmd)) s
               in if left \<noteq> 0 then (- EACCES, cmd, s1)
                  else (0, cmd, perf_add E total_dev2usr_transfers (length_of cmd) s1))"

definition zynq_ioctl_alloc_copyto ::
  "zynq_env \<Rightarrow> tlkm_bulk_cmd \<Rightarrow> zynq_sys \<Rightarrow> int \<times> tlkm_bulk_cmd \<times> zynq_sys" where
  "zynq_ioctl_alloc_copyto E cmd s =
     (let (ret, mm1, s1) = zynq_ioctl_alloc E (mm cmd) s
      in if ret \<noteq> 0 then (ret, cmd\<lparr>mm := mm1\<rparr>, s1)
         else let (ret2, cp, s2) = zynq_ioctl_copyto E ((copy cmd)\<lparr>cp_dev_addr := mm_dev_addr mm1\<rparr>) s1
              in (ret2, cmd\<lparr>mm := mm1, copy := cp\<rparr>, s2))"

definition zynq_ioctl_copyfrom_free ::
  "zynq_env \<Rightarrow> tlkm_bulk_cmd \<Rightarrow> zynq_sys \<Rightarrow> int \<times> tlkm_bulk_cmd \<times> zynq_sys" where
  "zynq_ioctl_copyfrom_free E cmd s =
     (let (ret, cp, s1) = zynq_ioctl_copyfrom E (copy cmd) s
      in if ret \<noteq> 0 then (ret, cmd\<lparr>copy := cp\<rparr>, s1)
         else let (ret2, mm1, s2) = zynq_ioctl_free E ((mm cmd)\<lparr>mm_dev_addr := cp_dev_addr cp\<rparr>) s1
              in (ret2, cmd\<lparr>mm := mm1, copy := cp\<rparr>, s2))"

text \<open>Commands the platform does not implement: info, size and interrupt registration (which
  are handled before the class is asked), DMA and kernel buffers, and shared virtual memory.\<close>

definition zynq_ioctl_unsupported :: "tlkm_dev_cmd \<Rightarrow> zynq_sys \<Rightarrow> int \<times> tlkm_dev_cmd \<times> zynq_sys" where
  "zynq_ioctl_unsupported c s = (- EFAULT, c, s)"

definition zynq_ioctl_svm_unsupported :: "tlkm_dev_cmd \<Rightarrow> zynq_sys \<Rightarrow> int \<times> tlkm_dev_cmd \<times> zynq_sys" where
  "zynq_ioctl_svm_unsupported c s = (- EFAULT, c, s)"

text \<open>Register access goes to \<^verbatim>\<open>tlkm_platform_read\<close> and \<^verbatim>\<open>tlkm_platform_write\<close>: the arguments \<open>rd\<close>
  and \<open>wr\<close> are their results and their effects on the performance counters.\<close>

type_synonym reg_access = "tlkm_copy_cmd \<Rightarrow> tlkm_perfc_t \<Rightarrow> int \<times> tlkm_perfc_t"

definition zynq_ioctl_access :: "reg_access \<Rightarrow> tlkm_copy_cmd \<Rightarrow> zynq_sys \<Rightarrow> int \<times> zynq_sys" where
  "zynq_ioctl_access f c s = (let (r, q) = f c (zperf s) in (r, s\<lparr>zperf := q\<rparr>))"

fun zynq_ioctl_cmd ::
  "zynq_env \<Rightarrow> reg_access \<Rightarrow> reg_access \<Rightarrow> tlkm_dev_cmd \<Rightarrow> zynq_sys
     \<Rightarrow> int \<times> tlkm_dev_cmd \<times> zynq_sys" where
  "zynq_ioctl_cmd E rd wr (Alloc c) s = (let (r, c', s') = zynq_ioctl_alloc E c s in (r, Alloc c', s'))"
| "zynq_ioctl_cmd E rd wr (Free c) s = (let (r, c', s') = zynq_ioctl_free E c s in (r, Free c', s'))"
| "zynq_ioctl_cmd E rd wr (Copyto c) s =
     (let (r, c', s') = zynq_ioctl_copyto E c s in (r, Copyto c', s'))"
| "zynq_ioctl_cmd E rd wr (Copyfrom c) s =
     (let (r, c', s') = zynq_ioctl_copyfrom E c s in (r, Copyfrom c', s'))"
| "zynq_ioctl_cmd E rd wr (Alloc_copyto c) s =
     (let (r, c', s') = zynq_ioctl_alloc_copyto E c s in (r, Alloc_copyto c', s'))"
| "zynq_ioctl_cmd E rd wr (Copyfrom_free c) s =
     (let (r, c', s') = zynq_ioctl_copyfrom_free E c s in (r, Copyfrom_free c', s'))"
| "zynq_ioctl_cmd E rd wr (Read c) s = (let (r, s') = zynq_ioctl_access rd c s in (r, Read c, s'))"
| "zynq_ioctl_cmd E rd wr (Write c) s = (let (r, s') = zynq_ioctl_access wr c s in (r, Write c, s'))"
| "zynq_ioctl_cmd E rd wr (Svm_launch c) s = zynq_ioctl_svm_unsupported (Svm_launch c) s"
| "zynq_ioctl_cmd E rd wr (Svm_migrate_to_dev c) s = zynq_ioctl_svm_unsupported (Svm_migrate_to_dev c) s"
| "zynq_ioctl_cmd E rd wr (Svm_migrate_to_ram c) s = zynq_ioctl_svm_unsupported (Svm_migrate_to_ram c) s"
| "zynq_ioctl_cmd E rd wr c s = zynq_ioctl_unsupported c s"

definition zynq_ioctl ::
  "zynq_env \<Rightarrow> reg_access \<Rightarrow> reg_access \<Rightarrow> bool \<Rightarrow> bool \<Rightarrow> tlkm_dev_cmd
     \<Rightarrow> zynq_sys \<Rightarrow> int \<times> tlkm_dev_cmd option \<times> zynq_sys" where
  "zynq_ioctl E rd wr = ioctl_dispatch (zynq_ioctl_cmd E rd wr)"

section \<open>The table stays consistent\<close>

definition zynq_inv :: "zynq_sys \<Rightarrow> bool" where
  "zynq_inv s \<longleftrightarrow> dm_inv (zdm s) \<and> dm_balanced (zdm s)"

lemma perf_add_inv [simp]: "zynq_inv (perf_add E n v s) = zynq_inv s"
  by (simp add: zynq_inv_def perf_add_def)

lemma do_copy_inv: "do_copy E c s = (l, s') \<Longrightarrow> zynq_inv s' = zynq_inv s"
  by (auto simp: zynq_inv_def do_copy_def)

lemma alloc_inv:
  "zynq_inv s \<Longrightarrow> zynq_ioctl_alloc E c s = (r, c', s') \<Longrightarrow> zynq_inv s'"
  using zynq_dmamgmt_alloc_inv [of "zdm s" "dma_alloc_coherent E" "sz c"]
    zynq_dmamgmt_alloc_balanced [of "zdm s" "dma_alloc_coherent E" "sz c"]
  by (auto simp: zynq_ioctl_alloc_def zynq_inv_def perf_add_def Let_def split: if_splits prod.splits)

lemma free_inv:
  "zynq_inv s \<Longrightarrow> zynq_ioctl_free E c s = (r, c', s') \<Longrightarrow> zynq_inv s'"
  using zynq_dmamgmt_dealloc_inv [of "zdm s"] zynq_dmamgmt_dealloc_balanced [of "zdm s"]
  by (auto simp: zynq_ioctl_free_def zynq_inv_def perf_add_def Let_def zynq_dmamgmt_dealloc_dma_def)

lemma copyto_buffer_inv:
  "zynq_inv s \<Longrightarrow> copyto_buffer E c s = (r, c', s') \<Longrightarrow> zynq_inv s'"
  by (auto simp: copyto_buffer_def dest: do_copy_inv split: option.splits if_splits prod.splits)

lemma copyto_inv:
  "zynq_inv s \<Longrightarrow> zynq_ioctl_copyto E c s = (r, c', s') \<Longrightarrow> zynq_inv s'"
  by (auto simp: zynq_ioctl_copyto_def Let_def split: if_splits prod.splits
      dest: alloc_inv copyto_buffer_inv)

lemma copyfrom_inv:
  "zynq_inv s \<Longrightarrow> zynq_ioctl_copyfrom E c s = (r, c', s') \<Longrightarrow> zynq_inv s'"
  by (auto simp: zynq_ioctl_copyfrom_def dest: do_copy_inv split: option.splits if_splits prod.splits)

lemma alloc_copyto_inv:
  "zynq_inv s \<Longrightarrow> zynq_ioctl_alloc_copyto E c s = (r, c', s') \<Longrightarrow> zynq_inv s'"
  by (auto simp: zynq_ioctl_alloc_copyto_def Let_def split: if_splits prod.splits
      dest: alloc_inv copyto_inv)

lemma copyfrom_free_inv:
  "zynq_inv s \<Longrightarrow> zynq_ioctl_copyfrom_free E c s = (r, c', s') \<Longrightarrow> zynq_inv s'"
  by (auto simp: zynq_ioctl_copyfrom_free_def Let_def split: if_splits prod.splits
      dest: copyfrom_inv free_inv)

lemma zynq_ioctl_access_inv:
  "zynq_inv s \<Longrightarrow> zynq_ioctl_access f c s = (r, s') \<Longrightarrow> zynq_inv s'"
  by (auto simp: zynq_ioctl_access_def zynq_inv_def split: prod.splits)

lemmas zynq_op_inv = zynq_ioctl_access_inv alloc_inv free_inv copyto_inv copyfrom_inv alloc_copyto_inv copyfrom_free_inv

lemma zynq_ioctl_cmd_inv:
  assumes "zynq_inv s" and "zynq_ioctl_cmd E rd wr c s = (r, c', s')"
  shows "zynq_inv s'"
  using assms
  by (cases c)
    (auto simp: Let_def zynq_ioctl_unsupported_def zynq_ioctl_svm_unsupported_def
      split: prod.splits dest: zynq_op_inv)

lemma zynq_ioctl_inv:
  assumes "zynq_inv s" and "zynq_ioctl E rd wr i out c s = (r, c', s')"
  shows "zynq_inv s'"
  using ioctl_dispatch_inv [of "zynq_ioctl_cmd E rd wr" c s zynq_inv i out] zynq_ioctl_cmd_inv [OF assms(1)]
    assms by (simp add: zynq_ioctl_def)

section \<open>Behaviour of the commands\<close>

text \<open>An address is fresh if no table entry, free ones included, holds it.\<close>

definition fresh_addr :: "dmamgmt \<Rightarrow> u64 \<Rightarrow> bool" where
  "fresh_addr dm a \<longleftrightarrow> (\<forall>i < 1024. dma_addr (elems (dmabuf dm) ! i) \<noteq> a)"

lemma find_updated:
  assumes "fresh_addr dm a" and "length (elems (dmabuf dm)) = 1024" and "i < 1024"
    and "elems (dmabuf dm') = (elems (dmabuf dm))[i := b]" and "dma_addr b = a"
  shows "find_dma_addr dm' a = int i"
proof -
  have "find (\<lambda>j. dma_addr (elems (dmabuf dm') ! j) = a) [0..<1024] = Some i"
    unfolding find_Some_iff
    using assms by (intro exI [of _ i]) (auto simp: fresh_addr_def nth_list_update)
  then show ?thesis by (simp add: find_dma_addr_eq)
qed

text \<open>A successful allocation, seen from the command level.\<close>

lemma zynq_ioctl_alloc_ok:
  assumes "zynq_inv s" and "zynq_ioctl_alloc E c s = (0, c', s')"
    and "fresh_addr (zdm s) (snd (dma_alloc_coherent E (calls (zdm s)) (sz c)))"
  obtains i kv a where "i < 1024" "\<not> locked (dmabuf (zdm s)) ! i" "kv \<noteq> 0"
    "mm_dev_addr c' = a" "sz c' = sz c" "find_dma_addr (zdm s') a = int i"
    "buffer_of s' a = Some (elems (dmabuf (zdm s')) ! i)"
    "kvirt_addr (elems (dmabuf (zdm s')) ! i) = kv" "len (elems (dmabuf (zdm s')) ! i) = sz c"
    "dma_addr (elems (dmabuf (zdm s')) ! i) = a" "zcopies s' = zcopies s"
    "calls (zdm s') = calls (zdm s) @ [Dma_alloc (sz c) kv a]"
    "locked (dmabuf (zdm s')) = (locked (dmabuf (zdm s)))[i := True]"
proof -
  obtain kv a where k: "dma_alloc_coherent E (calls (zdm s)) (sz c) = (kv, a)" by (metis surj_pair)
  obtain b hid dm where al: "zynq_dmamgmt_alloc (dma_alloc_coherent E) (sz c) (zdm s) = ((b, hid), dm)"
    by (metis surj_pair)
  have st: "b \<noteq> 0" "mm_dev_addr c' = b" "sz c' = sz c" "zdm s' = dm" "zcopies s' = zcopies s"
    using assms(2) al
    by (auto simp: zynq_ioctl_alloc_def perf_add_def Let_def EINVAL_def ENOMEM_def split: if_splits)
  have inv: "dm_inv (zdm s)" using assms(1) by (simp add: zynq_inv_def)
  note lens = dm_wf [OF inv]
  from inv al k show thesis
  proof (cases rule: zynq_dmamgmt_alloc_cases)
    case (ok i)
    have find: "find_dma_addr (zdm s') a = int i"
      using find_updated [OF _ _ ok(1) ok(9)] assms(3) k lens st(4) by simp
    have u: "unat (word_of_nat i :: u64) = i" using ok(1) by (simp add: unat_of_nat take_bit_nat_eq_self)
    have "buffer_of s' a = Some (elems (dmabuf (zdm s')) ! i)"
      using find u ok st(4) lens unat_less_poolsz [of "word_of_nat i"]
      by (simp add: buffer_of_def zynq_dmamgmt_get_id_def zynq_dmamgmt_get_def not_le)
    with ok st lens find show thesis by (intro that [of i kv a]) simp_all
  qed (use st in simp_all)
qed

section \<open>Properties\<close>

text \<open>C5: The Zynq memory commands leak nothing: after any sequence of ioctl commands on a fresh
  table, with any parameters and any results of the kernel calls, the cleanup at module exit
  returns every DMA buffer obtained from the kernel exactly once.\<close>

theorem zynq_session_no_leak:
  assumes "zdm s = snd (zynq_dmamgmt_init [])"
    and "s' = fold (\<lambda>(i, out, c) t. snd (snd (zynq_ioctl E rd wr i out c t))) cs s"
  shows "obtained (calls (zynq_dmamgmt_exit (zdm s'))) = returned (calls (zynq_dmamgmt_exit (zdm s')))
    \<and> (\<forall>i < 1024. \<not> locked (dmabuf (zynq_dmamgmt_exit (zdm s'))) ! i)"
proof -
  have "zynq_inv s"
    using assms(1) zynq_dmamgmt_init_inv zynq_dmamgmt_init_balanced by (simp add: zynq_inv_def)
  then have inv: "zynq_inv s'" unfolding assms(2)
  proof (induction cs arbitrary: s)
    case (Cons x cs)
    obtain i out c where x: "x = (i, out, c)" by (cases x)
    obtain r c' t where t: "zynq_ioctl E rd wr i out c s = (r, c', t)" by (metis surj_pair)
    have "zynq_inv t" using zynq_ioctl_inv [OF Cons.prems t] .
    then show ?case using Cons.IH [of t] by (simp add: x t)
  qed simp
  let ?e = "zynq_dmamgmt_exit (zdm s')"
  have e: "dm_inv ?e" "dm_balanced ?e" "\<forall>i < 1024. \<not> locked (dmabuf ?e) ! i"
    using inv exit_prefix [of "zdm s'" 1024 ?e] by (simp_all add: zynq_inv_def zynq_dmamgmt_exit_def)
  have "live_bufs ?e = {#}"
    using e(1,3) dm_wf [OF e(1)] by (auto simp: live_bufs_def filter_mset_eq_conv dm_inv_def in_set_conv_nth)
  with e show ?thesis by (simp add: dm_balanced_def)
qed

definition demo_env :: zynq_env where
  "demo_env = \<lparr>dma_alloc_coherent = (\<lambda>cs n. (4096, 65536)), user_copy = (\<lambda>_ _. 0), zdev_id = 0\<rparr>"

definition demo_zsys :: zynq_sys where
  "demo_zsys = \<lparr>zdm = snd (zynq_dmamgmt_init []), zperf = tlkm_perfc_zero, zcopies = []\<rparr>"

theorem zynq_session_no_leak_witness:
  "\<exists>s'. s' = snd (snd (zynq_ioctl demo_env (\<lambda>_. Pair 0) (\<lambda>_. Pair 0) True True
        (Alloc \<lparr>sz = 64, mm_dev_addr = - 1\<rparr>) demo_zsys))
     \<and> obtained (calls (zynq_dmamgmt_exit (zdm s'))) = returned (calls (zynq_dmamgmt_exit (zdm s')))"
  using zynq_session_no_leak [of demo_zsys _ demo_env "\<lambda>_. Pair 0" "\<lambda>_. Pair 0"
      "[(True, True, Alloc \<lparr>sz = 64, mm_dev_addr = - 1\<rparr>)]", OF _ refl]
  by (simp add: demo_zsys_def)

text \<open>A copy to a device address without a buffer allocates one of exactly the transfer's
  length: if the command succeeds (and the kernel handed out a bus address not in the table),
  user space gets the bus address back, and the one copy from user memory fills the whole new
  buffer and no more.\<close>

theorem zynq_copyto_allocates:
  assumes "zynq_inv s" and "buffer_of s (cp_dev_addr cmd) = None"
    and "fresh_addr (zdm s) (snd (dma_alloc_coherent E (calls (zdm s)) (length_of cmd)))"
    and "zynq_ioctl_copyto E cmd s = (0, cmd', s')"
  shows "\<exists>b. buffer_of s' (cp_dev_addr cmd') = Some b \<and> len b = length_of cmd
    \<and> dma_addr b = cp_dev_addr cmd'
    \<and> zcopies s' = zcopies s @ [From_user (kvirt_addr b) (user_addr cmd) (length_of cmd)]
    \<and> calls (zdm s') = calls (zdm s) @ [Dma_alloc (length_of cmd) (kvirt_addr b) (dma_addr b)]"
proof -
  let ?mm = "\<lparr>sz = length_of cmd, mm_dev_addr = - 1\<rparr>"
  obtain r mm' s1 where al: "zynq_ioctl_alloc E ?mm s = (r, mm', s1)" by (metis surj_pair)
  let ?cmd1 = "cmd\<lparr>cp_dev_addr := mm_dev_addr mm'\<rparr>"
  have r: "r = 0" and cb: "copyto_buffer E ?cmd1 s1 = (0, cmd', s')"
    using assms(2,4) al by (auto simp: zynq_ioctl_copyto_def Let_def split: if_splits)
  obtain i kv a where ok: "mm_dev_addr mm' = a" "buffer_of s1 a = Some (elems (dmabuf (zdm s1)) ! i)"
    "kvirt_addr (elems (dmabuf (zdm s1)) ! i) = kv" "len (elems (dmabuf (zdm s1)) ! i) = sz ?mm"
    "dma_addr (elems (dmabuf (zdm s1)) ! i) = a" "zcopies s1 = zcopies s" "kv \<noteq> 0"
    "calls (zdm s1) = calls (zdm s) @ [Dma_alloc (sz ?mm) kv a]"
    by (rule zynq_ioctl_alloc_ok [OF assms(1) al [unfolded r]]) (use assms(3) in simp, blast)
  have "cmd' = ?cmd1" "zdm s' = zdm s1"
    "zcopies s' = zcopies s1 @ [From_user kv (user_addr cmd) (length_of cmd)]"
    using cb ok by (auto simp: copyto_buffer_def do_copy_def perf_add_def EACCES_def ENOMEM_def split: if_splits)
  with ok show ?thesis by (auto simp: buffer_of_def)
qed

lemma demo_zsys_inv: "zynq_inv demo_zsys"
  using zynq_dmamgmt_init_inv zynq_dmamgmt_init_balanced by (simp add: zynq_inv_def demo_zsys_def)

lemma demo_zsys_slots:
  assumes "i < 1024"
  shows "elems (dmabuf (zdm demo_zsys)) ! i = zero_dma_buf" "\<not> locked (dmabuf (zdm demo_zsys)) ! i"
  using assms by (simp_all add: demo_zsys_def zynq_dmamgmt_init_def fsp_init_def init_dma_buf_t_def
      zero_dma_buf_def)

lemma demo_zsys_get: "zynq_dmamgmt_get (zdm demo_zsys) h = None"
  using demo_zsys_slots(2) [of "unat h"] unat_less_poolsz [of h]
  by (auto simp: zynq_dmamgmt_get_def not_le)

lemma demo_fresh:
  "fresh_addr (zdm demo_zsys) (snd (dma_alloc_coherent demo_env (calls (zdm demo_zsys)) n))"
  using demo_zsys_slots(1) by (simp add: fresh_addr_def zero_dma_buf_def demo_env_def)

abbreviation demo_mm :: tlkm_mm_cmd where
  "demo_mm \<equiv> \<lparr>sz = 100, mm_dev_addr = - 1\<rparr>"

lemma demo_alloc:
  obtains s' where
    "zynq_ioctl_alloc demo_env demo_mm demo_zsys = (0, demo_mm\<lparr>mm_dev_addr := 65536\<rparr>, s')"
proof -
  obtain a hid dm where al: "zynq_dmamgmt_alloc (dma_alloc_coherent demo_env) 100 (zdm demo_zsys)
      = ((a, hid), dm)" by (metis surj_pair)
  have k: "dma_alloc_coherent demo_env (calls (zdm demo_zsys)) 100 = (4096, 65536)"
    by (simp add: demo_env_def)
  have "dm_inv (zdm demo_zsys)" using demo_zsys_inv by (simp add: zynq_inv_def)
  from this al k have "a = 65536"
  proof (cases rule: zynq_dmamgmt_alloc_cases)
    case full
    then have "0 \<in> fsp_busy ZYNQ_DMAMGMT_POOLSZ (dmabuf (zdm demo_zsys))"
      by (simp add: ZYNQ_DMAMGMT_POOLSZ_def)
    with demo_zsys_slots(2) [of 0] show ?thesis by (simp add: fsp_busy_def)
  qed simp_all
  then show thesis
    using al demo_zsys_get that
    by (simp add: zynq_ioctl_alloc_def)
qed

text \<open>Allocation and release of device memory through the bus address are inverse: after a
  successful allocation (of an address not in the table) the free command returns
  exactly that buffer to the kernel and leaves the same table slots in use as before.\<close>

theorem zynq_alloc_free_roundtrip:
  assumes "zynq_inv s" and "zynq_ioctl_alloc E c s = (0, c', s')"
    and "fresh_addr (zdm s) (snd (dma_alloc_coherent E (calls (zdm s)) (sz c)))"
    and "zynq_ioctl_free E c' s' = (r, c'', s'')"
  shows "r = 0 \<and> locked (dmabuf (zdm s'')) = locked (dmabuf (zdm s))
    \<and> (\<exists>kv. calls (zdm s'') = calls (zdm s) @
          [Dma_alloc (sz c) kv (mm_dev_addr c'), Dma_free (sz c) kv (mm_dev_addr c')])"
proof -
  obtain i kv a where ok: "i < 1024" "\<not> locked (dmabuf (zdm s)) ! i" "mm_dev_addr c' = a"
    "find_dma_addr (zdm s') a = int i"
    "kvirt_addr (elems (dmabuf (zdm s')) ! i) = kv" "len (elems (dmabuf (zdm s')) ! i) = sz c"
    "dma_addr (elems (dmabuf (zdm s')) ! i) = a"
    "calls (zdm s') = calls (zdm s) @ [Dma_alloc (sz c) kv a]"
    "locked (dmabuf (zdm s')) = (locked (dmabuf (zdm s)))[i := True]"
    by (rule zynq_ioctl_alloc_ok [OF assms(1,2,3)]) blast
  have inv': "dm_inv (zdm s')" using alloc_inv [OF assms(1,2)] by (simp add: zynq_inv_def)
  have u: "unat (word_of_nat i :: u64) = i" using ok(1) by (simp add: unat_of_nat take_bit_nat_eq_self)
  have lk: "locked (dmabuf (zdm s')) ! i"
    using ok dm_wf [of "zdm s"] assms(1) by (simp add: zynq_inv_def)
  obtain dm where d: "zynq_dmamgmt_dealloc (word_of_nat i) (zdm s') = (0, dm)"
    "calls dm = calls (zdm s') @ [Dma_free (sz c) kv a]"
    "locked (dmabuf dm) = (locked (dmabuf (zdm s')))[i := False]"
    using zynq_dmamgmt_dealloc_ok [OF inv', of "word_of_nat i"] ok lk u by auto
  have "locked (dmabuf dm) = locked (dmabuf (zdm s))"
    using d(3) ok(2,9) by (metis list_update_id list_update_overwrite)
  moreover have "zdm s'' = dm" "r = 0"
    using assms(4) d(1) ok(3,4)
    by (auto simp: zynq_ioctl_free_def zynq_dmamgmt_dealloc_dma_def perf_add_def Let_def)
  ultimately show ?thesis using d(2) ok(3,8) by auto
qed

text \<open>The length of a transfer is never compared with the length of an existing buffer.\<close>

lemma zynq_copyto_unchecked_length:
  assumes "buffer_of s (cp_dev_addr cmd) = Some b" and "kvirt_addr b \<noteq> 0"
  shows "zcopies (snd (snd (zynq_ioctl_copyto E cmd s))) =
    zcopies s @ [From_user (kvirt_addr b) (user_addr cmd) (length_of cmd)]"
  using assms by (simp add: zynq_ioctl_copyto_def copyto_buffer_def do_copy_def perf_add_def)

end
