(* ===== verification/Kernel_Env.thy ===== *)
theory Kernel_Env
  imports Tlkm_Prelude "HOL-Library.State_Monad" "HOL-Library.Multiset"
begin

text \<open>
  Calls into code that is not part of the driver: the Linux kernel, the hardware behind
  memory-mapped registers, and callbacks passed as function pointers. A function of the
  driver that makes such calls is a computation in the state monad; its state holds the
  driver's own data and the trace of calls made so far with their results. What a call
  returns is decided by an environment \<open>K\<close>, an arbitrary function of the trace and the
  call, so a statement that holds for every \<open>K\<close> holds for every behaviour of the kernel.
  Results are integers: error codes are negative, pointers are positive, 0 is \<^verbatim>\<open>NULL\<close> or
  success.
\<close>

section \<open>The trace monad\<close>

record ('c, 'd) kst =
  trace :: "('c \<times> int) list"
  dat :: 'd

type_synonym ('c, 'd, 'r) km = "(('c, 'd) kst, 'r) state"
type_synonym 'c kenv = "('c \<times> int) list \<Rightarrow> 'c \<Rightarrow> int"

definition kcall :: "'c kenv \<Rightarrow> 'c \<Rightarrow> ('c, 'd, int) km" where
  "kcall K c = State (\<lambda>s. let r = K (trace s) c in (r, s\<lparr>trace := trace s @ [(c, r)]\<rparr>))"

text \<open>A call whose result the code does not look at.\<close>

definition kdo :: "'c kenv \<Rightarrow> 'c \<Rightarrow> ('c, 'd, unit) km" where
  "kdo K c = State (\<lambda>s. ((), s\<lparr>trace := trace s @ [(c, K (trace s) c)]\<rparr>))"

definition getd :: "('d \<Rightarrow> 'v) \<Rightarrow> ('c, 'd, 'v) km" where
  "getd f = State (\<lambda>s. (f (dat s), s))"

definition modd :: "('d \<Rightarrow> 'd) \<Rightarrow> ('c, 'd, unit) km" where
  "modd f = State (\<lambda>s. ((), s\<lparr>dat := f (dat s)\<rparr>))"

lemma run_kcall [simp]:
  "run_state (kcall K c) s = (K (trace s) c, s\<lparr>trace := trace s @ [(c, K (trace s) c)]\<rparr>)"
  by (simp add: kcall_def Let_def)

lemma run_kdo [simp]:
  "run_state (kdo K c) s = ((), s\<lparr>trace := trace s @ [(c, K (trace s) c)]\<rparr>)"
  by (simp add: kdo_def)

lemma run_getd [simp]: "run_state (getd f) s = (f (dat s), s)"
  by (simp add: getd_def)

lemma run_modd [simp]: "run_state (modd f) s = ((), s\<lparr>dat := f (dat s)\<rparr>)"
  by (simp add: modd_def)

lemma run_bind [simp]:
  "run_state (State_Monad.bind m f) s = (let (x, s') = run_state m s in run_state (f x) s')"
  by (simp add: State_Monad.bind_def case_prod_beta)

lemma run_return [simp]: "run_state (State_Monad.return x) s = (x, s)"
  by (simp add: State_Monad.return_def)

lemma run_if: "run_state (if b then m else n) s = (if b then run_state m s else run_state n s)"
  by simp

section \<open>Resources\<close>

text \<open>
  A trace acquires and releases resources; \<open>acq\<close> and \<open>rel\<close> say which. \<open>live\<close> is the multiset of
  resources held after a trace, or \<^const>\<open>None\<close> if the trace releases something that is not
  held (a double free).
\<close>

fun live :: "('c \<Rightarrow> int \<Rightarrow> 'r option) \<Rightarrow> ('c \<Rightarrow> 'r option) \<Rightarrow> ('c \<times> int) list \<Rightarrow> 'r multiset
    \<Rightarrow> 'r multiset option" where
  "live acq rel [] rs = Some rs"
| "live acq rel ((c, r) # tr) rs =
     (case acq c r of
        Some x \<Rightarrow> live acq rel tr (add_mset x rs)
      | None \<Rightarrow>
         (case rel c of
            Some x \<Rightarrow> if x \<in># rs then live acq rel tr (rs - {#x#}) else None
          | None \<Rightarrow> live acq rel tr rs))"

lemma live_append:
  "live acq rel (xs @ ys) rs =
     (case live acq rel xs rs of None \<Rightarrow> None | Some rs' \<Rightarrow> live acq rel ys rs')"
  by (induction acq rel xs rs rule: live.induct) (auto split: option.splits)

lemma live_snoc:
  assumes "live acq rel tr ms = Some rs"
  shows "live acq rel (tr @ [(c, r)]) ms =
    (case acq c r of Some x \<Rightarrow> Some (add_mset x rs)
     | None \<Rightarrow> (case rel c of Some x \<Rightarrow> if x \<in># rs then Some (rs - {#x#}) else None
                | None \<Rightarrow> Some rs))"
  using assms by (simp add: live_append split: option.splits)

section \<open>Triples\<close>

text \<open>\<open>triple P m Q\<close>: started in a state that satisfies \<open>P\<close>, the computation \<open>m\<close> returns a
  result and ends in a state related by \<open>Q\<close>. Computations of the monad always return.\<close>

definition triple :: "('s \<Rightarrow> bool) \<Rightarrow> ('s, 'r) state \<Rightarrow> ('r \<Rightarrow> 's \<Rightarrow> bool) \<Rightarrow> bool" where
  "triple P m Q \<longleftrightarrow> (\<forall>s. P s \<longrightarrow> (case run_state m s of (r, s') \<Rightarrow> Q r s'))"

lemma tripleI: "(\<And>s r s'. P s \<Longrightarrow> run_state m s = (r, s') \<Longrightarrow> Q r s') \<Longrightarrow> triple P m Q"
  by (auto simp: triple_def)

lemma tripleD: "triple P m Q \<Longrightarrow> P s \<Longrightarrow> run_state m s = (r, s') \<Longrightarrow> Q r s'"
  by (auto simp: triple_def)

lemma triple_bind:
  "triple P m R \<Longrightarrow> (\<And>x. triple (R x) (f x) Q) \<Longrightarrow> triple P (State_Monad.bind m f) Q"
  by (fastforce simp: triple_def split: prod.splits)

lemma triple_if:
  "(b \<Longrightarrow> triple P m Q) \<Longrightarrow> (\<not> b \<Longrightarrow> triple P n Q) \<Longrightarrow> triple P (if b then m else n) Q"
  by simp

lemma triple_return: "(\<And>s. P s \<Longrightarrow> Q x s) \<Longrightarrow> triple P (State_Monad.return x) Q"
  by (simp add: triple_def)

lemma triple_conseq:
  "triple P m Q \<Longrightarrow> (\<And>s. P' s \<Longrightarrow> P s) \<Longrightarrow> (\<And>r s. Q r s \<Longrightarrow> Q' r s) \<Longrightarrow> triple P' m Q'"
  by (fastforce simp: triple_def split: prod.splits)

lemma triple_pre: "triple P m Q \<Longrightarrow> (\<And>s. P' s \<Longrightarrow> P s) \<Longrightarrow> triple P' m Q"
  by (rule triple_conseq)

lemma triple_assume: "(b \<Longrightarrow> triple P m Q) \<Longrightarrow> triple (\<lambda>s. b \<and> P s) m Q"
  by (auto simp: triple_def)

lemma triple_kcall:
  "(\<And>s. P s \<Longrightarrow> Q (K (trace s) c) (s\<lparr>trace := trace s @ [(c, K (trace s) c)]\<rparr>)) \<Longrightarrow>
    triple P (kcall K c) Q"
  by (simp add: triple_def)

lemma triple_kdo:
  "(\<And>s. P s \<Longrightarrow> Q () (s\<lparr>trace := trace s @ [(c, K (trace s) c)]\<rparr>)) \<Longrightarrow> triple P (kdo K c) Q"
  by (simp add: triple_def)

lemma triple_modd: "(\<And>s. P s \<Longrightarrow> Q () (s\<lparr>dat := f (dat s)\<rparr>)) \<Longrightarrow> triple P (modd f) Q"
  by (simp add: triple_def)

lemma triple_getd: "(\<And>s. P s \<Longrightarrow> Q (f (dat s)) s) \<Longrightarrow> triple P (getd f) Q"
  by (simp add: triple_def)

section \<open>Accounting\<close>

text \<open>Rules for computations whose calls acquire and release resources: \<open>owns rs P\<close> says that
  exactly \<open>rs\<close> is held and that the driver's data satisfies \<open>P\<close>. A call does not both acquire
  and release.\<close>

locale accounting =
  fixes acq :: "'c \<Rightarrow> int \<Rightarrow> 'r option" and rel :: "'c \<Rightarrow> 'r option"
  assumes acq_rel: "acq c r = Some x \<Longrightarrow> rel c = None"
begin

definition owns :: "'r multiset \<Rightarrow> ('d \<Rightarrow> bool) \<Rightarrow> ('c, 'd) kst \<Rightarrow> bool" where
  "owns rs P s \<longleftrightarrow> live acq rel (trace s) {#} = Some rs \<and> P (dat s)"

lemma owns_neutral:
  assumes "\<And>r. acq c r = None" and "rel c = None"
  shows "triple (owns rs P) (kdo K c) (\<lambda>_. owns rs P)"
    and "triple (owns rs P) (kcall K c) (\<lambda>_. owns rs P)"
  using assms by (auto intro!: triple_kdo triple_kcall simp: owns_def live_snoc)

lemma owns_acquire:
  "rel c = None \<Longrightarrow> triple (owns rs P) (kcall K c)
     (\<lambda>r. owns (case acq c r of Some x \<Rightarrow> add_mset x rs | None \<Rightarrow> rs) P)"
  by (rule triple_kcall) (auto simp: owns_def live_snoc split: option.split)

lemma owns_release:
  assumes "rel c = Some x"
  shows "triple (owns (add_mset x rs) P) (kdo K c) (\<lambda>_. owns rs P)"
    and "triple (owns (add_mset x rs) P) (kcall K c) (\<lambda>_. owns rs P)"
proof -
  have "acq c r = None" for r using acq_rel [of c r] assms by (cases "acq c r") auto
  then show "triple (owns (add_mset x rs) P) (kdo K c) (\<lambda>_. owns rs P)"
    "triple (owns (add_mset x rs) P) (kcall K c) (\<lambda>_. owns rs P)"
    using assms by (auto intro!: triple_kdo triple_kcall simp: owns_def live_snoc)
qed

lemma owns_modd: "(\<And>d. P d \<Longrightarrow> Q (f d)) \<Longrightarrow> triple (owns rs P) (modd f) (\<lambda>_. owns rs Q)"
  by (rule triple_modd) (simp add: owns_def)

lemma owns_getd: "triple (owns rs P) (getd f) (\<lambda>v. owns rs (\<lambda>d. P d \<and> f d = v))"
  by (rule triple_getd) (simp add: owns_def)

lemma owns_return: "triple (owns rs P) (State_Monad.return x) (\<lambda>r s. r = x \<and> owns rs P s)"
  by (rule triple_return) simp

end

end
