(* ===== verification/Tlkm_Platform.thy ===== *)
theory Tlkm_Platform
  imports Tlkm_Types Kernel_Env
begin

text \<open>
  I/O mappings of a device's register spaces and register access from user space,
  \<^verbatim>\<open>tlkm/tlkm_platform.c\<close>, and the mmap handler of the device file,
  \<^verbatim>\<open>device/tlkm_device_mmap.c\<close>. Kernel functions are calls of the trace monad; the data of
  the monad is the device and the performance counters.
\<close>

section \<open>Definitions\<close>

datatype pcall =
    Ioremap u64 u64 | Iounmap u64
  | Kzalloc u64 | Kzalloc_control | Kfree int
  | Memcpy_fromio int u64 u64 | Memcpy_toio u64 int u64
  | Copy_to_user u64 int u64 | Copy_from_user int u64 u64
  | Kstrdup u32                                   \<comment> \<open>file name for the device id\<close>
  | Misc_register_perfc | Misc_deregister_perfc   \<comment> \<open>performance counter file\<close>
  | Misc_register_ctrl | Misc_deregister_ctrl     \<comment> \<open>control file\<close>
  | Cls_create | Cls_destroy                      \<comment> \<open>callbacks of the device class\<close>
  | Cls_init_subsystems | Cls_exit_subsystems
  | Cls_init_interrupts | Cls_exit_interrupts

record pdat =
  pdev :: tlkm_device
  pperf :: tlkm_perfc_t
  perfc_name :: int     \<comment> \<open>\<^verbatim>\<open>dev->perfc_dev.name\<close>\<close>
  ctrl_name :: int      \<comment> \<open>\<^verbatim>\<open>dev->ctrl->miscdev.name\<close>\<close>
  fault :: bool         \<comment> \<open>a write behind an array has happened\<close>

type_synonym 'r pm = "(pcall, pdat, 'r) km"

abbreviation upd_dev :: "(tlkm_device \<Rightarrow> tlkm_device) \<Rightarrow> pdat \<Rightarrow> pdat" where
  "upd_dev f d \<equiv> d\<lparr>pdev := f (pdev d)\<rparr>"

definition set_mmap :: "(platform_mmap \<Rightarrow> platform_mmap) \<Rightarrow> unit pm" where
  "set_mmap f = modd (upd_dev (\<lambda>d. d\<lparr>mmap := f (mmap d)\<rparr>))"

definition tlkm_platform_status_init :: "pcall kenv \<Rightarrow> int pm" where
  "tlkm_platform_status_init K = do {
     d \<leftarrow> getd pdev;
     p \<leftarrow> kcall K (Ioremap (base_offset d + base (platform_status (cls d)))
                          (rsize (platform_status (cls d))));
     set_mmap (\<lambda>m. m\<lparr>m_status := word_of_int p\<rparr>);
     if p = 0 then State_Monad.return (- ENOSPC) else State_Monad.return 0
   }"

definition tlkm_platform_status_exit :: "pcall kenv \<Rightarrow> unit pm" where
  "tlkm_platform_status_exit K = do {
     d \<leftarrow> getd pdev;
     if m_status (mmap d) \<noteq> 0
     then do { kdo K (Iounmap (m_status (mmap d))); set_mmap (\<lambda>m. m\<lparr>m_status := 0\<rparr>) }
     else State_Monad.return ()
   }"

definition tlkm_platform_mmap_init :: "pcall kenv \<Rightarrow> int pm" where
  "tlkm_platform_mmap_init K = do {
     d \<leftarrow> getd pdev;
     pa \<leftarrow> kcall K (Ioremap (base_offset d + base (arch d)) (rsize (arch d)));
     set_mmap (\<lambda>m. m\<lparr>m_arch := word_of_int pa\<rparr>);
     if pa = 0 then State_Monad.return (- ENOSPC)
     else do {
       pp \<leftarrow> kcall K (Ioremap (base_offset d + base (plat d)) (rsize (plat d)));
       set_mmap (\<lambda>m. m\<lparr>m_plat := word_of_int pp\<rparr>);
       if pp = 0
       then do {
         d' \<leftarrow> getd pdev;
         kdo K (Iounmap (m_arch (mmap d')));
         set_mmap (\<lambda>m. m\<lparr>m_arch := 0\<rparr>);
         State_Monad.return (- ENOSPC)
       }
       else State_Monad.return 0
     }
   }"

definition tlkm_platform_mmap_exit :: "pcall kenv \<Rightarrow> unit pm" where
  "tlkm_platform_mmap_exit K = do {
     d \<leftarrow> getd pdev;
     (if m_plat (mmap d) \<noteq> 0
      then do { kdo K (Iounmap (m_plat (mmap d))); set_mmap (\<lambda>m. m\<lparr>m_plat := 0\<rparr>) }
      else State_Monad.return ());
     (if m_arch (mmap d) \<noteq> 0
      then do { kdo K (Iounmap (m_arch (mmap d))); set_mmap (\<lambda>m. m\<lparr>m_arch := 0\<rparr>) }
      else State_Monad.return ())
   }"

text \<open>\<open>cls_addr2map\<close> is the class's \<^verbatim>\<open>addr2map\<close> callback.\<close>

definition addr2map_off :: "(tlkm_device \<Rightarrow> u64 \<Rightarrow> u64) \<Rightarrow> tlkm_device \<Rightarrow> dev_addr_t \<Rightarrow> u64" where
  "addr2map_off cls_addr2map d addr =
     (if addr = 0 then base_offset d + base (platform_status (cls d))
      else if addr = 4096 then base_offset d + base (arch d)
      else if addr = 8192 then base_offset d + base (plat d)
      else if has_addr2map (cls d) then cls_addr2map d addr
      else 0)"

definition addr2map :: "tlkm_device \<Rightarrow> dev_addr_t \<Rightarrow> u64" where
  "addr2map d addr =
     (if addr = 0 then m_status (mmap d)
      else if addr = 4096 then m_arch (mmap d)
      else if addr = 8192 then m_plat (mmap d)
      else 0)"

definition count_perfc :: "perfc \<Rightarrow> u64 \<Rightarrow> unit pm" where
  "count_perfc n v = modd (\<lambda>d. d\<lparr>pperf := tlkm_perfc_add n (dev_id (pdev d)) (ucast v) (pperf d)\<rparr>)"

definition tlkm_platform_read :: "pcall kenv \<Rightarrow> tlkm_copy_cmd \<Rightarrow> int pm" where
  "tlkm_platform_read K cmd = do {
     d \<leftarrow> getd pdev;
     let ptr = addr2map d (cp_dev_addr cmd);
     if ptr = 0 then State_Monad.return (- ENXIO)
     else do {
       buf \<leftarrow> kcall K (Kzalloc (length_of cmd));
       kdo K (Memcpy_fromio buf ptr (length_of cmd));
       left \<leftarrow> kcall K (Copy_to_user (user_addr cmd) buf (length_of cmd));
       let ret = (if left \<noteq> 0 then - EAGAIN else left);
       kdo K (Kfree buf);
       count_perfc total_ctl_reads (length_of cmd);
       State_Monad.return ret
     }
   }"

definition tlkm_platform_write :: "pcall kenv \<Rightarrow> tlkm_copy_cmd \<Rightarrow> int pm" where
  "tlkm_platform_write K cmd = do {
     d \<leftarrow> getd pdev;
     let ptr = addr2map d (cp_dev_addr cmd);
     if ptr = 0 then State_Monad.return (- ENXIO)
     else do {
       buf \<leftarrow> kcall K (Kzalloc (length_of cmd));
       left \<leftarrow> kcall K (Copy_from_user buf (user_addr cmd) (length_of cmd));
       if left \<noteq> 0
       then do { kdo K (Kfree buf); State_Monad.return (- EAGAIN) }
       else do {
         kdo K (Memcpy_toio ptr buf (length_of cmd));
         count_perfc total_ctl_writes (length_of cmd);
         kdo K (Kfree buf);
         State_Monad.return left
       }
     }
   }"

text \<open>The mmap handler. \<open>remap\<close> is the result of \<^verbatim>\<open>remap_pfn_range\<close> for the start address, page
  frame, length and cacheability it is called with.\<close>

record vm_area =
  vm_start :: u64
  vm_end :: u64
  vm_pgoff :: u64
  vm_noncached :: bool

definition tlkm_device_mmap ::
  "(tlkm_device \<Rightarrow> u64 \<Rightarrow> u64) \<Rightarrow> (u64 \<Rightarrow> u64 \<Rightarrow> u64 \<Rightarrow> bool \<Rightarrow> int) \<Rightarrow> tlkm_device \<Rightarrow> vm_area
     \<Rightarrow> int \<times> vm_area" where
  "tlkm_device_mmap cls_addr2map remap dp vm =
     (let sz = vm_end vm - vm_start vm;
          off = push_bit 12 (vm_pgoff vm);
          kptr = addr2map_off cls_addr2map dp off
      in if take 3 (dname dp) \<noteq> ''sim''
         then (if kptr = 0 then (- ENXIO, vm)
               else let vm' = (if drop_bit 12 off < 4 then vm\<lparr>vm_noncached := True\<rparr> else vm)
                    in if remap (vm_start vm') (drop_bit 12 kptr) sz (vm_noncached vm') \<noteq> 0
                       then (- EAGAIN, vm') else (0, vm'))
         else (0, vm))"

section \<open>Resources\<close>

datatype presource =
    Mapping u64 | Buffer int | Perfc_file | Ctrl_file | Cls_private | Subsystems | Interrupts

fun pacq :: "pcall \<Rightarrow> int \<Rightarrow> presource option" where
  "pacq (Ioremap a n) r = (if r = 0 then None else Some (Mapping (word_of_int r)))"
| "pacq (Kzalloc n) r = (if r = 0 then None else Some (Buffer r))"
| "pacq Kzalloc_control r = (if r = 0 then None else Some (Buffer r))"
| "pacq (Kstrdup i) r = (if r = 0 then None else Some (Buffer r))"
| "pacq Misc_register_perfc r = (if r = 0 then Some Perfc_file else None)"
| "pacq Misc_register_ctrl r = (if r = 0 then Some Ctrl_file else None)"
| "pacq Cls_create r = (if r = 0 then Some Cls_private else None)"
| "pacq Cls_init_subsystems r = (if r = 0 then Some Subsystems else None)"
| "pacq Cls_init_interrupts r = (if r = 0 then Some Interrupts else None)"
| "pacq _ r = None"

fun prel :: "pcall \<Rightarrow> presource option" where
  "prel (Iounmap p) = Some (Mapping p)"
| "prel (Kfree b) = (if b = 0 then None else Some (Buffer b))"
| "prel Misc_deregister_perfc = Some Perfc_file"
| "prel Misc_deregister_ctrl = Some Ctrl_file"
| "prel Cls_destroy = Some Cls_private"
| "prel Cls_exit_subsystems = Some Subsystems"
| "prel Cls_exit_interrupts = Some Interrupts"
| "prel _ = None"

definition plive :: "(pcall, pdat) kst \<Rightarrow> presource multiset option" where
  "plive s = live pacq prel (trace s) {#}"

text \<open>An environment in which mappings are kernel addresses: they fit a pointer.\<close>

definition ptr_env :: "pcall kenv \<Rightarrow> bool" where
  "ptr_env K \<longleftrightarrow> (\<forall>tr a n. 0 \<le> K tr (Ioremap a n) \<and> K tr (Ioremap a n) < 2 ^ 64)"

lemma word_of_int_ptr:
  assumes "0 \<le> x" and "x < 2 ^ 64"
  shows "word_of_int x = (0 :: u64) \<longleftrightarrow> x = 0"
  using assms by (auto simp: word_of_int_eq_0_iff dest: zdvd_imp_le)

lemma ptr_env_word:
  "ptr_env K \<Longrightarrow> word_of_int (K tr (Ioremap a n)) = (0 :: u64) \<longleftrightarrow> K tr (Ioremap a n) = 0"
  by (rule word_of_int_ptr) (simp_all add: ptr_env_def)

lemmas platform_run = set_mmap_def count_perfc_def Let_def

lemma plive_snoc:
  assumes "plive s = Some rs" and "trace s' = trace s @ [(c, r)]"
  shows "plive s' =
    (case pacq c r of Some x \<Rightarrow> Some (add_mset x rs)
     | None \<Rightarrow> (case prel c of Some x \<Rightarrow> if x \<in># rs then Some (rs - {#x#}) else None
                | None \<Rightarrow> Some rs))"
  using assms live_snoc by (simp add: plive_def)

lemma plive_same: "trace s' = trace s \<Longrightarrow> plive s' = plive s"
  by (simp add: plive_def)

text \<open>The outcomes of \<^verbatim>\<open>tlkm_platform_mmap_init\<close>.\<close>

lemma mmap_init_cases:
  assumes "ptr_env K" and "run_state (tlkm_platform_mmap_init K) s = (r, s')" and "plive s = Some rs"
  obtains (ok) "r = 0" "m_arch (mmap (pdev (dat s'))) \<noteq> 0" "m_plat (mmap (pdev (dat s'))) \<noteq> 0"
      "plive s' = Some ({#Mapping (m_plat (mmap (pdev (dat s')))),
                          Mapping (m_arch (mmap (pdev (dat s'))))#} + rs)"
  | (failed) "r = - ENOSPC" "m_arch (mmap (pdev (dat s'))) = 0" "plive s' = Some rs"
proof -
  let ?d = "pdev (dat s)"
  let ?a = "K (trace s) (Ioremap (base_offset ?d + base (arch ?d)) (rsize (arch ?d)))"
  show thesis
  proof (cases "?a = 0")
    case True
    with assms(2,3) show thesis
      by (intro failed) (auto simp: tlkm_platform_mmap_init_def platform_run plive_def live_append)
  next
    case a: False
    let ?p = "K (trace s @ [(Ioremap (base_offset ?d + base (arch ?d)) (rsize (arch ?d)), ?a)])
      (Ioremap (base_offset ?d + base (plat ?d)) (rsize (plat ?d)))"
    show thesis
    proof (cases "?p = 0")
      case True
      with a assms(2,3) show thesis
        by (intro failed) (auto simp: tlkm_platform_mmap_init_def platform_run plive_def live_append)
    next
      case False
      with a assms show thesis
        by (intro ok) (auto simp: tlkm_platform_mmap_init_def platform_run ptr_env_word
            plive_def live_append)
    qed
  qed
qed

text \<open>Mapping changes nothing of the device but the two mappings.\<close>

lemma mmap_init_frame:
  assumes "run_state (tlkm_platform_mmap_init K) s = (r, s')"
  shows "m_status (mmap (pdev (dat s'))) = m_status (mmap (pdev (dat s)))"
    and "(pdev (dat s'))\<lparr>mmap := mmap (pdev (dat s))\<rparr> = pdev (dat s)"
    and "perfc_name (dat s') = perfc_name (dat s)" and "ctrl_name (dat s') = ctrl_name (dat s)"
  using assms by (auto simp: tlkm_platform_mmap_init_def platform_run split: if_splits)

text \<open>C15: Mapping the register spaces is all or nothing: on success both mappings exist and are
  recorded in the device, on failure (of either \<^verbatim>\<open>ioremap\<close>) none is left behind; a later
  \<^verbatim>\<open>tlkm_platform_mmap_exit\<close> gives back exactly what was mapped.\<close>

theorem tlkm_platform_mmap_roundtrip:
  assumes "ptr_env K" and "run_state (tlkm_platform_mmap_init K) s = (r, s')" and "plive s = Some rs"
    and "m_plat (mmap (pdev (dat s))) = 0"
  shows "(r \<noteq> 0 \<longrightarrow> plive s' = Some rs)
    \<and> (r = 0 \<longrightarrow> plive s' = Some ({#Mapping (m_plat (mmap (pdev (dat s')))),
                                     Mapping (m_arch (mmap (pdev (dat s'))))#} + rs)
        \<and> plive (snd (run_state (tlkm_platform_mmap_exit K) s')) = Some rs)"
  using assms(1-3)
proof (cases rule: mmap_init_cases)
  case ok
  then show ?thesis
    by (simp add: tlkm_platform_mmap_exit_def platform_run plive_def live_append)
qed (simp add: ENOSPC_def)

definition demo_K :: "pcall kenv" where
  "demo_K tr c = (case c of Ioremap a n \<Rightarrow> (if tr = [] then 4096 else 4097) | Kzalloc n \<Rightarrow> 64 | _ \<Rightarrow> 0)"

definition demo_pdat :: "tlkm_device \<Rightarrow> pdat" where
  "demo_pdat d = \<lparr>pdev = d, pperf = tlkm_perfc_zero, perfc_name = 0, ctrl_name = 0, fault = False\<rparr>"

definition demo_pdev :: tlkm_device where
  "demo_pdev = \<lparr>
     cls = \<lparr>cls_name = ''zynq'', has_init_subsystems = True, has_exit_subsystems = True,
       has_init_interrupts = True, has_exit_interrupts = True, has_miscdev_close = False,
       has_addr2map = False, has_ioctl = True, number_of_interrupts = 2,
       platform_status = INIT_REGSPACE 0x77770000 0x2000\<rparr>,
     dev_id = 0, dname = ''zynq'', ref_cnt = [0, 0, 0], vendor_id = 0, product_id = 0,
     base_offset = 0, mmap = \<lparr>m_status = 0, m_arch = 0, m_plat = 0\<rparr>, status = status_zero,
     arch = INIT_REGSPACE 0x40000000 0x1000, plat = INIT_REGSPACE 0x50000000 0x1000, ctrl = 0,
     components = []\<rparr>"

theorem tlkm_platform_mmap_roundtrip_witness:
  "plive (snd (run_state (tlkm_platform_mmap_init demo_K) \<lparr>trace = [], dat = demo_pdat demo_pdev\<rparr>))
   = Some {#Mapping 4097, Mapping 4096#}"
proof -
  let ?s = "\<lparr>trace = [], dat = demo_pdat demo_pdev\<rparr> :: (pcall, pdat) kst"
  have env: "ptr_env demo_K" by (simp add: ptr_env_def demo_K_def)
  obtain r s' where run: "run_state (tlkm_platform_mmap_init demo_K) ?s = (r, s')" by fastforce
  have "r = 0" "m_arch (mmap (pdev (dat s'))) = 4096" "m_plat (mmap (pdev (dat s'))) = 4097"
    using run by (auto simp: tlkm_platform_mmap_init_def platform_run demo_K_def demo_pdat_def
        demo_pdev_def)
  moreover have "plive ?s = Some {#}" by (simp add: plive_def)
  ultimately show ?thesis
    using tlkm_platform_mmap_roundtrip [OF env run, of "{#}"] run
    by (simp add: demo_pdat_def demo_pdev_def)
qed

text \<open>A register read or write from user space touches the I/O mapping selected by the
  address (status, architecture or platform space) for exactly the requested length, and
  on every path, successful or not, frees its bounce buffer. An address that selects no
  mapping gives \<^verbatim>\<open>-ENXIO\<close> without any access; a failed copy from user space gives
  \<^verbatim>\<open>-EAGAIN\<close> and leaves the registers alone.\<close>

theorem tlkm_platform_access:
  assumes "plive s = Some rs" and "ptr = addr2map (pdev (dat s)) (cp_dev_addr cmd)"
    and "n = length_of cmd" and "u = user_addr cmd"
  shows "(case run_state (tlkm_platform_read K cmd) s of (r, s') \<Rightarrow> plive s' = Some rs \<and>
      (if ptr = 0 then r = - ENXIO \<and> trace s' = trace s
       else \<exists>buf copied. r = (if copied then 0 else - EAGAIN) \<and>
         map fst (trace s') = map fst (trace s) @
           [Kzalloc n, Memcpy_fromio buf ptr n, Copy_to_user u buf n, Kfree buf]))
    \<and> (case run_state (tlkm_platform_write K cmd) s of (r, s') \<Rightarrow> plive s' = Some rs \<and>
      (if ptr = 0 then r = - ENXIO \<and> trace s' = trace s
       else \<exists>buf copied. r = (if copied then 0 else - EAGAIN) \<and>
         map fst (trace s') = map fst (trace s) @ [Kzalloc n, Copy_from_user buf u n] @
           (if copied then [Memcpy_toio ptr buf n] else []) @ [Kfree buf]))"
  using assms
  by (auto simp: tlkm_platform_read_def tlkm_platform_write_def platform_run plive_def live_append
      ex_bool_eq EAGAIN_def)

end
