(* ===== verification/Tlkm_Status.thy ===== *)
theory Tlkm_Status
  imports Tlkm_Types
begin

text \<open>
  Reading the status core, \<^verbatim>\<open>tlkm/tlkm_status.c\<close>. The protobuf decoder is a parameter: from
  the bytes of the status core it gives the platform messages it finds, in order, with the
  bytes of the name field, and the decoded fields or a failure. Everything the driver does
  with them, in the callbacks \<^verbatim>\<open>parse_string\<close> and \<^verbatim>\<open>add_component\<close>, is modelled. A component
  beyond the table would be written behind it, which the model reports as \<^const>\<open>None\<close>.
\<close>

record pb_platform =
  pb_name :: "u8 list"
  pb_offset :: u64
  pb_size :: u64
  pb_ok :: bool

text \<open>Result of decoding: the messages seen and, if the whole message is valid, its fields.\<close>

type_synonym pb_decoder = "u8 list \<Rightarrow> pb_platform list \<times> tlkm_status option"

definition parse_string :: "u8 list \<Rightarrow> u8 list" where
  "parse_string stream =
     (let bytes_to_read = if length stream < 31 then length stream else 31
      in take bytes_to_read stream @ replicate (32 - bytes_to_read) 0)"

text \<open>\<^verbatim>\<open>add_component\<close> with \<^verbatim>\<open>cntr\<close> components read before.\<close>

definition add_component ::
  "pb_platform \<Rightarrow> tlkm_component list \<times> nat \<Rightarrow> (bool \<times> tlkm_component list \<times> nat) option" where
  "add_component p = (\<lambda>(comps, cntr).
     if cntr < length comps
     then Some (pb_ok p,
       comps[cntr := \<lparr>c_name = parse_string (pb_name p), c_offset = pb_offset p,
                      c_size = pb_size p\<rparr>],
       cntr + 1)
     else None)"

text \<open>The decoder calls the callback once per message and stops when it returns false.\<close>

fun add_components ::
  "pb_platform list \<Rightarrow> tlkm_component list \<times> nat \<Rightarrow> (bool \<times> tlkm_component list) option" where
  "add_components [] (comps, cntr) = Some (True, comps)"
| "add_components (p # ps) (comps, cntr) =
     (case add_component p (comps, cntr) of
        None \<Rightarrow> None
      | Some (ok, comps', cntr') \<Rightarrow>
          if ok then add_components ps (comps', cntr') else Some (False, comps'))"

definition clear_component :: "tlkm_component \<Rightarrow> tlkm_component" where
  "clear_component c =
     c\<lparr>c_name := replicate TLKM_COMPONENTS_NAME_MAX 0, c_offset := - 1\<rparr>"

definition tlkm_status_init ::
  "pb_decoder \<Rightarrow> u8 list \<Rightarrow> tlkm_device \<Rightarrow> (int \<times> tlkm_device) option" where
  "tlkm_status_init pb_decode_delimited buf dev =
     (let dev1 = dev\<lparr>components := map clear_component (components dev), status := status_zero\<rparr>;
          (msgs, res) = pb_decode_delimited buf
      in case add_components msgs (components dev1, 0) of
           None \<Rightarrow> None
         | Some (ok, comps) \<Rightarrow>
             (case (ok, res) of
                (True, Some sta) \<Rightarrow> Some (0, dev1\<lparr>components := comps, status := sta\<rparr>)
              | _ \<Rightarrow> Some (- ENOSPC, dev1\<lparr>components := comps\<rparr>)))"

definition tlkm_status_exit :: "tlkm_device \<Rightarrow> tlkm_device" where
  "tlkm_status_exit dev = dev\<lparr>status := status_zero\<rparr>"

text \<open>\<^verbatim>\<open>strncmp(a, b, n) == 0\<close>; a byte behind the end of a list is the terminating NUL.\<close>

fun head0 :: "u8 list \<Rightarrow> u8" where
  "head0 [] = 0"
| "head0 (x # xs) = x"

fun strncmp_eq :: "u8 list \<Rightarrow> u8 list \<Rightarrow> nat \<Rightarrow> bool" where
  "strncmp_eq a b 0 = True"
| "strncmp_eq a b (Suc n) =
     (if head0 a \<noteq> head0 b then False
      else if head0 a = 0 then True
      else strncmp_eq (tl a) (tl b) n)"

fun get_component :: "tlkm_component list \<Rightarrow> u8 list \<Rightarrow> tlkm_component option" where
  "get_component [] c = None"
| "get_component (x # xs) c =
     (if strncmp_eq c (c_name x) TLKM_COMPONENTS_NAME_MAX then Some x else get_component xs c)"

definition tlkm_status_get_component_base :: "tlkm_device \<Rightarrow> u8 list \<Rightarrow> dev_addr_t" where
  "tlkm_status_get_component_base dev c =
     (case get_component (components dev) c of Some x \<Rightarrow> c_offset x | None \<Rightarrow> - 1)"

definition tlkm_status_get_component_size :: "tlkm_device \<Rightarrow> u8 list \<Rightarrow> u64" where
  "tlkm_status_get_component_size dev c =
     (case get_component (components dev) c of Some x \<Rightarrow> c_size x | None \<Rightarrow> - 1)"

section \<open>Names\<close>

lemma parse_string_length: "length (parse_string s) = 32"
  by (simp add: parse_string_def Let_def)

lemma parse_string_take: "parse_string s = take 31 s @ replicate (32 - length (take 31 s)) 0"
  by (simp add: parse_string_def Let_def min_def)

lemma strncmp_eq_padded:
  assumes "0 \<notin> set a" and "0 \<notin> set b" and "length b < n"
  shows "strncmp_eq a (b @ replicate k 0) n \<longleftrightarrow> a = b"
  using assms
proof (induction b arbitrary: a n)
  case Nil
  then obtain m where "n = Suc m" by (cases n) auto
  moreover have "head0 (replicate k 0) = 0" by (cases k) auto
  ultimately show ?case using Nil by (cases a) auto
next
  case (Cons x b)
  then obtain m where "n = Suc m" by (cases n) auto
  with Cons show ?case by (cases a) auto
qed

lemma strncmp_eq_parse_string:
  assumes "0 \<notin> set c" and "0 \<notin> set s"
  shows "strncmp_eq c (parse_string s) TLKM_COMPONENTS_NAME_MAX \<longleftrightarrow> c = take 31 s"
proof -
  have "0 \<notin> set (take 31 s)" "length (take 31 s) < 32"
    using assms(2) by (auto dest: in_set_takeD)
  then show ?thesis
    using strncmp_eq_padded [OF assms(1)]
    unfolding parse_string_take TLKM_COMPONENTS_NAME_MAX_def by blast
qed

section \<open>The component table after initialisation\<close>

definition stored :: "pb_platform \<Rightarrow> tlkm_component" where
  "stored p = \<lparr>c_name = parse_string (pb_name p), c_offset = pb_offset p, c_size = pb_size p\<rparr>"

lemma add_components_ok:
  assumes "\<forall>p \<in> set ps. pb_ok p" and "n + length ps \<le> length comps"
  shows "add_components ps (comps, n) =
    Some (True, take n comps @ map stored ps @ drop (n + length ps) comps)"
  using assms
proof (induction ps arbitrary: comps n)
  case (Cons p ps)
  have "add_component p (comps, n) = Some (True, comps[n := stored p], n + 1)"
    using Cons.prems by (simp add: add_component_def stored_def)
  moreover have "take (n + 1) (comps[n := stored p]) = take n comps @ [stored p]"
    using Cons.prems by (simp add: take_Suc_conv_app_nth)
  ultimately show ?case using Cons by simp
qed simp

lemma add_components_overflow:
  assumes "\<forall>p \<in> set ps. pb_ok p" and "n \<le> length comps" and "length comps < n + length ps"
  shows "add_components ps (comps, n) = None"
  using assms
proof (induction ps arbitrary: comps n)
  case (Cons p ps)
  show ?case
  proof (cases "n < length comps")
    case True
    then have "add_component p (comps, n) = Some (True, comps[n := stored p], n + 1)"
      using Cons.prems by (simp add: add_component_def stored_def)
    with True Cons show ?thesis by simp
  qed (simp add: add_component_def)
qed simp

lemma add_components_total:
  "n + length ps \<le> length comps \<Longrightarrow> add_components ps (comps, n) \<noteq> None"
  by (induction ps arbitrary: comps n) (auto simp: add_component_def)

text \<open>Status initialisation touches nothing but the status and the component table.\<close>

lemma tlkm_status_init_frame:
  assumes "length (fst (pb buf)) \<le> 16" and "length (components dev) = TLKM_COMPONENT_MAX"
  obtains r sta comps where
    "tlkm_status_init pb buf dev = Some (r, dev\<lparr>components := comps, status := sta\<rparr>)"
proof -
  obtain msgs res where d: "pb buf = (msgs, res)" by (cases "pb buf")
  obtain ok comps where "add_components msgs (map clear_component (components dev), 0) = Some (ok, comps)"
    using add_components_total [of 0 msgs "map clear_component (components dev)"] assms d
    by (auto simp: TLKM_COMPONENT_MAX_def)
  then have "tlkm_status_init pb buf dev =
      Some (if ok \<and> res \<noteq> None then 0 else - ENOSPC,
        dev\<lparr>components := comps, status := if ok \<and> res \<noteq> None then the res else status_zero\<rparr>)"
    using d by (cases ok; cases res) (simp_all add: tlkm_status_init_def Let_def)
  then show thesis by (rule that)
qed

lemma get_component_append:
  "get_component (xs @ ys) c =
     (case get_component xs c of Some x \<Rightarrow> Some x | None \<Rightarrow> get_component ys c)"
  by (induction xs) auto

lemma get_component_stored:
  assumes "0 \<notin> set c" and "\<forall>p \<in> set ps. 0 \<notin> set (pb_name p)"
  shows "get_component (map stored ps) c = map_option stored (find (\<lambda>p. c = take 31 (pb_name p)) ps)"
  using assms by (induction ps) (auto simp: stored_def strncmp_eq_parse_string)

lemma get_component_cleared:
  assumes "c \<noteq> []" and "0 \<notin> set c"
  shows "get_component (map clear_component xs) c = None"
proof -
  have "\<not> strncmp_eq c (replicate 32 0) 32"
    using strncmp_eq_padded [of c "[]" 32 32] assms by simp
  then show ?thesis
    by (induction xs) (auto simp: clear_component_def TLKM_COMPONENTS_NAME_MAX_def)
qed


definition demo_device :: tlkm_device where
  "demo_device = \<lparr>
     cls = \<lparr>cls_name = ''zynq'', has_init_subsystems = True, has_exit_subsystems = True,
       has_init_interrupts = True, has_exit_interrupts = True, has_miscdev_close = False,
       has_addr2map = False, has_ioctl = True, number_of_interrupts = 2,
       platform_status = INIT_REGSPACE 0x77770000 0x2000\<rparr>,
     dev_id = 0, dname = ''zynq'', ref_cnt = [0, 0, 0], vendor_id = 0, product_id = 0,
     base_offset = 0, mmap = \<lparr>m_status = 0, m_arch = 0, m_plat = 0\<rparr>, status = status_zero,
     arch = INIT_REGSPACE 0 0, plat = INIT_REGSPACE 0 0, ctrl = 0,
     components = replicate 16 \<lparr>c_name = replicate 32 0, c_offset = - 1, c_size = 0\<rparr>\<rparr>"


text \<open>A status core with more than 16 components is written behind the table.\<close>

lemma tlkm_status_init_overflow:
  assumes "pb_decode buf = (msgs, res)" and "length (components dev) = TLKM_COMPONENT_MAX"
    and "\<forall>p \<in> set msgs. pb_ok p" and "16 < length msgs"
  shows "tlkm_status_init pb_decode buf dev = None"
  using add_components_overflow [of msgs 0 "map clear_component (components dev)"] assms
  by (simp add: tlkm_status_init_def Let_def TLKM_COMPONENT_MAX_def)

end
