(* ===== verification/Tlkm_Device.thy ===== *)
theory Tlkm_Device
  imports Tlkm_Platform Tlkm_Status
begin

text \<open>
  Life cycle of a device, \<^verbatim>\<open>tlkm/tlkm_device.c\<close>, with the control file of
  \<^verbatim>\<open>device/tlkm_control.c\<close> and the performance counter file of
  \<^verbatim>\<open>device/tlkm_perfc_miscdev.c\<close>; reference counting of the access modes. Each label of the
  error path of \<^verbatim>\<open>tlkm_device_init\<close> is a definition that undoes one step and continues with
  the next label, as the code falls through.
\<close>

section \<open>Device files\<close>

definition tlkm_perfc_miscdev_init :: "pcall kenv \<Rightarrow> int pm" where
  "tlkm_perfc_miscdev_init K = do {
     d \<leftarrow> getd pdev;
     n \<leftarrow> kcall K (Kstrdup (dev_id d));
     modd (\<lambda>x. x\<lparr>perfc_name := n\<rparr>);
     kcall K Misc_register_perfc
   }"

definition tlkm_perfc_miscdev_exit :: "pcall kenv \<Rightarrow> unit pm" where
  "tlkm_perfc_miscdev_exit K = do {
     n \<leftarrow> getd perfc_name;
     kdo K (Kfree n);
     kdo K Misc_deregister_perfc;
     modd (\<lambda>x. x\<lparr>perfc_name := 0\<rparr>)
   }"

definition init_miscdev :: "pcall kenv \<Rightarrow> int pm" where
  "init_miscdev K = do {
     d \<leftarrow> getd pdev;
     n \<leftarrow> kcall K (Kstrdup (dev_id d));
     modd (\<lambda>x. x\<lparr>ctrl_name := n\<rparr>);
     kcall K Misc_register_ctrl
   }"

definition exit_miscdev :: "pcall kenv \<Rightarrow> unit pm" where
  "exit_miscdev K = do {
     kdo K Misc_deregister_ctrl;
     n \<leftarrow> getd ctrl_name;
     kdo K (Kfree n);
     modd (\<lambda>x. x\<lparr>ctrl_name := 0\<rparr>)
   }"

definition tlkm_control_init :: "pcall kenv \<Rightarrow> int pm" where
  "tlkm_control_init K = do {
     p \<leftarrow> kcall K Kzalloc_control;
     if p = 0 then State_Monad.return (- ENOMEM)
     else do {
       ret \<leftarrow> init_miscdev K;
       if ret \<noteq> 0 then do { kdo K (Kfree p); State_Monad.return ret }
       else do { modd (upd_dev (\<lambda>d. d\<lparr>ctrl := p\<rparr>)); State_Monad.return 0 }
     }
   }"

definition tlkm_control_exit :: "pcall kenv \<Rightarrow> unit pm" where
  "tlkm_control_exit K = do {
     p \<leftarrow> getd (\<lambda>x. ctrl (pdev x));
     if p \<noteq> 0 then do { exit_miscdev K; kdo K (Kfree p) } else State_Monad.return ()
   }"

section \<open>Initialisation\<close>

definition err_control :: "pcall kenv \<Rightarrow> int \<Rightarrow> int pm" where
  "err_control K ret = do { tlkm_perfc_miscdev_exit K; State_Monad.return ret }"

definition err_priv :: "pcall kenv \<Rightarrow> int \<Rightarrow> int pm" where
  "err_priv K ret = do { tlkm_control_exit K; err_control K ret }"

definition err_ioremap_status :: "pcall kenv \<Rightarrow> int \<Rightarrow> int pm" where
  "err_ioremap_status K ret = do { kdo K Cls_destroy; err_priv K ret }"

definition err_status :: "pcall kenv \<Rightarrow> int \<Rightarrow> int pm" where
  "err_status K ret = do { tlkm_platform_status_exit K; err_ioremap_status K ret }"

definition err_ioremap :: "pcall kenv \<Rightarrow> int \<Rightarrow> int pm" where
  "err_ioremap K ret = do { modd (upd_dev tlkm_status_exit); err_status K ret }"

definition err_sub :: "pcall kenv \<Rightarrow> int \<Rightarrow> int pm" where
  "err_sub K ret = do { tlkm_platform_mmap_exit K; err_ioremap K ret }"

definition err_interrupts :: "pcall kenv \<Rightarrow> int \<Rightarrow> int pm" where
  "err_interrupts K ret = do {
     c \<leftarrow> getd (\<lambda>x. cls (pdev x));
     (if has_exit_subsystems c then kdo K Cls_exit_subsystems else State_Monad.return ());
     err_sub K ret
   }"

text \<open>The steps of \<^verbatim>\<open>tlkm_device_init\<close>, last first.\<close>

definition init_interrupts_step :: "pcall kenv \<Rightarrow> int pm" where
  "init_interrupts_step K = do {
     c \<leftarrow> getd (\<lambda>x. cls (pdev x));
     if has_init_interrupts c
     then do {
       ret \<leftarrow> kcall K Cls_init_interrupts;
       if ret \<noteq> 0 then err_interrupts K ret else State_Monad.return ret
     }
     else State_Monad.return 0
   }"

definition init_subsystems_step :: "pcall kenv \<Rightarrow> int pm" where
  "init_subsystems_step K = do {
     c \<leftarrow> getd (\<lambda>x. cls (pdev x));
     if has_init_subsystems c
     then do {
       ret \<leftarrow> kcall K Cls_init_subsystems;
       if ret \<noteq> 0 then err_sub K ret else init_interrupts_step K
     }
     else init_interrupts_step K
   }"

definition init_mmap_step :: "pcall kenv \<Rightarrow> int pm" where
  "init_mmap_step K = do {
     modd (upd_dev (\<lambda>d. d\<lparr>arch := INIT_REGSPACE (fst (arch_base (status d))) (snd (arch_base (status d))),
       plat := INIT_REGSPACE (fst (platform_base (status d))) (snd (platform_base (status d)))\<rparr>));
     ret \<leftarrow> tlkm_platform_mmap_init K;
     if ret \<noteq> 0 then err_ioremap K ret else init_subsystems_step K
   }"

text \<open>\<open>iomem\<close> gives the bytes behind the mapped status core.\<close>

definition init_status_step :: "pcall kenv \<Rightarrow> pb_decoder \<Rightarrow> (u64 \<Rightarrow> u8 list) \<Rightarrow> int pm" where
  "init_status_step K pb iomem = do {
     ret \<leftarrow> tlkm_platform_status_init K;
     if ret \<noteq> 0 then err_ioremap_status K ret
     else do {
       d \<leftarrow> getd pdev;
       (case tlkm_status_init pb (iomem (m_status (mmap d))) d of
          None \<Rightarrow> do { modd (\<lambda>x. x\<lparr>fault := True\<rparr>); State_Monad.return 0 }
        | Some (ret, d') \<Rightarrow> do {
            modd (\<lambda>x. x\<lparr>pdev := d'\<rparr>);
            if ret \<noteq> 0 then err_status K ret else init_mmap_step K
          })
     }
   }"

definition tlkm_device_init ::
  "pcall kenv \<Rightarrow> bool \<Rightarrow> pb_decoder \<Rightarrow> (u64 \<Rightarrow> u8 list) \<Rightarrow> int pm" where
  "tlkm_device_init K enable_sim pb iomem = do {
     ret \<leftarrow> tlkm_perfc_miscdev_init K;
     if ret \<noteq> 0 then State_Monad.return ret
     else do {
       ret \<leftarrow> tlkm_control_init K;
       if ret \<noteq> 0 then err_control K ret
       else do {
         ret \<leftarrow> kcall K Cls_create;
         if ret \<noteq> 0 then err_priv K ret
         else do {
           c \<leftarrow> getd (\<lambda>x. cls (pdev x));
           if enable_sim \<and> cls_name c = ''sim'' then State_Monad.return 0
           else init_status_step K pb iomem
         }
       }
     }
   }"

definition tlkm_device_exit :: "pcall kenv \<Rightarrow> unit pm" where
  "tlkm_device_exit K = do {
     c \<leftarrow> getd (\<lambda>x. cls (pdev x));
     (if has_exit_interrupts c then kdo K Cls_exit_interrupts else State_Monad.return ());
     (if has_exit_subsystems c then kdo K Cls_exit_subsystems else State_Monad.return ());
     modd (upd_dev tlkm_status_exit);
     kdo K Cls_destroy;
     tlkm_platform_status_exit K;
     tlkm_platform_mmap_exit K;
     tlkm_control_exit K;
     tlkm_perfc_miscdev_exit K
   }"

section \<open>Access modes\<close>

text \<open>\<^const>\<open>None\<close> is an access behind the array of reference counts.\<close>

definition tlkm_device_acquire ::
  "tlkm_access_t \<Rightarrow> tlkm_device \<Rightarrow> (int \<times> tlkm_device) option" where
  "tlkm_device_acquire a d =
     (let ret1 = (if ref_cnt d ! unat TLKM_ACCESS_EXCLUSIVE \<noteq> 0 \<and> a \<noteq> TLKM_ACCESS_MONITOR
                  then - EBUSY else 0);
          ret2 = (if ref_cnt d ! unat TLKM_ACCESS_SHARED \<noteq> 0 \<and> a = TLKM_ACCESS_EXCLUSIVE
                  then - EBUSY else ret1)
      in if ret2 = 0
         then (if unat a < TLKM_ACCESS_TYPES
               then Some (0, d\<lparr>ref_cnt := (ref_cnt d)[unat a := ref_cnt d ! unat a + 1]\<rparr>)
               else None)
         else Some (ret2, d))"

definition tlkm_device_release :: "tlkm_access_t \<Rightarrow> tlkm_device \<Rightarrow> tlkm_device option" where
  "tlkm_device_release a d =
     (let total_refs = sum_list (map ((!) (ref_cnt d)) [0..<TLKM_ACCESS_TYPES])
      in if total_refs > 0
         then (if unat a < TLKM_ACCESS_TYPES
               then Some (d\<lparr>ref_cnt := (ref_cnt d)[unat a := ref_cnt d ! unat a - 1]\<rparr>)
               else None)
         else Some d)"

section \<open>Resources held by a device\<close>

text \<open>What a device holds after each step of its initialisation.\<close>

definition name_res :: "int \<Rightarrow> presource multiset" where
  "name_res n = (if n = 0 then {#} else {#Buffer n#})"

definition res_perfc :: "pdat \<Rightarrow> presource multiset" where
  "res_perfc x = name_res (perfc_name x) + {#Perfc_file#}"

definition res_ctrl :: "pdat \<Rightarrow> presource multiset" where
  "res_ctrl x = name_res (ctrl_name x) + {#Ctrl_file, Buffer (ctrl (pdev x))#}"

definition res_files :: "pdat \<Rightarrow> presource multiset" where
  "res_files x = res_ctrl x + res_perfc x"

definition res_status :: "pdat \<Rightarrow> presource multiset" where
  "res_status x = {#Mapping (m_status (mmap (pdev x))), Cls_private#} + res_files x"

definition res_mmap :: "pdat \<Rightarrow> presource multiset" where
  "res_mmap x = {#Mapping (m_plat (mmap (pdev x))), Mapping (m_arch (mmap (pdev x)))#} + res_status x"

definition res_all :: "pdat \<Rightarrow> presource multiset" where
  "res_all x = (if has_init_interrupts (cls (pdev x)) then {#Interrupts#} else {#}) +
     (if has_init_subsystems (cls (pdev x)) then {#Subsystems#} else {#}) + res_mmap x"

lemmas res_defs = name_res_def res_perfc_def res_ctrl_def res_files_def res_status_def
  res_mmap_def res_all_def

text \<open>The state after a failed initialisation that cleaned up completely.\<close>

definition clean :: "int \<Rightarrow> presource multiset \<Rightarrow> int \<Rightarrow> (pcall, pdat) kst \<Rightarrow> bool" where
  "clean r rs q s \<longleftrightarrow> q = r \<and> plive s = Some rs \<and> perfc_name (dat s) = 0 \<and> ctrl_name (dat s) = 0"

lemmas dev_run = tlkm_perfc_miscdev_exit_def tlkm_control_exit_def exit_miscdev_def
  tlkm_platform_status_exit_def tlkm_platform_mmap_exit_def platform_run tlkm_status_exit_def

lemma err_control_clean:
  "triple (\<lambda>s. plive s = Some (res_perfc (dat s) + rs) \<and> ctrl_name (dat s) = 0)
     (err_control K r) (clean r rs)"
  by (rule tripleI)
    (auto simp: err_control_def dev_run res_defs clean_def plive_def live_append)

lemma control_exit_undo:
  "triple (\<lambda>s. plive s = Some (res_files (dat s) + rs) \<and> ctrl (pdev (dat s)) \<noteq> 0)
     (tlkm_control_exit K)
     (\<lambda>_ s. plive s = Some (res_perfc (dat s) + rs) \<and> ctrl_name (dat s) = 0)"
  by (rule tripleI)
    (auto simp: dev_run res_defs plive_def live_append)

lemma err_priv_clean:
  "triple (\<lambda>s. plive s = Some (res_files (dat s) + rs) \<and> ctrl (pdev (dat s)) \<noteq> 0)
     (err_priv K r) (clean r rs)"
  unfolding err_priv_def by (rule triple_bind [OF control_exit_undo err_control_clean])

lemma err_ioremap_status_clean:
  "triple (\<lambda>s. plive s = Some (add_mset Cls_private (res_files (dat s) + rs)) \<and> ctrl (pdev (dat s)) \<noteq> 0)
     (err_ioremap_status K r) (clean r rs)"
  unfolding err_ioremap_status_def
  by (rule triple_bind [OF triple_kdo err_priv_clean]) (auto simp: plive_def live_append)

lemma err_status_clean:
  "triple (\<lambda>s. plive s = Some (res_status (dat s) + rs) \<and> ctrl (pdev (dat s)) \<noteq> 0
        \<and> m_status (mmap (pdev (dat s))) \<noteq> 0)
     (err_status K r) (clean r rs)"
  unfolding err_status_def
  by (rule triple_bind [OF tripleI err_ioremap_status_clean])
    (auto simp: dev_run res_status_def res_files_def res_ctrl_def res_perfc_def plive_def live_append)

lemma err_ioremap_clean:
  "triple (\<lambda>s. plive s = Some (res_status (dat s) + rs) \<and> ctrl (pdev (dat s)) \<noteq> 0
        \<and> m_status (mmap (pdev (dat s))) \<noteq> 0)
     (err_ioremap K r) (clean r rs)"
  unfolding err_ioremap_def
  by (rule triple_bind [OF triple_modd err_status_clean])
    (auto simp: tlkm_status_exit_def res_defs plive_def)

text \<open>Everything that is in use while the mappings are.\<close>

definition mapped :: "pdat \<Rightarrow> bool" where
  "mapped x \<longleftrightarrow> ctrl (pdev x) \<noteq> 0 \<and> m_status (mmap (pdev x)) \<noteq> 0 \<and> m_arch (mmap (pdev x)) \<noteq> 0
     \<and> m_plat (mmap (pdev x)) \<noteq> 0"

lemma err_sub_clean:
  "triple (\<lambda>s. plive s = Some (res_mmap (dat s) + rs) \<and> mapped (dat s)) (err_sub K r) (clean r rs)"
  unfolding err_sub_def
  by (rule triple_bind [OF tripleI err_ioremap_clean])
    (auto simp: dev_run res_mmap_def res_status_def res_files_def res_ctrl_def res_perfc_def
      plive_def live_append mapped_def)

lemma err_interrupts_clean:
  "triple (\<lambda>s. plive s = Some ((if has_init_subsystems (cls (pdev (dat s))) then {#Subsystems#} else {#})
          + res_mmap (dat s) + rs) \<and> mapped (dat s)
        \<and> has_init_subsystems (cls (pdev (dat s))) = has_exit_subsystems (cls (pdev (dat s))))
     (err_interrupts K r) (clean r rs)"
proof (rule tripleI)
  fix s s' :: "(pcall, pdat) kst" and q
  let ?c = "cls (pdev (dat s))"
  assume pre: "plive s = Some ((if has_init_subsystems ?c then {#Subsystems#} else {#})
          + res_mmap (dat s) + rs) \<and> mapped (dat s) \<and> has_init_subsystems ?c = has_exit_subsystems ?c"
    and run: "run_state (err_interrupts K r) s = (q, s')"
  let ?s = "if has_exit_subsystems ?c
    then s\<lparr>trace := trace s @ [(Cls_exit_subsystems, K (trace s) Cls_exit_subsystems)]\<rparr> else s"
  have "run_state (err_sub K r) ?s = (q, s')"
    using run by (simp add: err_interrupts_def split: if_splits)
  moreover have "plive ?s = Some (res_mmap (dat ?s) + rs)" "mapped (dat ?s)"
    using pre by (auto simp: plive_def live_append)
  ultimately show "clean r rs q s'" using tripleD [OF err_sub_clean] by blast
qed

section \<open>Initialisation holds everything or nothing\<close>

text \<open>A class whose optional callbacks come in pairs.\<close>

definition cls_paired :: "tlkm_class \<Rightarrow> bool" where
  "cls_paired c \<longleftrightarrow> has_init_subsystems c = has_exit_subsystems c
     \<and> has_init_interrupts c = has_exit_interrupts c"

text \<open>Outcome of the initialisation, with what else is held in \<open>rs\<close>.\<close>

definition init_outcome :: "presource multiset \<Rightarrow> int \<Rightarrow> (pcall, pdat) kst \<Rightarrow> bool" where
  "init_outcome rs r s \<longleftrightarrow>
     (if r = 0 then plive s = Some (res_all (dat s) + rs) \<and> mapped (dat s)
          \<and> cls_paired (cls (pdev (dat s)))
      else clean r rs r s)"

lemma clean_outcome: "r \<noteq> 0 \<Longrightarrow> clean r rs q s \<Longrightarrow> init_outcome rs q s"
  by (auto simp: clean_def init_outcome_def)

lemma triple_clean_outcome: "r \<noteq> 0 \<Longrightarrow> triple P m (clean r rs) \<Longrightarrow> triple P m (init_outcome rs)"
  by (rule triple_conseq [of P m "clean r rs"]) (auto intro: clean_outcome)

lemma init_interrupts_outcome:
  "triple (\<lambda>s. plive s = Some ((if has_init_subsystems (cls (pdev (dat s))) then {#Subsystems#} else {#})
          + res_mmap (dat s) + rs) \<and> mapped (dat s) \<and> cls_paired (cls (pdev (dat s))))
     (init_interrupts_step K) (init_outcome rs)"
proof (rule tripleI)
  fix s s' :: "(pcall, pdat) kst" and q
  let ?c = "cls (pdev (dat s))"
  let ?r = "K (trace s) Cls_init_interrupts"
  let ?s = "s\<lparr>trace := trace s @ [(Cls_init_interrupts, ?r)]\<rparr>"
  assume pre: "plive s = Some ((if has_init_subsystems ?c then {#Subsystems#} else {#})
          + res_mmap (dat s) + rs) \<and> mapped (dat s) \<and> cls_paired ?c"
    and run: "run_state (init_interrupts_step K) s = (q, s')"
  show "init_outcome rs q s'"
  proof (cases "has_init_interrupts ?c \<and> ?r \<noteq> 0")
    case True
    then have "run_state (err_interrupts K ?r) ?s = (q, s')"
      using run by (simp add: init_interrupts_step_def)
    moreover have "plive ?s = plive s" using True pre by (auto simp: plive_def live_append)
    ultimately have "clean ?r rs q s'"
      using tripleD [OF err_interrupts_clean, of ?s rs K ?r q s'] pre by (simp add: cls_paired_def)
    then show ?thesis using True by (auto intro: clean_outcome)
  next
    case False
    then have "q = 0" and s': "s' = (if has_init_interrupts ?c then ?s else s)"
      using run by (auto simp: init_interrupts_step_def split: if_splits)
    moreover have "plive s' = Some (res_all (dat s') + rs)"
      using pre False unfolding s' by (simp add: res_all_def plive_def live_append)
    ultimately show ?thesis using pre by (simp add: init_outcome_def)
  qed
qed

lemma init_subsystems_outcome:
  "triple (\<lambda>s. plive s = Some (res_mmap (dat s) + rs) \<and> mapped (dat s) \<and> cls_paired (cls (pdev (dat s))))
     (init_subsystems_step K) (init_outcome rs)"
proof (rule tripleI)
  fix s s' :: "(pcall, pdat) kst" and q
  let ?c = "cls (pdev (dat s))"
  let ?r = "K (trace s) Cls_init_subsystems"
  let ?s = "s\<lparr>trace := trace s @ [(Cls_init_subsystems, ?r)]\<rparr>"
  assume pre: "plive s = Some (res_mmap (dat s) + rs) \<and> mapped (dat s) \<and> cls_paired ?c"
    and run: "run_state (init_subsystems_step K) s = (q, s')"
  note step = tripleD [OF init_interrupts_outcome [of rs K]]
  show "init_outcome rs q s'"
  proof (cases "has_init_subsystems ?c")
    case no: False
    then have "run_state (init_interrupts_step K) s = (q, s')"
      using run by (simp add: init_subsystems_step_def)
    then show ?thesis using step [of s q s'] pre no by simp
  next
    case yes: True
    show ?thesis
    proof (cases "?r = 0")
      case True
      then have "run_state (init_interrupts_step K) ?s = (q, s')"
        using run yes by (simp add: init_subsystems_step_def)
      then show ?thesis
        using step [of ?s q s'] pre yes True by (simp add: plive_def live_append)
    next
      case False
      then have "run_state (err_sub K ?r) ?s = (q, s')"
        using run yes by (simp add: init_subsystems_step_def)
      then have "clean ?r rs q s'"
        using tripleD [OF err_sub_clean, of ?s rs K ?r q s'] pre False
        by (simp add: plive_def live_append)
      then show ?thesis using False by (auto intro: clean_outcome)
    qed
  qed
qed

lemma init_mmap_outcome:
  assumes "ptr_env K"
  shows "triple (\<lambda>s. plive s = Some (res_status (dat s) + rs) \<and> ctrl (pdev (dat s)) \<noteq> 0
        \<and> m_status (mmap (pdev (dat s))) \<noteq> 0 \<and> cls_paired (cls (pdev (dat s))))
     (init_mmap_step K) (init_outcome rs)"
proof -
  let ?P = "\<lambda>s. plive s = Some (res_status (dat s) + rs) \<and> ctrl (pdev (dat s)) \<noteq> 0
        \<and> m_status (mmap (pdev (dat s))) \<noteq> 0 \<and> cls_paired (cls (pdev (dat s)))"
  let ?R = "\<lambda>r s. if r = 0 then plive s = Some (res_mmap (dat s) + rs) \<and> mapped (dat s)
          \<and> cls_paired (cls (pdev (dat s)))
        else ?P s"
  have mod: "triple ?P (modd (upd_dev (\<lambda>d. d\<lparr>arch := f d, plat := g d\<rparr>))) (\<lambda>_. ?P)" for f g
    by (rule triple_modd) (simp add: plive_def res_status_def res_files_def res_ctrl_def res_perfc_def)
  have map: "triple ?P (tlkm_platform_mmap_init K) ?R"
  proof (rule tripleI)
    fix s s' :: "(pcall, pdat) kst" and r
    assume pre: "?P s" and run: "run_state (tlkm_platform_mmap_init K) s = (r, s')"
    note fr = mmap_init_frame [OF run]
    have fields: "ctrl (pdev (dat s')) = ctrl (pdev (dat s))" "cls (pdev (dat s')) = cls (pdev (dat s))"
      using arg_cong [OF fr(2), of ctrl] arg_cong [OF fr(2), of cls] by simp_all
    then have same: "res_status (dat s') = res_status (dat s)"
      using fr by (simp add: res_status_def res_files_def res_ctrl_def res_perfc_def)
    have "plive s = Some (res_status (dat s) + rs)" using pre by simp
    with assms run show "?R r s'"
      by (cases rule: mmap_init_cases)
        (use pre fr fields same in \<open>simp_all add: res_mmap_def mapped_def ENOSPC_def\<close>)
  qed
  have bad: "triple (?R r) (err_ioremap K r) (init_outcome rs)" if "r \<noteq> 0" for r
    by (rule triple_clean_outcome [OF that triple_pre [OF err_ioremap_clean]]) (use that in auto)
  have good: "triple (?R r) (init_subsystems_step K) (init_outcome rs)" if "\<not> r \<noteq> 0" for r
    by (rule triple_pre [OF init_subsystems_outcome]) (use that in auto)
  show ?thesis unfolding init_mmap_step_def
    by (rule triple_bind [OF mod], rule triple_bind [OF map], rule triple_if, erule bad, erule good)
qed

lemma init_status_outcome:
  assumes "ptr_env K" and "\<forall>buf. length (fst (pb buf)) \<le> 16"
  shows "triple (\<lambda>s. plive s = Some (add_mset Cls_private (res_files (dat s) + rs))
        \<and> ctrl (pdev (dat s)) \<noteq> 0 \<and> cls_paired (cls (pdev (dat s)))
        \<and> length (components (pdev (dat s))) = TLKM_COMPONENT_MAX)
     (init_status_step K pb iomem) (init_outcome rs)"
proof (rule tripleI)
  fix s s' :: "(pcall, pdat) kst" and q
  let ?d = "pdev (dat s)"
  let ?c = "Ioremap (base_offset ?d + base (platform_status (cls ?d))) (rsize (platform_status (cls ?d)))"
  let ?p = "K (trace s) ?c"
  let ?s1 = "s\<lparr>trace := trace s @ [(?c, ?p)],
    dat := upd_dev (\<lambda>d. d\<lparr>mmap := (mmap d)\<lparr>m_status := word_of_int ?p\<rparr>\<rparr>) (dat s)\<rparr>"
  let ?d1 = "pdev (dat ?s1)"
  assume pre: "plive s = Some (add_mset Cls_private (res_files (dat s) + rs)) \<and> ctrl ?d \<noteq> 0
      \<and> cls_paired (cls ?d) \<and> length (components ?d) = TLKM_COMPONENT_MAX"
    and run: "run_state (init_status_step K pb iomem) s = (q, s')"
  show "init_outcome rs q s'"
  proof (cases "?p = 0")
    case True
    then have "run_state (err_ioremap_status K (- ENOSPC)) ?s1 = (q, s')"
      using run by (simp add: init_status_step_def tlkm_platform_status_init_def set_mmap_def ENOSPC_def)
    moreover have "plive ?s1 = plive s" using True pre by (auto simp: plive_def live_append)
    ultimately have "clean (- ENOSPC) rs q s'"
      using tripleD [OF err_ioremap_status_clean, of ?s1 rs K "- ENOSPC" q s'] pre
      by (simp add: res_files_def res_ctrl_def res_perfc_def)
    then show ?thesis by (rule clean_outcome [rotated]) (simp add: ENOSPC_def)
  next
    case False
    have ms: "m_status (mmap ?d1) \<noteq> 0" using False assms(1) by (simp add: ptr_env_word)
    have l1: "plive ?s1 = Some (res_status (dat ?s1) + rs)"
      using False pre by (simp add: plive_def live_append res_status_def res_files_def res_ctrl_def
          res_perfc_def)
    obtain r sta comps where st: "tlkm_status_init pb (iomem (m_status (mmap ?d1))) ?d1 =
        Some (r, ?d1\<lparr>components := comps, status := sta\<rparr>)"
      by (rule tlkm_status_init_frame [of pb _ ?d1]) (use assms(2) pre in auto)
    let ?s2 = "?s1\<lparr>dat := (dat ?s1)\<lparr>pdev := ?d1\<lparr>components := comps, status := sta\<rparr>\<rparr>\<rparr>"
    have l2: "plive ?s2 = Some (res_status (dat ?s2) + rs)" "ctrl (pdev (dat ?s2)) \<noteq> 0"
      "m_status (mmap (pdev (dat ?s2))) \<noteq> 0" "cls_paired (cls (pdev (dat ?s2)))"
      using l1 pre ms by (simp_all add: plive_def res_status_def res_files_def res_ctrl_def res_perfc_def)
    have run2: "run_state (if r \<noteq> 0 then err_status K r else init_mmap_step K) ?s2 = (q, s')"
      using run False st by (simp add: init_status_step_def tlkm_platform_status_init_def set_mmap_def
          split: if_splits)
    show ?thesis
    proof (cases "r = 0")
      case True
      then show ?thesis
        using tripleD [OF init_mmap_outcome [OF assms(1)], of ?s2 rs q s'] run2 l2 by simp
    next
      case r: False
      then have "clean r rs q s'"
        using tripleD [OF err_status_clean, of ?s2 rs K r q s'] run2 l2 by simp
      then show ?thesis using r by (auto intro: clean_outcome)
    qed
  qed
qed

text \<open>Outcome of \<^verbatim>\<open>tlkm_device_init\<close>: as above, but a file name whose registration failed stays
  allocated.\<close>

lemma control_init_outcome:
  "triple (\<lambda>s. plive s = Some (res_perfc (dat s) + rs) \<and> ctrl_name (dat s) = 0
        \<and> cls (pdev (dat s)) = c \<and> components (pdev (dat s)) = cs)
     (tlkm_control_init K)
     (\<lambda>r s. if r = 0 then plive s = Some (res_files (dat s) + rs) \<and> ctrl (pdev (dat s)) \<noteq> 0
            \<and> cls (pdev (dat s)) = c \<and> components (pdev (dat s)) = cs
          else plive s = Some (res_perfc (dat s) + (name_res (ctrl_name (dat s)) + rs))
            \<and> (ctrl_name (dat s) \<noteq> 0 \<longrightarrow> (Misc_register_ctrl, r) \<in> set (trace s)))"
  by (rule tripleI)
    (auto simp: tlkm_control_init_def init_miscdev_def res_files_def res_ctrl_def res_perfc_def
        name_res_def plive_def live_append ENOMEM_def Let_def split: if_splits)

definition device_outcome :: "presource multiset \<Rightarrow> int \<Rightarrow> (pcall, pdat) kst \<Rightarrow> bool" where
  "device_outcome rs r s \<longleftrightarrow>
     (if r = 0 then plive s = Some (res_all (dat s) + rs) \<and> mapped (dat s)
          \<and> cls_paired (cls (pdev (dat s)))
      else plive s = Some (name_res (perfc_name (dat s)) + name_res (ctrl_name (dat s)) + rs)
        \<and> (perfc_name (dat s) \<noteq> 0 \<longrightarrow> (Misc_register_perfc, r) \<in> set (trace s))
        \<and> (ctrl_name (dat s) \<noteq> 0 \<longrightarrow> (Misc_register_ctrl, r) \<in> set (trace s)))"

lemma init_outcome_device: "init_outcome rs r s \<Longrightarrow> device_outcome rs r s"
  by (auto simp: init_outcome_def device_outcome_def clean_def name_res_def)

lemma err_control_leak:
  "r \<noteq> 0 \<Longrightarrow>
   triple (\<lambda>s. plive s = Some (res_perfc (dat s) + (name_res (ctrl_name (dat s)) + rs))
        \<and> (ctrl_name (dat s) \<noteq> 0 \<longrightarrow> (Misc_register_ctrl, r) \<in> set (trace s)))
     (err_control K r) (device_outcome rs)"
  by (rule tripleI)
    (auto simp: err_control_def dev_run res_perfc_def name_res_def device_outcome_def plive_def
      live_append split: if_splits)

lemma device_init_create:
  assumes "ptr_env K" and "\<forall>buf. length (fst (pb buf)) \<le> 16" and "cls_paired c"
    and "\<not> (enable_sim \<and> cls_name c = ''sim'')" and "length cs = TLKM_COMPONENT_MAX"
  shows "triple (\<lambda>s. plive s = Some (res_files (dat s) + rs) \<and> ctrl (pdev (dat s)) \<noteq> 0
      \<and> cls (pdev (dat s)) = c \<and> components (pdev (dat s)) = cs)
    (do { ret \<leftarrow> kcall K Cls_create;
          if ret \<noteq> 0 then err_priv K ret
          else do {
            c \<leftarrow> getd (\<lambda>x. cls (pdev x));
            if enable_sim \<and> cls_name c = ''sim'' then State_Monad.return 0
            else init_status_step K pb iomem } })
    (init_outcome rs)"
proof -
  let ?P = "\<lambda>s. ctrl (pdev (dat s)) \<noteq> 0 \<and> cls (pdev (dat s)) = c \<and> components (pdev (dat s)) = cs"
  let ?R = "\<lambda>r s. plive s = Some (if r = 0 then add_mset Cls_private (res_files (dat s) + rs)
      else res_files (dat s) + rs) \<and> ?P s"
  have create: "triple (\<lambda>s. plive s = Some (res_files (dat s) + rs) \<and> ?P s) (kcall K Cls_create) ?R"
    by (rule triple_kcall) (auto simp: plive_def live_append)
  have bad: "triple (?R r) (err_priv K r) (init_outcome rs)" if "r \<noteq> 0" for r
    by (rule triple_clean_outcome [OF that triple_pre [OF err_priv_clean]]) (use that in auto)
  have cget: "triple (?R 0) (getd (\<lambda>x. cls (pdev x))) (\<lambda>c' s. c' = c \<and> ?R 0 s)"
    by (rule triple_getd) simp
  have st: "triple (?R 0) (init_status_step K pb iomem) (init_outcome rs)"
    by (rule triple_pre [OF init_status_outcome [OF assms(1,2)]]) (use assms in auto)
  have good: "triple (?R r) (do {
            c \<leftarrow> getd (\<lambda>x. cls (pdev x));
            if enable_sim \<and> cls_name c = ''sim'' then State_Monad.return 0
            else init_status_step K pb iomem }) (init_outcome rs)" if "\<not> r \<noteq> 0" for r
  proof -
    have r: "r = 0" using that by simp
    show ?thesis unfolding r
    proof (rule triple_bind [OF cget], rule triple_assume)
      fix c' assume "c' = c"
      then show "triple (?R 0) (if enable_sim \<and> cls_name c' = ''sim'' then State_Monad.return 0
          else init_status_step K pb iomem) (init_outcome rs)"
        using st assms(4) by auto
    qed
  qed
  show ?thesis
    by (rule triple_pre [OF triple_bind [OF create triple_if [OF bad good]]]) simp_all
qed

lemma device_init_outcome:
  assumes "ptr_env K" and "\<forall>buf. length (fst (pb buf)) \<le> 16" and "cls_paired c"
    and "\<not> (enable_sim \<and> cls_name c = ''sim'')" and "length cs = TLKM_COMPONENT_MAX"
  shows "triple (\<lambda>s. plive s = Some rs \<and> perfc_name (dat s) = 0 \<and> ctrl_name (dat s) = 0
      \<and> cls (pdev (dat s)) = c \<and> components (pdev (dat s)) = cs)
    (tlkm_device_init K enable_sim pb iomem) (device_outcome rs)"
proof -
  let ?P = "\<lambda>s. cls (pdev (dat s)) = c \<and> components (pdev (dat s)) = cs"
  let ?R = "\<lambda>r s. if r = 0 then plive s = Some (res_perfc (dat s) + rs) \<and> ctrl_name (dat s) = 0 \<and> ?P s
      else device_outcome rs r s"
  have perfc: "triple (\<lambda>s. plive s = Some rs \<and> perfc_name (dat s) = 0 \<and> ctrl_name (dat s) = 0 \<and> ?P s)
      (tlkm_perfc_miscdev_init K) ?R"
    by (rule tripleI)
      (auto simp: tlkm_perfc_miscdev_init_def res_perfc_def name_res_def device_outcome_def plive_def
        live_append Let_def split: if_splits)
  have bad: "triple (?R r) (State_Monad.return r) (device_outcome rs)" if "r \<noteq> 0" for r
    by (rule triple_return) (use that in simp)
  have ctl: "triple (?R r) (do {
       ret \<leftarrow> tlkm_control_init K;
       if ret \<noteq> 0 then err_control K ret
       else do {
         ret \<leftarrow> kcall K Cls_create;
         if ret \<noteq> 0 then err_priv K ret
         else do {
           c \<leftarrow> getd (\<lambda>x. cls (pdev x));
           if enable_sim \<and> cls_name c = ''sim'' then State_Monad.return 0
           else init_status_step K pb iomem }}}) (device_outcome rs)" if "\<not> r \<noteq> 0" for r
  proof (rule triple_pre [OF triple_bind [OF control_init_outcome [of rs c cs K] triple_if]],
      goal_cases)
    case (1 q)
    then show ?case by (intro triple_pre [OF err_control_leak]) auto
  next
    case (2 q)
    then show ?case
      by (intro triple_conseq [OF device_init_create [OF assms]] init_outcome_device) auto
  qed (use that in simp)
  show ?thesis unfolding tlkm_device_init_def
    by (rule triple_bind [OF perfc triple_if [OF bad ctl]])
qed

lemma device_exit_undo:
  "triple (\<lambda>s. plive s = Some (res_all (dat s) + rs) \<and> mapped (dat s) \<and> cls_paired (cls (pdev (dat s))))
     (tlkm_device_exit K) (\<lambda>_ s. plive s = Some rs)"
proof -
  let ?I = "\<lambda>s. mapped (dat s)"
  let ?c = "\<lambda>s. cls (pdev (dat s))"
  have irq: "triple (\<lambda>s. plive s = Some (res_all (dat s) + rs) \<and> ?I s \<and> cls_paired (?c s) \<and> ?c s = c)
      (if has_exit_interrupts c then kdo K Cls_exit_interrupts else State_Monad.return ())
      (\<lambda>_ s. plive s = Some ((if has_init_subsystems (?c s) then {#Subsystems#} else {#})
            + res_mmap (dat s) + rs) \<and> ?I s \<and> cls_paired (?c s) \<and> ?c s = c)" for c
    by (rule tripleI) (auto simp: res_all_def cls_paired_def plive_def live_append split: if_splits)
  have sub: "triple (\<lambda>s. plive s = Some ((if has_init_subsystems (?c s) then {#Subsystems#} else {#})
            + res_mmap (dat s) + rs) \<and> ?I s \<and> cls_paired (?c s) \<and> ?c s = c)
      (if has_exit_subsystems c then kdo K Cls_exit_subsystems else State_Monad.return ())
      (\<lambda>_ s. plive s = Some (res_mmap (dat s) + rs) \<and> ?I s)" for c
    by (rule tripleI) (auto simp: cls_paired_def plive_def live_append split: if_splits)
  have sta: "triple (\<lambda>s. plive s = Some (res_mmap (dat s) + rs) \<and> ?I s)
      (modd (upd_dev tlkm_status_exit)) (\<lambda>_ s. plive s = Some (res_mmap (dat s) + rs) \<and> ?I s)"
    by (rule triple_modd)
      (simp add: tlkm_status_exit_def plive_def res_mmap_def res_status_def res_files_def res_ctrl_def
        res_perfc_def mapped_def)
  have rest: "triple (\<lambda>s. plive s = Some (res_mmap (dat s) + rs) \<and> ?I s)
      (do { kdo K Cls_destroy; tlkm_platform_status_exit K; tlkm_platform_mmap_exit K;
            tlkm_control_exit K; tlkm_perfc_miscdev_exit K })
      (\<lambda>_ s. plive s = Some rs)"
    by (rule tripleI)
      (auto simp: dev_run res_mmap_def res_status_def res_files_def res_ctrl_def res_perfc_def
        name_res_def plive_def live_append mapped_def)
  show ?thesis unfolding tlkm_device_exit_def
    by (rule triple_bind [OF triple_getd triple_bind [OF irq triple_bind [OF sub triple_bind [OF sta rest]]]])
      simp
qed

section \<open>Properties\<close>

text \<open>C1: \<^verbatim>\<open>tlkm_device_init\<close> against every behaviour of the kernel and of the device class. If it
  succeeds, \<^verbatim>\<open>tlkm_device_exit\<close> gives back everything it obtained, nothing twice. If any
  step fails, the error path has released everything already obtained (files, control
  structure, mappings, private data, subsystems); only the name string of a device file whose
  registration failed stays allocated.\<close>

theorem tlkm_device_init_exit_no_leak:
  assumes "ptr_env K" and "\<forall>buf. length (fst (pb buf)) \<le> 16" and "cls_paired (cls (pdev (dat s)))"
    and "\<not> (enable_sim \<and> cls_name (cls (pdev (dat s))) = ''sim'')"
    and "length (components (pdev (dat s))) = TLKM_COMPONENT_MAX"
    and "plive s = Some rs" and "perfc_name (dat s) = 0" and "ctrl_name (dat s) = 0"
    and "run_state (tlkm_device_init K enable_sim pb iomem) s = (r, s')"
  shows "(r = 0 \<longrightarrow> plive (snd (run_state (tlkm_device_exit K) s')) = Some rs)
    \<and> (r \<noteq> 0 \<longrightarrow> plive s' = Some (name_res (perfc_name (dat s')) + name_res (ctrl_name (dat s')) + rs)
        \<and> (perfc_name (dat s') \<noteq> 0 \<longrightarrow> (Misc_register_perfc, r) \<in> set (trace s'))
        \<and> (ctrl_name (dat s') \<noteq> 0 \<longrightarrow> (Misc_register_ctrl, r) \<in> set (trace s')))"
proof -
  have out: "device_outcome rs r s'"
    by (rule tripleD [OF device_init_outcome [OF assms(1-5)] _ assms(9)]) (use assms(6-8) in simp)
  obtain t where ex: "run_state (tlkm_device_exit K) s' = ((), t)"
    by (cases "run_state (tlkm_device_exit K) s'") auto
  have "plive t = Some rs" if "r = 0"
    using tripleD [OF device_exit_undo, of s' rs K "()" t] out that ex by (simp add: device_outcome_def)
  with out ex show ?thesis by (auto simp: device_outcome_def)
qed

definition demo_dev_K :: "pcall kenv" where
  "demo_dev_K tr c = (case c of Ioremap a n \<Rightarrow> 4096 | Kstrdup i \<Rightarrow> 64 | Kzalloc_control \<Rightarrow> 128
     | Cls_create \<Rightarrow> - 19 | _ \<Rightarrow> 0)"

theorem tlkm_device_init_exit_no_leak_witness:
  "\<exists>r s'. run_state (tlkm_device_init demo_dev_K False (\<lambda>_. ([], Some status_zero)) (\<lambda>_. []))
      \<lparr>trace = [], dat = demo_pdat demo_device\<rparr> = (r, s') \<and> r = - 19 \<and> plive s' = Some {#}"
proof -
  let ?s = "\<lparr>trace = [], dat = demo_pdat demo_device\<rparr> :: (pcall, pdat) kst"
  obtain r s' where run: "run_state (tlkm_device_init demo_dev_K False (\<lambda>_. ([], Some status_zero))
      (\<lambda>_. [])) ?s = (r, s')" by (metis surj_pair)
  have env: "ptr_env demo_dev_K" by (simp add: ptr_env_def demo_dev_K_def)
  have r: "r = - 19" "perfc_name (dat s') = 0" "ctrl_name (dat s') = 0"
    using run by (auto simp: tlkm_device_init_def tlkm_perfc_miscdev_init_def demo_dev_K_def
        tlkm_control_init_def init_miscdev_def err_priv_def err_control_def dev_run demo_pdat_def)
  then show ?thesis
    using tlkm_device_init_exit_no_leak [OF env _ _ _ _ _ _ _ run, of "{#}"] run
    by (simp add: demo_pdat_def demo_device_def cls_paired_def TLKM_COMPONENT_MAX_def plive_def
        name_res_def)
qed

section \<open>The contract of the reference counts\<close>

text \<open>
  What the users of a device rely on: a granted request counts one more reference of its
  mode, a refused one changes nothing, giving back a counted reference succeeds and counts one
  less. \<open>cap\<close> bounds the number of references so that the machine counters are exact.
\<close>

locale ref_counted =
  fixes acquire :: "'a \<Rightarrow> 'd \<Rightarrow> (int \<times> 'd) option" and release :: "'a \<Rightarrow> 'd \<Rightarrow> 'd option"
    and cnt :: "'d \<Rightarrow> 'a \<Rightarrow> nat" and modes :: "'a set" and cap :: nat and invar :: "'d \<Rightarrow> bool"
  assumes acquire_granted: "invar d \<Longrightarrow> sum (cnt d) modes < cap \<Longrightarrow> acquire a d = Some (0, d') \<Longrightarrow>
        a \<in> modes \<and> invar d' \<and> cnt d' = (cnt d)(a := cnt d a + 1)"
    and acquire_refused: "acquire a d = Some (r, d') \<Longrightarrow> r \<noteq> 0 \<Longrightarrow> d' = d"
    and release_held: "invar d \<Longrightarrow> sum (cnt d) modes \<le> cap \<Longrightarrow> 0 < cnt d a \<Longrightarrow>
        \<exists>d'. release a d = Some d' \<and> invar d' \<and> cnt d' = (cnt d)(a := cnt d a - 1)"
    and finite_modes: "finite modes"
    and cnt_modes: "a \<notin> modes \<Longrightarrow> cnt d a = 0"
begin

lemma acquire_release:
  assumes "invar d" and "sum (cnt d) modes < cap" and "acquire a d = Some (0, d')"
  shows "\<exists>d''. release a d' = Some d'' \<and> invar d'' \<and> cnt d'' = cnt d"
proof -
  have g: "a \<in> modes" "invar d'" "cnt d' = (cnt d)(a := cnt d a + 1)"
    using acquire_granted [OF assms] by simp_all
  have "sum (cnt d') modes = sum (cnt d) modes + 1"
    using g(1,3) finite_modes by (auto simp: sum.remove [of modes a] intro!: sum.cong)
  with release_held [of d' a] g assms(2) show ?thesis by auto
qed

end

definition dev_modes :: "tlkm_access_t set" where
  "dev_modes = {TLKM_ACCESS_EXCLUSIVE, TLKM_ACCESS_MONITOR, TLKM_ACCESS_SHARED}"

definition dev_cnt :: "tlkm_device \<Rightarrow> tlkm_access_t \<Rightarrow> nat" where
  "dev_cnt d a = (if a \<in> dev_modes then unat (ref_cnt d ! unat a) else 0)"

text \<open>At most one exclusive user, and then no shared one.\<close>

definition dev_access_inv :: "tlkm_device \<Rightarrow> bool" where
  "dev_access_inv d \<longleftrightarrow> length (ref_cnt d) = 3 \<and> dev_cnt d TLKM_ACCESS_EXCLUSIVE \<le> 1
     \<and> (dev_cnt d TLKM_ACCESS_EXCLUSIVE = 1 \<longrightarrow> dev_cnt d TLKM_ACCESS_SHARED = 0)"

lemmas access_const = TLKM_ACCESS_EXCLUSIVE_def TLKM_ACCESS_MONITOR_def TLKM_ACCESS_SHARED_def
  TLKM_ACCESS_TYPES_def

lemma dev_modes_iff: "a \<in> dev_modes \<longleftrightarrow> unat a < 3"
proof -
  have "unat a < 3 \<longleftrightarrow> unat a = 0 \<or> unat a = 1 \<or> unat a = 2" by auto
  moreover have "unat a = 0 \<longleftrightarrow> a = 0" "unat a = 1 \<longleftrightarrow> a = 1" "unat a = 2 \<longleftrightarrow> a = 2"
    by (simp_all add: word_unat_eq_iff)
  ultimately show ?thesis by (simp add: dev_modes_def access_const)
qed

lemma sum_dev_modes:
  "sum (dev_cnt d) dev_modes = unat (ref_cnt d ! 0) + unat (ref_cnt d ! 1) + unat (ref_cnt d ! 2)"
  by (simp add: dev_modes_def dev_cnt_def access_const)

lemma dev_cnt_update:
  assumes "length (ref_cnt d) = 3" and "unat a < 3" and "unat v = n"
  shows "dev_cnt (d\<lparr>ref_cnt := (ref_cnt d)[unat a := v]\<rparr>) = (dev_cnt d)(a := n)"
  using assms by (auto simp: dev_cnt_def fun_eq_iff dev_modes_iff nth_list_update word_unat_eq_iff)

lemma acquire_cases [consumes 1, case_names refused granted]:
  assumes "tlkm_device_acquire a d = Some (r, d')"
  obtains (refused) "r \<noteq> 0" "d' = d"
  | (granted) "r = 0" "unat a < 3" "a \<noteq> TLKM_ACCESS_MONITOR \<longrightarrow> ref_cnt d ! 0 = 0"
      "a = TLKM_ACCESS_EXCLUSIVE \<longrightarrow> ref_cnt d ! 2 = 0"
      "d' = d\<lparr>ref_cnt := (ref_cnt d)[unat a := ref_cnt d ! unat a + 1]\<rparr>"
proof (cases "ref_cnt d ! 0 \<noteq> 0 \<and> a \<noteq> TLKM_ACCESS_MONITOR \<or> ref_cnt d ! 2 \<noteq> 0 \<and> a = TLKM_ACCESS_EXCLUSIVE")
  case True
  then have "tlkm_device_acquire a d = Some (- EBUSY, d)"
    by (auto simp: tlkm_device_acquire_def Let_def EBUSY_def access_const)
  with assms refused show thesis by (simp add: EBUSY_def)
next
  case False
  then have "tlkm_device_acquire a d = (if unat a < 3
      then Some (0, d\<lparr>ref_cnt := (ref_cnt d)[unat a := ref_cnt d ! unat a + 1]\<rparr>) else None)"
    by (auto simp: tlkm_device_acquire_def Let_def access_const)
  with assms have "unat a < 3" "r = 0" "d' = d\<lparr>ref_cnt := (ref_cnt d)[unat a := ref_cnt d ! unat a + 1]\<rparr>"
    by (simp_all split: if_splits)
  with False granted show thesis by blast
qed

lemma unat_ref_le:
  "unat a < 3 \<Longrightarrow> unat (ref_cnt d ! unat a) \<le> sum (dev_cnt d) dev_modes"
proof -
  assume "unat a < 3"
  then have "unat a = 0 \<or> unat a = 1 \<or> unat a = 2" by auto
  then show ?thesis unfolding sum_dev_modes by auto
qed

lemma granted_count:
  assumes "length (ref_cnt d) = 3" and "sum (dev_cnt d) dev_modes < 2 ^ 64 - 1" and "unat a < 3"
  shows "dev_cnt (d\<lparr>ref_cnt := (ref_cnt d)[unat a := ref_cnt d ! unat a + 1]\<rparr>)
    = (dev_cnt d)(a := dev_cnt d a + 1)"
proof (rule dev_cnt_update [OF assms(1,3)])
  have "unat (ref_cnt d ! unat a) < 2 ^ 64 - 1" using unat_ref_le [OF assms(3)] assms(2) by (rule le_less_trans)
  then show "unat (ref_cnt d ! unat a + 1) = dev_cnt d a + 1"
    using assms(3) by (simp add: dev_cnt_def dev_modes_iff)
qed

lemma release_count:
  assumes "length (ref_cnt d) = 3" and "sum (dev_cnt d) dev_modes \<le> 2 ^ 64 - 1" and "0 < dev_cnt d a"
  shows "\<exists>d'. tlkm_device_release a d = Some d' \<and> length (ref_cnt d') = 3
    \<and> dev_cnt d' = (dev_cnt d)(a := dev_cnt d a - 1)"
proof -
  let ?r = "ref_cnt d"
  have a: "unat a < 3" using assms(3) by (simp add: dev_cnt_def dev_modes_iff split: if_splits)
  have pos: "0 < unat (?r ! unat a)" using assms(3) a by (simp add: dev_cnt_def dev_modes_iff)
  have "unat (?r ! 0 + (?r ! 1 + ?r ! 2)) = unat (?r ! 0) + unat (?r ! 1) + unat (?r ! 2)"
    using assms(2) by (simp add: sum_dev_modes unat_word_ariths)
  also have "\<dots> \<ge> unat (?r ! unat a)" using unat_ref_le [OF a, of d] by (simp add: sum_dev_modes)
  finally have "0 < ?r ! 0 + (?r ! 1 + ?r ! 2)" using pos by (simp add: word_less_nat_alt)
  moreover have upt3: "[0..<3] = [0, 1, 2 :: nat]" by (simp add: upt_rec)
  ultimately have rel: "tlkm_device_release a d = Some (d\<lparr>ref_cnt := ?r[unat a := ?r ! unat a - 1]\<rparr>)"
    using a upt3 by (simp add: tlkm_device_release_def access_const)
  have "unat (?r ! unat a - 1) = dev_cnt d a - 1"
    using pos a by (simp add: dev_cnt_def dev_modes_iff unat_minus_one word_unat_eq_iff)
  with rel assms(1) dev_cnt_update [OF assms(1) a] show ?thesis by auto
qed

interpretation dev_refs: ref_counted tlkm_device_acquire tlkm_device_release dev_cnt dev_modes
  "2 ^ 64 - 1" dev_access_inv
proof (unfold_locales, goal_cases)
  case (1 d a d')
  from 1(3) show ?case
  proof (cases rule: acquire_cases)
    case granted
    note cnt = granted_count [OF _ 1(2) granted(2)]
    have "length (ref_cnt d) = 3" using 1(1) by (simp add: dev_access_inv_def)
    with granted cnt 1(1) show ?thesis
      by (auto simp: dev_access_inv_def dev_modes_iff dev_cnt_def access_const)
  qed simp
next
  case (2 a d r d')
  from 2 show ?case by (cases rule: acquire_cases) simp_all
next
  case (3 d a)
  then obtain d' where "tlkm_device_release a d = Some d'" "length (ref_cnt d') = 3"
    "dev_cnt d' = (dev_cnt d)(a := dev_cnt d a - 1)"
    using release_count [of d a] by (auto simp: dev_access_inv_def)
  with 3(1) show ?case by (auto simp: dev_access_inv_def)
qed (simp_all add: dev_modes_def dev_cnt_def)

end
