(* ===== verification/Tlkm_Bus.thy ===== *)
theory Tlkm_Bus
  imports Tlkm_Device
begin

text \<open>
  The list of devices, \<^verbatim>\<open>tlkm/tlkm_bus.c\<close>. The kernel's circular list of \<open>n\<close> devices is a ring
  of \<open>n + 1\<close> nodes: node \<open>i < n\<close> belongs to the device at position \<open>i\<close>, node \<open>n\<close> is the list
  head. A device is identified by its address. Set-up and removal of the main control file
  (\<^verbatim>\<open>tlkm_init\<close> and \<^verbatim>\<open>tlkm_exit\<close> of \<^verbatim>\<open>tlkm/tlkm.c\<close>) are called from here, so the static data of
  that file is part of the state. Calls that leave the module or tear down a device are
  recorded in the field \<open>bus_calls\<close>.
\<close>

section \<open>Operations\<close>

datatype bus_call =
    Device_init u64 int      \<comment> \<open>\<^verbatim>\<open>tlkm_device_init\<close> and its result\<close>
  | Device_exit u64          \<comment> \<open>\<^verbatim>\<open>tlkm_device_exit\<close>\<close>
  | Device_kfree u64
  | Misc_register int | Misc_deregister   \<comment> \<open>the main control file\<close>
  | Class_remove string

record tlkm_bus =
  devices :: "(u64 \<times> tlkm_device) list"
  num_devs :: u64
  is_setup :: bool           \<comment> \<open>\<^verbatim>\<open>_tlkm.is_setup\<close>\<close>
  opened_counter :: u32
  bus_calls :: "bus_call list"

definition empty_bus :: tlkm_bus where
  "empty_bus = \<lparr>devices = [], num_devs = 0, is_setup = False, opened_counter = 0, bus_calls = []\<rparr>"

definition log_call :: "bus_call \<Rightarrow> tlkm_bus \<Rightarrow> tlkm_bus" where
  "log_call c b = b\<lparr>bus_calls := bus_calls b @ [c]\<rparr>"

text \<open>The main control file; \<open>reg\<close> is the result of \<^verbatim>\<open>misc_register\<close>.\<close>

definition tlkm_init :: "int \<Rightarrow> tlkm_bus \<Rightarrow> int \<times> tlkm_bus" where
  "tlkm_init reg b = (reg, log_call (Misc_register reg) (b\<lparr>opened_counter := 0, is_setup := True\<rparr>))"

definition tlkm_exit :: "tlkm_bus \<Rightarrow> tlkm_bus" where
  "tlkm_exit b = (if is_setup b then log_call Misc_deregister b else b)"

definition tlkm_bus_add_device :: "u64 \<Rightarrow> tlkm_device \<Rightarrow> tlkm_bus \<Rightarrow> tlkm_bus" where
  "tlkm_bus_add_device p d b =
     b\<lparr>devices := devices b @ [(p, d\<lparr>dev_id := ucast (num_devs b)\<rparr>)], num_devs := num_devs b + 1\<rparr>"

definition tlkm_bus_del_device :: "u64 \<Rightarrow> tlkm_bus \<Rightarrow> tlkm_bus" where
  "tlkm_bus_del_device p b =
     b\<lparr>devices := filter (\<lambda>(q, d). q \<noteq> p) (devices b), num_devs := num_devs b - 1\<rparr>"

definition set_device :: "u64 \<Rightarrow> (tlkm_device \<Rightarrow> tlkm_device) \<Rightarrow> tlkm_bus \<Rightarrow> tlkm_bus" where
  "set_device p f b = b\<lparr>devices := map (\<lambda>(q, d). (q, if q = p then f d else d)) (devices b)\<rparr>"

definition zero_device :: "tlkm_class \<Rightarrow> u32 \<Rightarrow> u32 \<Rightarrow> tlkm_device" where
  "zero_device c vid pid =
     \<lparr>cls = c, dev_id = 0, dname = [], ref_cnt = replicate TLKM_ACCESS_TYPES 0, vendor_id = vid,
      product_id = pid, base_offset = 0, mmap = \<lparr>m_status = 0, m_arch = 0, m_plat = 0\<rparr>,
      status = status_zero, arch = \<lparr>base = 0, high = 0, rsize = 0\<rparr>,
      plat = \<lparr>base = 0, high = 0, rsize = 0\<rparr>, ctrl = 0,
      components = replicate TLKM_COMPONENT_MAX \<lparr>c_name = replicate 32 0, c_offset = 0, c_size = 0\<rparr>\<rparr>"

text \<open>\<open>p\<close> is the result of \<^verbatim>\<open>kzalloc\<close>, \<open>init\<close> the effect of \<^verbatim>\<open>tlkm_device_init\<close>. The result is the
  address of the new device, 0 for failure.\<close>

definition tlkm_bus_new_device ::
  "(tlkm_device \<Rightarrow> int \<times> tlkm_device) \<Rightarrow> u64 \<Rightarrow> tlkm_class \<Rightarrow> u32 \<Rightarrow> u32 \<Rightarrow> tlkm_bus \<Rightarrow> u64 \<times> tlkm_bus" where
  "tlkm_bus_new_device init p c vid pid b =
     (if p \<noteq> 0
      then let b1 = tlkm_bus_add_device p (zero_device c vid pid) b;
               d1 = (zero_device c vid pid)\<lparr>dev_id := ucast (num_devs b)\<rparr>;
               (ret, d2) = init d1;
               b2 = log_call (Device_init p ret) b1
           in if ret \<noteq> 0 then (0, log_call (Device_kfree p) (tlkm_bus_del_device p b2))
              else (p, set_device p (\<lambda>_. d2\<lparr>dname := take 29 (cls_name c)\<rparr>) b2)
      else (0, b))"

definition tlkm_bus_delete_device :: "u64 \<Rightarrow> tlkm_bus \<Rightarrow> tlkm_bus" where
  "tlkm_bus_delete_device p b =
     (if p \<noteq> 0
      then log_call (Device_kfree p) (tlkm_bus_del_device p (log_call (Device_exit p) b))
      else b)"

definition tlkm_bus_num_devices :: "tlkm_bus \<Rightarrow> u64" where
  "tlkm_bus_num_devices b = num_devs b"

text \<open>What \<^verbatim>\<open>tlkm_bus_get_device\<close> returns: no device, a device, or the list head
  taken for a device.\<close>

datatype bus_ref = Null | Dev u64 | Bogus_head

definition ring_next :: "nat \<Rightarrow> nat \<Rightarrow> nat" where
  "ring_next n k = (if k = n then 0 else k + 1)"

text \<open>\<^verbatim>\<open>list_empty(lh)\<close>: the node is linked to itself.\<close>

definition list_empty :: "nat \<Rightarrow> nat \<Rightarrow> bool" where
  "list_empty n k \<longleftrightarrow> ring_next n k = k"

fun get_device_loop :: "nat \<Rightarrow> nat \<Rightarrow> nat \<Rightarrow> nat" where
  "get_device_loop n lh idx =
     (if \<not> list_empty n lh \<and> idx > 0 then get_device_loop n (ring_next n lh) (idx - 1) else lh)"

definition tlkm_bus_get_device :: "tlkm_bus \<Rightarrow> u64 \<Rightarrow> bus_ref" where
  "tlkm_bus_get_device b idx =
     (let n = length (devices b);
          lh = get_device_loop n (ring_next n n) (unat idx)
      in if list_empty n lh then Null
         else if lh = n then Bogus_head
         else Dev (fst (devices b ! lh)))"

text \<open>Probing of the classes and removal of everything; \<open>probe\<close> is a class's probe callback.\<close>

definition tlkm_bus_enumerate :: "(tlkm_class \<Rightarrow> tlkm_bus \<Rightarrow> int \<times> tlkm_bus) \<Rightarrow> tlkm_class list
    \<Rightarrow> tlkm_bus \<Rightarrow> tlkm_bus" where
  "tlkm_bus_enumerate probe cs b = fold (\<lambda>c b. snd (probe c b)) cs b"

definition tlkm_bus_exit :: "tlkm_class list \<Rightarrow> tlkm_bus \<Rightarrow> tlkm_bus" where
  "tlkm_bus_exit cs b =
     (let b1 = tlkm_exit b;
          b2 = fold (\<lambda>(p, d). tlkm_bus_delete_device p) (devices b1) b1
      in fold (\<lambda>c. log_call (Class_remove (cls_name c))) cs b2)"

text \<open>\<open>cs\<close> is the table \<^verbatim>\<open>_tlkm_class\<close>.\<close>

definition tlkm_bus_init :: "(tlkm_class \<Rightarrow> tlkm_bus \<Rightarrow> int \<times> tlkm_bus) \<Rightarrow> int \<Rightarrow> tlkm_class list
    \<Rightarrow> tlkm_bus \<Rightarrow> int \<times> tlkm_bus" where
  "tlkm_bus_init probe reg cs b =
     (let b1 = tlkm_bus_enumerate probe cs (b\<lparr>devices := []\<rparr>)
      in if tlkm_bus_num_devices b1 = 0 then (- ENXIO, tlkm_bus_exit cs b1)
         else let (ret, b2) = tlkm_init reg b1
              in if ret \<noteq> 0 then (ret, tlkm_bus_exit cs b2) else (ret, b2))"

lemma empty_bus_simps [simp]: "devices empty_bus = []" "num_devs empty_bus = 0"
  "is_setup empty_bus = False" "bus_calls empty_bus = []"
  by (simp_all add: empty_bus_def)

lemma log_call_simps [simp]:
  "devices (log_call c b) = devices b" "num_devs (log_call c b) = num_devs b"
  "is_setup (log_call c b) = is_setup b" "opened_counter (log_call c b) = opened_counter b"
  "bus_calls (log_call c b) = bus_calls b @ [c]"
  by (simp_all add: log_call_def)

section \<open>Position of a device\<close>

definition bus_wf :: "tlkm_bus \<Rightarrow> bool" where
  "bus_wf b \<longleftrightarrow> distinct (map fst (devices b)) \<and> num_devs b = word_of_nat (length (devices b))
     \<and> 0 \<notin> fst ` set (devices b)"

lemma get_device_loop_mod:
  assumes "0 < n" and "k \<le> n"
  shows "get_device_loop n k i = (k + i) mod (n + 1)"
  using assms
proof (induction n k i rule: get_device_loop.induct)
  case (1 n k i)
  have ne: "\<not> list_empty n k" using 1(2) by (simp add: list_empty_def ring_next_def)
  show ?case
  proof (cases i)
    case 0
    then show ?thesis using 1(3) by simp
  next
    case (Suc j)
    have "get_device_loop n k i = get_device_loop n (ring_next n k) j"
      using ne Suc by simp
    also have "\<dots> = (ring_next n k + j) mod (n + 1)"
      using 1 ne Suc by (simp add: ring_next_def)
    also have "\<dots> = (k + i) mod (n + 1)"
    proof (cases "k = n")
      case True
      have "(n + 1 + j) mod (n + 1) = j mod (n + 1)" by (metis mod_add_self1)
      with True Suc show ?thesis by (simp add: ring_next_def)
    qed (use Suc in \<open>simp add: ring_next_def\<close>)
    finally show ?thesis .
  qed
qed

declare get_device_loop.simps [simp del]

lemma get_device_eq:
  "tlkm_bus_get_device b idx =
     (if devices b = [] then Null
      else let k = unat idx mod (length (devices b) + 1)
           in if k = length (devices b) then Bogus_head else Dev (fst (devices b ! k)))"
proof (cases "devices b = []")
  case True
  then show ?thesis
    by (simp add: tlkm_bus_get_device_def list_empty_def ring_next_def get_device_loop.simps)
next
  case False
  let ?n = "length (devices b)"
  have "\<not> list_empty ?n k" for k using False by (simp add: list_empty_def ring_next_def)
  moreover have "get_device_loop ?n (ring_next ?n ?n) (unat idx) = unat idx mod (?n + 1)"
    using get_device_loop_mod [of ?n 0 "unat idx"] False by (simp add: ring_next_def)
  ultimately show ?thesis using False by (simp add: tlkm_bus_get_device_def Let_def)
qed

lemma get_device_in_range:
  "unat idx < length (devices b) \<Longrightarrow> tlkm_bus_get_device b idx = Dev (fst (devices b ! unat idx))"
  by (auto simp: get_device_eq Let_def)

text \<open>The end of the list is not recognised: the first index behind it gives the head.\<close>

lemma get_device_out_of_range:
  assumes "devices b \<noteq> []" and "unat idx = length (devices b)"
  shows "tlkm_bus_get_device b idx = Bogus_head"
  using assms by (simp add: get_device_eq)

lemma get_device_wraps:
  assumes "devices b \<noteq> []" and "unat idx = length (devices b) + 1"
  shows "tlkm_bus_get_device b idx = Dev (fst (devices b ! 0))"
  using assms by (simp add: get_device_eq)

section \<open>Adding and removing devices\<close>

lemma log_call_wf [simp]: "bus_wf (log_call c b) = bus_wf b"
  by (simp add: bus_wf_def)

lemma bus_add_wf:
  assumes "bus_wf b" and "p \<noteq> 0" and "p \<notin> fst ` set (devices b)"
  shows "bus_wf (tlkm_bus_add_device p d b)"
  using assms by (auto simp: bus_wf_def tlkm_bus_add_device_def)

lemma set_device_wf: "bus_wf b \<Longrightarrow> bus_wf (set_device p f b)"
  by (force simp: bus_wf_def set_device_def comp_def case_prod_beta)

lemma filter_other_ptr:
  "p \<notin> fst ` set ds \<Longrightarrow> filter (\<lambda>(q, d). q \<noteq> p) ds = ds"
  by (force simp: filter_id_conv)

lemma bus_del_length:
  assumes "distinct (map fst ds)" and "p \<in> fst ` set ds"
  shows "Suc (length (filter (\<lambda>(q, d). q \<noteq> p) ds)) = length ds"
  using assms
proof (induction ds)
  case (Cons x ds)
  show ?case
  proof (cases "fst x = p")
    case True
    then have "filter (\<lambda>(q, d). q \<noteq> p) ds = ds" using Cons.prems by (intro filter_other_ptr) simp
    with True show ?thesis by (cases x) simp
  qed (use Cons in \<open>auto simp: case_prod_beta\<close>)
qed simp

lemma bus_del_wf:
  assumes "bus_wf b" and "p \<in> fst ` set (devices b)"
  shows "bus_wf (tlkm_bus_del_device p b)"
proof -
  have "distinct (map fst (filter (\<lambda>(q, d). q \<noteq> p) (devices b)))"
    using assms(1) by (simp add: bus_wf_def distinct_map_filter)
  moreover have "word_of_nat (length (devices b)) - (1 :: u64) =
      word_of_nat (length (filter (\<lambda>(q, d). q \<noteq> p) (devices b)))"
    using arg_cong [OF bus_del_length [of "devices b" p], of "word_of_nat :: nat \<Rightarrow> u64"] assms
    by (simp add: bus_wf_def algebra_simps)
  ultimately show ?thesis using assms by (auto simp: bus_wf_def tlkm_bus_del_device_def)
qed

lemma bus_add_del:
  assumes "p \<notin> fst ` set (devices b)"
  shows "tlkm_bus_del_device p (log_call c (tlkm_bus_add_device p d b)) = log_call c b"
  using filter_other_ptr [OF assms]
  by (simp add: tlkm_bus_del_device_def tlkm_bus_add_device_def log_call_def)

lemma new_device_wf:
  assumes "bus_wf b" and "p \<notin> fst ` set (devices b)"
  shows "bus_wf (snd (tlkm_bus_new_device init p c vid pid b))"
proof (cases "p = 0")
  case False
  with assms have "bus_wf (tlkm_bus_add_device p (zero_device c vid pid) b)" by (intro bus_add_wf)
  then show ?thesis using assms
    by (auto simp: tlkm_bus_new_device_def Let_def bus_add_del set_device_wf split: prod.splits)
qed (simp add: tlkm_bus_new_device_def assms)

lemma delete_devices:
  assumes "devices b = ds" and "bus_wf b"
  shows "devices (fold (\<lambda>(p, d). tlkm_bus_delete_device p) ds b) = [] \<and>
    num_devs (fold (\<lambda>(p, d). tlkm_bus_delete_device p) ds b) = 0 \<and>
    bus_calls (fold (\<lambda>(p, d). tlkm_bus_delete_device p) ds b) =
      bus_calls b @ concat (map (\<lambda>(p, d). [Device_exit p, Device_kfree p]) ds)"
  using assms
proof (induction ds arbitrary: b)
  case Nil
  then show ?case by (simp add: bus_wf_def)
next
  case (Cons x ds)
  let ?b = "tlkm_bus_delete_device (fst x) b"
  have eq: "?b = log_call (Device_kfree (fst x)) (tlkm_bus_del_device (fst x)
      (log_call (Device_exit (fst x)) b))"
    using Cons.prems by (auto simp: tlkm_bus_delete_device_def bus_wf_def)
  have "bus_wf ?b" unfolding eq using Cons.prems by (auto intro!: bus_del_wf)
  moreover have "devices ?b = ds"
    using Cons.prems filter_other_ptr [of "fst x" ds] unfolding eq
    by (simp add: tlkm_bus_del_device_def bus_wf_def case_prod_beta)
  moreover have "bus_calls ?b = bus_calls b @ [Device_exit (fst x), Device_kfree (fst x)]"
    unfolding eq by (simp add: tlkm_bus_del_device_def)
  ultimately show ?case using Cons.IH [of ?b] by (simp add: case_prod_beta)
qed

lemma remove_classes:
  "devices (fold (\<lambda>c. log_call (Class_remove (cls_name c))) cs b) = devices b \<and>
   num_devs (fold (\<lambda>c. log_call (Class_remove (cls_name c))) cs b) = num_devs b \<and>
   bus_calls (fold (\<lambda>c. log_call (Class_remove (cls_name c))) cs b) =
     bus_calls b @ map (Class_remove \<circ> cls_name) cs"
  by (induction cs arbitrary: b) simp_all

section \<open>Properties\<close>

text \<open>Buses that have only grown: devices were added, none removed.\<close>

inductive bus_grown :: "(tlkm_device \<Rightarrow> int \<times> tlkm_device) \<Rightarrow> tlkm_bus \<Rightarrow> bool" for init where
  bus_grown_empty: "bus_grown init empty_bus"
| bus_grown_new: "bus_grown init b \<Longrightarrow> p \<notin> fst ` set (devices b) \<Longrightarrow>
    bus_grown init (snd (tlkm_bus_new_device init p c vid pid b))"

lemma set_device_new:
  assumes "p \<notin> fst ` set (devices b)"
  shows "devices (set_device p (\<lambda>_. e) (log_call c (tlkm_bus_add_device p d b))) = devices b @ [(p, e)]"
proof -
  have "map (\<lambda>(q, d). (q, if q = p then e else d)) (devices b) = devices b"
    using assms by (intro map_idI) force
  then show ?thesis by (simp add: set_device_def tlkm_bus_add_device_def)
qed

lemma bus_grown_ids:
  assumes "bus_grown init b" and "\<And>d. dev_id (snd (init d)) = dev_id d"
  shows "bus_wf b \<and> (\<forall>i < length (devices b). dev_id (snd (devices b ! i)) = word_of_nat i)"
  using assms(1)
proof (induction rule: bus_grown.induct)
  case bus_grown_empty
  then show ?case by (simp add: bus_wf_def empty_bus_def)
next
  case (bus_grown_new b p c vid pid)
  let ?d1 = "(zero_device c vid pid)\<lparr>dev_id := ucast (num_devs b)\<rparr>"
  obtain r d2 where i: "init ?d1 = (r, d2)" by (cases "init ?d1")
  have id2: "dev_id d2 = word_of_nat (length (devices b))"
    using assms(2) [of ?d1] i bus_grown_new.IH
    by (simp add: bus_wf_def)
  have wf: "bus_wf (snd (tlkm_bus_new_device init p c vid pid b))"
    using bus_grown_new by (intro new_device_wf) simp_all
  have "devices (snd (tlkm_bus_new_device init p c vid pid b)) =
      (if p = 0 \<or> r \<noteq> 0 then devices b else devices b @ [(p, d2\<lparr>dname := take 29 (cls_name c)\<rparr>)])"
    using bus_grown_new i
    by (simp add: tlkm_bus_new_device_def Let_def bus_add_del set_device_new)
  with wf bus_grown_new.IH id2 show ?case by (auto simp: nth_append less_Suc_eq)
qed

text \<open>C13: As long as no device has been removed, the id of a device is its position and
  \<^verbatim>\<open>tlkm_bus_get_device\<close> finds it under that id: for every index below the number of devices
  the call returns the device whose \<^verbatim>\<open>dev_id\<close> is the index.\<close>

theorem tlkm_bus_get_device_by_id:
  assumes "bus_grown init b" and "\<And>d. dev_id (snd (init d)) = dev_id d"
    and "unat idx < length (devices b)"
  shows "\<exists>p d. tlkm_bus_get_device b idx = Dev p \<and> (p, d) \<in> set (devices b)
    \<and> dev_id d = ucast idx \<and> p \<noteq> 0"
proof -
  let ?x = "devices b ! unat idx"
  have "?x \<in> set (devices b)" using assms(3) by simp
  moreover have "dev_id (snd ?x) = ucast idx" "bus_wf b"
    using bus_grown_ids [OF assms(1,2)] assms(3) by (simp_all add: unsigned_ucast_eq)
  ultimately show ?thesis
    using get_device_in_range [OF assms(3)]
    by (intro exI [of _ "fst ?x"] exI [of _ "snd ?x"]) (auto simp: bus_wf_def)
qed

definition demo_class :: "string \<Rightarrow> tlkm_class" where
  "demo_class n = \<lparr>cls_name = n, has_init_subsystems = True, has_exit_subsystems = True,
     has_init_interrupts = True, has_exit_interrupts = True, has_miscdev_close = False,
     has_addr2map = False, has_ioctl = True, number_of_interrupts = 132, platform_status = INIT_REGSPACE 0x77770000 0x2000\<rparr>"

definition demo_bus :: "tlkm_bus" where
  "demo_bus = snd (tlkm_bus_new_device (Pair 0) 8192 (demo_class ''pcie'') 1 2
     (snd (tlkm_bus_new_device (Pair 0) 4096 (demo_class ''zynq'') 0 0 empty_bus)))"

lemma demo_bus_devices:
  "map fst (devices demo_bus) = [4096, 8192]" "map (dev_id \<circ> snd) (devices demo_bus) = [0, 1]"
  by (simp_all add: demo_bus_def tlkm_bus_new_device_def Let_def set_device_def
      tlkm_bus_add_device_def zero_device_def)

lemma demo_bus_grown: "bus_grown (Pair 0) demo_bus"
proof -
  have "bus_grown (Pair 0) (snd (tlkm_bus_new_device (Pair 0) 4096 (demo_class ''zynq'') 0 0
      empty_bus))"
    by (rule bus_grown_new [OF bus_grown_empty]) simp
  then show ?thesis unfolding demo_bus_def
    by (rule bus_grown_new)
      (simp add: tlkm_bus_new_device_def Let_def set_device_def tlkm_bus_add_device_def)
qed

theorem tlkm_bus_get_device_by_id_witness:
  "\<exists>p d. tlkm_bus_get_device demo_bus 1 = Dev p \<and> (p, d) \<in> set (devices demo_bus) \<and> dev_id d = 1 \<and> p \<noteq> 0"
proof -
  have "length (devices demo_bus) = 2"
    using arg_cong [OF demo_bus_devices(1), of length] by simp
  then show ?thesis
    using tlkm_bus_get_device_by_id [OF demo_bus_grown, of 1] by simp
qed

text \<open>C14: A device whose initialisation fails is freed again and leaves the bus as it was; one
  whose initialisation succeeds is the new last device; in both cases the number of devices is the
  length of the list and no two devices have the same address.\<close>

theorem tlkm_bus_new_device_atomic:
  assumes "bus_wf b" and "p \<notin> fst ` set (devices b)"
    and "tlkm_bus_new_device init p c vid pid b = (q, b')"
  shows "bus_wf b' \<and> (if q = 0 then \<exists>cs. b' = b\<lparr>bus_calls := bus_calls b @ cs\<rparr>
        \<and> (cs = [] \<or> (\<exists>r. r \<noteq> 0 \<and> cs = [Device_init p r, Device_kfree p]))
    else q = p \<and> bus_calls b' = bus_calls b @ [Device_init p 0]
      \<and> (\<exists>d. devices b' = devices b @ [(p, d)] \<and> dname d = take 29 (cls_name c)))"
proof (cases "p = 0")
  case False
  obtain r d2 where i: "init ((zero_device c vid pid)\<lparr>dev_id := ucast (num_devs b)\<rparr>) = (r, d2)"
    by (metis surj_pair)
  have "bus_wf b'" using new_device_wf [OF assms(1,2), of init c vid pid] assms(3) by simp
  moreover have "\<exists>cs. b' = b\<lparr>bus_calls := bus_calls b @ cs\<rparr> \<and> (\<exists>r. r \<noteq> 0 \<and> cs = [Device_init p r, Device_kfree p])"
    if r: "r \<noteq> 0"
  proof -
    have "b' = log_call (Device_kfree p) (log_call (Device_init p r) b)"
      using False i assms r by (simp add: tlkm_bus_new_device_def Let_def bus_add_del)
    then show ?thesis
      using r by (intro exI [of _ "[Device_init p r, Device_kfree p]"]) (auto simp: log_call_def)
  qed
  moreover have "bus_calls (set_device p f (log_call k (tlkm_bus_add_device p d b))) = bus_calls b @ [k]"
    for f k d by (simp add: set_device_def tlkm_bus_add_device_def)
  moreover have "q = (if r = 0 then p else 0)"
    using False i assms(3) by (simp add: tlkm_bus_new_device_def Let_def split: if_splits)
  ultimately show ?thesis using False i assms
    by (cases "r = 0") (auto simp: tlkm_bus_new_device_def Let_def set_device_new)
next
  case True
  then have "q = 0" "b' = b" using assms(3) by (simp_all add: tlkm_bus_new_device_def)
  then show ?thesis using assms(1) by (auto intro!: exI [of _ "[]"])
qed

theorem tlkm_bus_new_device_atomic_witness:
  "devices (snd (tlkm_bus_new_device (\<lambda>d. (- ENODEV, d)) 12288 (demo_class ''pcie'') 1 2 demo_bus))
     = devices demo_bus"
proof -
  have wf: "bus_wf demo_bus" using bus_grown_ids [OF demo_bus_grown] by simp
  have "fst ` set (devices demo_bus) = {4096, 8192}"
    using arg_cong [OF demo_bus_devices(1), of set] by simp
  then have "12288 \<notin> fst ` set (devices demo_bus)" by simp
  moreover obtain q b' where r: "tlkm_bus_new_device (\<lambda>d. (- ENODEV, d)) 12288 (demo_class ''pcie'') 1 2
      demo_bus = (q, b')" by (metis surj_pair)
  moreover have "q = 0" using r by (simp add: tlkm_bus_new_device_def Let_def ENODEV_def)
  ultimately show ?thesis using tlkm_bus_new_device_atomic [OF wf] by fastforce
qed

text \<open>Life of the bus: devices are added and removed in any order, with any results of the
  initialisation.\<close>

inductive bus_run :: "tlkm_bus \<Rightarrow> bool" where
  bus_run_empty: "bus_run empty_bus"
| bus_run_new: "bus_run b \<Longrightarrow> p \<notin> fst ` set (devices b) \<Longrightarrow>
    bus_run (snd (tlkm_bus_new_device init p c vid pid b))"
| bus_run_delete: "bus_run b \<Longrightarrow> p \<in> fst ` set (devices b) \<Longrightarrow> bus_run (tlkm_bus_delete_device p b)"

definition initialised :: "bus_call list \<Rightarrow> u64 multiset" where
  "initialised cs = mset [p. Device_init p r \<leftarrow> cs, r = 0]"

definition exited :: "bus_call list \<Rightarrow> u64 multiset" where
  "exited cs = mset [p. Device_exit p \<leftarrow> cs]"

definition allocated :: "bus_call list \<Rightarrow> u64 multiset" where
  "allocated cs = mset [p. Device_init p r \<leftarrow> cs]"

definition freed :: "bus_call list \<Rightarrow> u64 multiset" where
  "freed cs = mset [p. Device_kfree p \<leftarrow> cs]"

lemmas call_sets = initialised_def exited_def allocated_def freed_def

lemma call_sets_append [simp]:
  "initialised (cs @ ds) = initialised cs + initialised ds" "exited (cs @ ds) = exited cs + exited ds"
  "allocated (cs @ ds) = allocated cs + allocated ds" "freed (cs @ ds) = freed cs + freed ds"
  by (simp_all add: call_sets)

definition bus_bal :: "tlkm_bus \<Rightarrow> bool" where
  "bus_bal b \<longleftrightarrow> initialised (bus_calls b) = exited (bus_calls b) + mset (map fst (devices b))
     \<and> allocated (bus_calls b) = freed (bus_calls b) + mset (map fst (devices b))"

lemma mset_without:
  assumes "distinct (map fst ds)" and "p \<in> fst ` set ds"
  shows "mset (map fst ds) = add_mset p (mset (map fst (filter (\<lambda>(q, d). q \<noteq> p) ds)))"
  using assms
proof (induction ds)
  case (Cons x ds)
  show ?case
  proof (cases "fst x = p")
    case True
    then have "filter (\<lambda>(q, d). q \<noteq> p) ds = ds" using Cons.prems by (intro filter_other_ptr) simp
    with True show ?thesis by (cases x) simp
  qed (use Cons in \<open>auto simp: case_prod_beta\<close>)
qed simp

lemma bus_run_inv: "bus_run b \<Longrightarrow> bus_wf b \<and> bus_bal b"
proof (induction rule: bus_run.induct)
  case bus_run_empty
  then show ?case by (simp add: bus_wf_def bus_bal_def call_sets)
next
  case (bus_run_new b p init c vid pid)
  obtain r d2 where i: "init ((zero_device c vid pid)\<lparr>dev_id := ucast (num_devs b)\<rparr>) = (r, d2)"
    by (metis surj_pair)
  have "bus_wf (snd (tlkm_bus_new_device init p c vid pid b))"
    using bus_run_new by (intro new_device_wf) simp_all
  moreover have "bus_bal (snd (tlkm_bus_new_device init p c vid pid b))"
    using bus_run_new i
    by (auto simp: tlkm_bus_new_device_def Let_def bus_add_del set_device_new bus_bal_def)
      (simp_all add: call_sets set_device_def tlkm_bus_add_device_def)
  ultimately show ?case ..
next
  case (bus_run_delete b p)
  have nz: "p \<noteq> 0" using bus_run_delete by (auto simp: bus_wf_def)
  have "bus_wf (tlkm_bus_delete_device p b)"
    using bus_run_delete nz by (auto simp: tlkm_bus_delete_device_def intro!: bus_del_wf)
  moreover have "bus_bal (tlkm_bus_delete_device p b)"
    using bus_run_delete nz mset_without [of "devices b" p]
    by (simp add: tlkm_bus_delete_device_def tlkm_bus_del_device_def bus_bal_def bus_wf_def)
      (simp add: call_sets)
  ultimately show ?case ..
qed


lemma demo_bus_run: "bus_run demo_bus"
proof -
  have "bus_run (snd (tlkm_bus_new_device (Pair 0) 4096 (demo_class ''zynq'') 0 0 empty_bus))"
    by (rule bus_run_new [OF bus_run_empty]) simp
  then show ?thesis unfolding demo_bus_def
    by (rule bus_run_new)
      (simp add: tlkm_bus_new_device_def Let_def set_device_def tlkm_bus_add_device_def)
qed


text \<open>After the removal of the first of two devices a new device gets the id of the other.\<close>

lemma tlkm_bus_duplicate_id:
  "map (dev_id \<circ> snd) (devices (snd (tlkm_bus_new_device (Pair 0) 12288 (demo_class ''pcie'') 1 2
     (tlkm_bus_delete_device 4096 demo_bus)))) = [1, 1]"
  by (simp add: demo_bus_def tlkm_bus_new_device_def Let_def set_device_def
      tlkm_bus_add_device_def zero_device_def tlkm_bus_delete_device_def tlkm_bus_del_device_def)

end
