(* ===== verification/Tlkm_Files.thy ===== *)
theory Tlkm_Files
  imports Tlkm_Bus
begin

text \<open>
  The main control file, \<^verbatim>\<open>tlkm/tlkm.c\<close> and \<^verbatim>\<open>tlkm/tlkm_ioctl.c\<close>: opening and closing it, and
  creating and destroying device handles through it. Every open file has a list of the
  devices it acquired with their access modes. The reference counts of the devices are
  shown to agree with these lists, and exclusive access to exclude shared access.
\<close>

section \<open>State and operations\<close>

type_synonym dev_entry = "u64 \<times> tlkm_access_t"

text \<open>\<open>files\<close> maps the open files to their device lists, in the order they were opened.\<close>

record tlkm_sys =
  bus :: tlkm_bus
  files :: "(nat \<times> dev_entry list) list"

definition count_open :: "u32 \<Rightarrow> tlkm_sys \<Rightarrow> tlkm_sys" where
  "count_open n s = s\<lparr>bus := (bus s)\<lparr>opened_counter := opened_counter (bus s) + n\<rparr>\<rparr>"

definition tlkm_miscdev_open :: "nat \<Rightarrow> bool \<Rightarrow> tlkm_sys \<Rightarrow> int \<times> tlkm_sys" where
  "tlkm_miscdev_open fd kmalloc_ok s =
     (let s1 = count_open 1 s
      in if \<not> kmalloc_ok then (- ENODEV, s1) else (0, s1\<lparr>files := files s1 @ [(fd, [])]\<rparr>))"

definition device_at :: "tlkm_bus \<Rightarrow> u64 \<Rightarrow> tlkm_device option" where
  "device_at b p = map_of (devices b) p"

definition file_list :: "nat \<Rightarrow> tlkm_sys \<Rightarrow> dev_entry list" where
  "file_list fd s = (case map_of (files s) fd of Some l \<Rightarrow> l | None \<Rightarrow> [])"

definition set_file :: "nat \<Rightarrow> dev_entry list \<Rightarrow> tlkm_sys \<Rightarrow> tlkm_sys" where
  "set_file fd l s = s\<lparr>files := map (\<lambda>(f, k). (f, if f = fd then l else k)) (files s)\<rparr>"

text \<open>The result \<^const>\<open>None\<close> is an access outside an object: through the list head taken for a
  device, or behind the array of reference counts.\<close>

definition tlkm_ioctl_create_device ::
  "nat \<Rightarrow> dev_id_t \<Rightarrow> tlkm_access_t \<Rightarrow> bool \<Rightarrow> bool \<Rightarrow> tlkm_sys \<Rightarrow> (int \<times> tlkm_sys) option" where
  "tlkm_ioctl_create_device fd did a copy_ok kmalloc_ok s =
     (if \<not> copy_ok then Some (- EACCES, s)
      else if \<not> kmalloc_ok then Some (- ENOMEM, s)
      else case tlkm_bus_get_device (bus s) (ucast did) of
        Null \<Rightarrow> Some (- ENXIO, s)
      | Bogus_head \<Rightarrow> None
      | Dev p \<Rightarrow>
         (case device_at (bus s) p of
            None \<Rightarrow> None
          | Some d \<Rightarrow>
             (case tlkm_device_acquire a d of
                None \<Rightarrow> None
              | Some (ret, d') \<Rightarrow>
                  if ret \<noteq> 0 then Some (ret, s)
                  else Some (0, set_file fd ((p, a) # file_list fd s)
                                 (s\<lparr>bus := set_device p (\<lambda>_. d') (bus s)\<rparr>)))))"

definition tlkm_ioctl_destroy_device ::
  "nat \<Rightarrow> dev_id_t \<Rightarrow> tlkm_access_t \<Rightarrow> bool \<Rightarrow> tlkm_sys \<Rightarrow> (int \<times> tlkm_sys) option" where
  "tlkm_ioctl_destroy_device fd did a copy_ok s =
     (if \<not> copy_ok then Some (- EACCES, s)
      else case tlkm_bus_get_device (bus s) (ucast did) of
        Dev p \<Rightarrow>
         (if (p, a) \<in> set (file_list fd s)
          then (case device_at (bus s) p of
                  None \<Rightarrow> None
                | Some d \<Rightarrow>
                   (case tlkm_device_release a d of
                      None \<Rightarrow> None
                    | Some d' \<Rightarrow>
                        Some (0, set_file fd (remove1 (p, a) (file_list fd s))
                                   (s\<lparr>bus := set_device p (\<lambda>_. d') (bus s)\<rparr>))))
          else Some (- ENODEV, s))
      | _ \<Rightarrow> Some (- ENODEV, s))"

fun release_entries :: "dev_entry list \<Rightarrow> tlkm_bus \<Rightarrow> tlkm_bus option" where
  "release_entries [] b = Some b"
| "release_entries ((p, a) # l) b =
     (case device_at b p of
        None \<Rightarrow> None
      | Some d \<Rightarrow>
         (case tlkm_device_release a d of
            None \<Rightarrow> None
          | Some d' \<Rightarrow> release_entries l (set_device p (\<lambda>_. d') b)))"

definition tlkm_miscdev_release :: "nat \<Rightarrow> tlkm_sys \<Rightarrow> (int \<times> tlkm_sys) option" where
  "tlkm_miscdev_release fd s =
     (let s1 = count_open (- 1) s
      in case map_of (files s) fd of
           None \<Rightarrow> Some (- ENODEV, s1)
         | Some l \<Rightarrow>
            (case release_entries l (bus s1) of
               None \<Rightarrow> None
             | Some b \<Rightarrow> Some (0, s1\<lparr>bus := b, files := filter (\<lambda>(f, k). f \<noteq> fd) (files s1)\<rparr>)))"

text \<open>Enumeration: one entry per device of the array of ten in the reply. \<open>copy_ok\<close>: the copy to
  user space succeeds.\<close>

definition device_info :: "tlkm_device \<Rightarrow> tlkm_device_info" where
  "device_info d = \<lparr>i_dev_id = dev_id d, i_vendor_id = vendor_id d, i_product_id = product_id d,
     i_name = take 29 (dname d)\<rparr>"

fun enum_loop :: "tlkm_bus \<Rightarrow> nat \<Rightarrow> nat \<Rightarrow> (int \<times> tlkm_device_info list) option" where
  "enum_loop b i 0 = Some (0, [])"
| "enum_loop b i (Suc n) =
     (case tlkm_bus_get_device b (word_of_nat i) of
        Null \<Rightarrow> Some (- EFAULT, [])
      | Bogus_head \<Rightarrow> None
      | Dev p \<Rightarrow>
         (case device_at b p of
            None \<Rightarrow> None
          | Some d \<Rightarrow>
              if i < TLKM_DEVS_SZ
              then (case enum_loop b (i + 1) n of
                      None \<Rightarrow> None
                    | Some (r, l) \<Rightarrow> Some (r, device_info d # l))
              else None))"

definition tlkm_ioctl_enum_devices ::
  "bool \<Rightarrow> tlkm_sys \<Rightarrow> (int \<times> u64 \<times> tlkm_device_info list) option" where
  "tlkm_ioctl_enum_devices copy_ok s =
     (let n = tlkm_bus_num_devices (bus s)
      in case enum_loop (bus s) 0 (unat n) of
           None \<Rightarrow> None
         | Some (r, l) \<Rightarrow>
             if r \<noteq> 0 then Some (r, 0, [])
             else if \<not> copy_ok then Some (- EAGAIN, 0, []) else Some (0, n, l))"

text \<open>The version command copies the string to user space.\<close>

definition tlkm_ioctl_version :: "string \<Rightarrow> bool \<Rightarrow> int \<times> string" where
  "tlkm_ioctl_version ver copy_ok = (if copy_ok then (0, ver) else (- EACCES, []))"

text \<open>The dispatch of the main file. The reply is what a successful command copies to user space.\<close>

datatype tlkm_ioctl_cmd =
    Version | Enum_devices | Create_device dev_id_t tlkm_access_t | Destroy_device dev_id_t tlkm_access_t
  | Illegal_ioctl u32

datatype tlkm_reply = No_reply | Version_reply string | Devices_reply u64 "tlkm_device_info list"

fun tlkm_ioctl_ioctl :: "string \<Rightarrow> nat \<Rightarrow> bool \<Rightarrow> bool \<Rightarrow> tlkm_ioctl_cmd \<Rightarrow> tlkm_sys
    \<Rightarrow> (int \<times> tlkm_reply \<times> tlkm_sys) option" where
  "tlkm_ioctl_ioctl ver fd copy_ok kmalloc_ok Version s =
     (case tlkm_ioctl_version ver copy_ok of (r, v) \<Rightarrow> Some (r, Version_reply v, s))"
| "tlkm_ioctl_ioctl ver fd copy_ok kmalloc_ok Enum_devices s =
     map_option (\<lambda>(r, n, l). (r, Devices_reply n l, s)) (tlkm_ioctl_enum_devices copy_ok s)"
| "tlkm_ioctl_ioctl ver fd copy_ok kmalloc_ok (Create_device did a) s =
     map_option (\<lambda>(r, s'). (r, No_reply, s')) (tlkm_ioctl_create_device fd did a copy_ok kmalloc_ok s)"
| "tlkm_ioctl_ioctl ver fd copy_ok kmalloc_ok (Destroy_device did a) s =
     map_option (\<lambda>(r, s'). (r, No_reply, s')) (tlkm_ioctl_destroy_device fd did a copy_ok s)"
| "tlkm_ioctl_ioctl ver fd copy_ok kmalloc_ok (Illegal_ioctl n) s = Some (- EIO, No_reply, s)"

section \<open>Invariant: reference counts are the entries of the open files\<close>

definition entries :: "tlkm_sys \<Rightarrow> dev_entry multiset" where
  "entries s = mset (concat (map snd (files s)))"

definition counts_ok :: "dev_entry multiset \<Rightarrow> tlkm_bus \<Rightarrow> bool" where
  "counts_ok E b \<longleftrightarrow> distinct (map fst (devices b)) \<and> size E < 2 ^ 64
     \<and> (\<forall>p a. (p, a) \<in># E \<longrightarrow> p \<in> fst ` set (devices b))
     \<and> (\<forall>(p, d) \<in> set (devices b). dev_access_inv d \<and> (\<forall>a. dev_cnt d a = count E (p, a)))"

lemma count_open_simps [simp]:
  "files (count_open n s) = files s" "devices (bus (count_open n s)) = devices (bus s)"
  "counts_ok E (bus (count_open n s)) = counts_ok E (bus s)"
  by (simp_all add: count_open_def counts_ok_def)

definition sys_inv :: "tlkm_sys \<Rightarrow> bool" where
  "sys_inv s \<longleftrightarrow> distinct (map fst (files s)) \<and> counts_ok (entries s) (bus s)"

lemma counts_ok_device:
  assumes "counts_ok E b" and "device_at b p = Some d"
  shows "dev_access_inv d" and "dev_cnt d a = count E (p, a)" and "(p, d) \<in> set (devices b)"
proof -
  show m: "(p, d) \<in> set (devices b)" using assms(2) by (simp add: device_at_def map_of_SomeD)
  have "\<forall>(p, d) \<in> set (devices b). dev_access_inv d \<and> (\<forall>a. dev_cnt d a = count E (p, a))"
    using assms(1) by (simp add: counts_ok_def)
  with m show "dev_access_inv d" "dev_cnt d a = count E (p, a)" by fast+
qed

lemma counts_ok_known:
  assumes "counts_ok E b" and "(p, a) \<in># E"
  obtains d where "device_at b p = Some d"
proof -
  have "p \<in> fst ` set (devices b)" using assms by (auto simp: counts_ok_def)
  then show thesis using that by (auto simp: device_at_def dest: weak_map_of_SomeI)
qed

lemma sum_count_le:
  assumes "finite A"
  shows "sum (count E) A \<le> size E"
proof -
  have "sum (count E) A = sum (count E) (A \<inter> set_mset E)"
    using assms by (intro sum.mono_neutral_right) (auto simp: not_in_iff)
  also have "\<dots> \<le> sum (count E) (set_mset E)" by (rule sum_mono2) auto
  finally show ?thesis by (simp add: size_multiset_overloaded_eq)
qed

lemma counts_ok_sum:
  assumes "counts_ok E b" and "device_at b p = Some d"
  shows "sum (dev_cnt d) dev_modes \<le> size E"
proof -
  have fin: "finite dev_modes" by (rule dev_refs.finite_modes)
  have "sum (dev_cnt d) dev_modes = sum (count E) (Pair p ` dev_modes)"
    using counts_ok_device(2) [OF assms] by (simp add: sum.reindex inj_on_def)
  also have "\<dots> \<le> size E" using fin by (intro sum_count_le) simp
  finally show ?thesis .
qed

text \<open>Replacing one device's counts along with the entries.\<close>

lemma counts_ok_set:
  assumes "counts_ok E b" and "device_at b p = Some d" and "dev_access_inv d'"
    and "\<And>a. dev_cnt d' a = count E' (p, a)" and "\<And>q a. q \<noteq> p \<Longrightarrow> count E' (q, a) = count E (q, a)"
    and "size E' < 2 ^ 64"
  shows "counts_ok E' (set_device p (\<lambda>_. d') b)"
proof -
  have fst_eq: "map fst (devices (set_device p (\<lambda>_. d') b)) = map fst (devices b)"
    by (simp add: set_device_def comp_def case_prod_beta)
  have p: "p \<in> fst ` set (devices b)"
    using counts_ok_device(3) [OF assms(1,2)] by force
  have known: "q \<in> fst ` set (devices b)" if "(q, a) \<in># E'" for q a
  proof (cases "q = p")
    case False
    then have "(q, a) \<in># E" using that assms(5) [of q a] by (simp flip: count_greater_zero_iff)
    then show ?thesis using assms(1) unfolding counts_ok_def by blast
  qed (use p in simp)
  have dev: "dev_access_inv e \<and> (\<forall>a. dev_cnt e a = count E' (q, a))"
    if mem: "(q, e) \<in> set (devices (set_device p (\<lambda>_. d') b))" for q e
  proof -
    obtain e0 where e0: "(q, e0) \<in> set (devices b)" "e = (if q = p then d' else e0)"
      using mem by (auto simp: set_device_def)
    have "dev_access_inv e0 \<and> (\<forall>a. dev_cnt e0 a = count E (q, a))"
      using assms(1) e0(1) unfolding counts_ok_def by fast
    with e0(2) assms(3-5) show ?thesis by simp
  qed
  have ptrs: "fst ` set (devices (set_device p (\<lambda>_. d') b)) = fst ` set (devices b)"
    using arg_cong [OF fst_eq, of set] by simp
  have "distinct (map fst (devices b))" using assms(1) by (simp add: counts_ok_def)
  then show ?thesis
    unfolding counts_ok_def fst_eq ptrs using known assms(6) dev by blast
qed

lemma acquire_counts:
  assumes "counts_ok E b" and "device_at b p = Some d" and "tlkm_device_acquire a d = Some (0, d')"
    and "size E < 2 ^ 64 - 1"
  shows "counts_ok (add_mset (p, a) E) (set_device p (\<lambda>_. d') b)"
proof -
  have "sum (dev_cnt d) dev_modes < 2 ^ 64 - 1"
    using counts_ok_sum [OF assms(1,2)] assms(4) by simp
  then have "dev_access_inv d'" "dev_cnt d' = (dev_cnt d)(a := dev_cnt d a + 1)"
    using dev_refs.acquire_granted [OF counts_ok_device(1) [OF assms(1,2)] _ assms(3)] by simp_all
  then show ?thesis
    using counts_ok_device(2) [OF assms(1,2)] assms(4)
    by (intro counts_ok_set [OF assms(1,2)]) auto
qed

lemma release_counts:
  assumes "counts_ok (add_mset (p, a) E) b"
  obtains d d' where "device_at b p = Some d" "tlkm_device_release a d = Some d'"
    "counts_ok E (set_device p (\<lambda>_. d') b)"
proof -
  obtain d where d: "device_at b p = Some d" using counts_ok_known [OF assms, of p a] by auto
  note dev = counts_ok_device [OF assms d]
  have sz: "size E < 2 ^ 64 - 1" using assms by (simp add: counts_ok_def)
  then have "sum (dev_cnt d) dev_modes \<le> 2 ^ 64 - 1"
    using counts_ok_sum [OF assms d] by simp
  then obtain d' where d': "tlkm_device_release a d = Some d'" "dev_access_inv d'"
      "dev_cnt d' = (dev_cnt d)(a := dev_cnt d a - 1)"
    using dev_refs.release_held [OF dev(1), of a] dev(2) [of a] by auto
  have "counts_ok E (set_device p (\<lambda>_. d') b)"
    using d'(2,3) dev(2) sz by (intro counts_ok_set [OF assms d]) auto
  with d d'(1) show thesis by (rule that)
qed

lemma release_entries_counts:
  assumes "counts_ok (mset l + E) b"
  shows "\<exists>b'. release_entries l b = Some b' \<and> counts_ok E b'
    \<and> map fst (devices b') = map fst (devices b)"
  using assms
proof (induction l arbitrary: b)
  case (Cons x l)
  obtain p a where x: "x = (p, a)" by (cases x)
  have "counts_ok (add_mset (p, a) (mset l + E)) b" using Cons.prems by (simp add: x)
  then obtain d d' where "device_at b p = Some d" "tlkm_device_release a d = Some d'"
    "counts_ok (mset l + E) (set_device p (\<lambda>_. d') b)" by (rule release_counts)
  moreover have "map fst (devices (set_device p (\<lambda>_. d') b)) = map fst (devices b)"
    by (simp add: set_device_def comp_def case_prod_beta)
  ultimately show ?case using Cons.IH [of "set_device p (\<lambda>_. d') b"] by (simp add: x)
qed simp

text \<open>Replacing, or dropping, the list of one open file.\<close>

lemma files_split:
  assumes "distinct (map fst fs)" and "map_of fs fd = Some l"
  obtains xs ys where "fs = xs @ (fd, l) # ys" "fd \<notin> fst ` set xs" "fd \<notin> fst ` set ys"
proof -
  obtain xs ys where fs: "fs = xs @ (fd, l) # ys"
    using split_list [OF map_of_SomeD [OF assms(2)]] by blast
  with assms(1) that show thesis by auto
qed

lemma entries_set_file:
  assumes "distinct (map fst (files s))" and "map_of (files s) fd = Some l"
  shows "entries (set_file fd l' s) + mset l = entries s + mset l'"
    and "map fst (files (set_file fd l' s)) = map fst (files s)"
proof -
  obtain xs ys where fs: "files s = xs @ (fd, l) # ys" "fd \<notin> fst ` set xs" "fd \<notin> fst ` set ys"
    using files_split [OF assms] by blast
  have same: "map (\<lambda>(f, k). (f, if f = fd then l' else k)) zs = zs" if "fd \<notin> fst ` set zs" for zs
    using that by (intro map_idI) force
  show "entries (set_file fd l' s) + mset l = entries s + mset l'"
    using fs by (simp add: entries_def set_file_def same)
  show "map fst (files (set_file fd l' s)) = map fst (files s)"
    by (simp add: set_file_def comp_def case_prod_beta)
qed

lemma entries_close:
  assumes "distinct (map fst (files s))" and "map_of (files s) fd = Some l"
  shows "mset (concat (map snd (filter (\<lambda>(f, k). f \<noteq> fd) (files s)))) + mset l = entries s"
proof -
  obtain xs ys where fs: "files s = xs @ (fd, l) # ys" "fd \<notin> fst ` set xs" "fd \<notin> fst ` set ys"
    using files_split [OF assms] by blast
  have same: "filter (\<lambda>(f, k). f \<noteq> fd) zs = zs" if "fd \<notin> fst ` set zs" for zs :: "(nat \<times> dev_entry list) list"
    using that by (force simp: filter_id_conv)
  show ?thesis using fs by (simp add: entries_def same)
qed

lemma create_inv:
  assumes "sys_inv s" and "fd \<in> fst ` set (files s)" and "size (entries s) < 2 ^ 64 - 1"
    and "tlkm_ioctl_create_device fd did a cp ok s = Some (r, s')"
  shows "sys_inv s'"
proof (cases "r = 0")
  case False
  then have "s' = s"
    using assms(4) by (auto simp: tlkm_ioctl_create_device_def split: if_splits option.splits bus_ref.splits)
  with assms(1) show ?thesis by simp
next
  case True
  then obtain p d d' where d: "device_at (bus s) p = Some d" "tlkm_device_acquire a d = Some (0, d')"
      "s' = set_file fd ((p, a) # file_list fd s) (s\<lparr>bus := set_device p (\<lambda>_. d') (bus s)\<rparr>)"
    using assms(4) by (auto simp: tlkm_ioctl_create_device_def ENOMEM_def ENXIO_def EACCES_def
        split: if_splits option.splits bus_ref.splits)
  let ?t = "s\<lparr>bus := set_device p (\<lambda>_. d') (bus s)\<rparr>"
  obtain l where l: "map_of (files s) fd = Some l" using assms(2) by (auto dest: weak_map_of_SomeI)
  have dist: "distinct (map fst (files ?t))" and cnt: "counts_ok (entries s) (bus s)"
    using assms(1) by (simp_all add: sys_inv_def)
  have "entries s' + mset l = entries ?t + mset ((p, a) # l)"
    using entries_set_file(1) [OF dist, of fd l "(p, a) # l"] l d(3) by (simp add: file_list_def)
  then have "entries s' = add_mset (p, a) (entries s)" by (simp add: entries_def)
  moreover have "bus s' = bus ?t" "map fst (files s') = map fst (files s)"
    using d(3) entries_set_file(2) [OF dist, of fd l] l by (simp_all add: set_file_def comp_def case_prod_beta)
  ultimately show ?thesis
    using acquire_counts [OF cnt d(1,2) assms(3)] dist by (simp add: sys_inv_def)
qed

lemma destroy_inv:
  assumes "sys_inv s" and "tlkm_ioctl_destroy_device fd did a cp s = Some (r, s')"
  shows "sys_inv s'"
proof (cases "s' = s")
  case False
  then obtain p d d' where d: "(p, a) \<in> set (file_list fd s)" "device_at (bus s) p = Some d"
      "tlkm_device_release a d = Some d'"
      "s' = set_file fd (remove1 (p, a) (file_list fd s)) (s\<lparr>bus := set_device p (\<lambda>_. d') (bus s)\<rparr>)"
    using assms(2) by (auto simp: tlkm_ioctl_destroy_device_def split: if_splits option.splits bus_ref.splits)
  let ?t = "s\<lparr>bus := set_device p (\<lambda>_. d') (bus s)\<rparr>"
  obtain l where l: "map_of (files s) fd = Some l" "file_list fd s = l" "(p, a) \<in> set l"
    using d(1) by (cases "map_of (files s) fd") (auto simp: file_list_def)
  have dist: "distinct (map fst (files ?t))" and cnt: "counts_ok (entries s) (bus s)"
    using assms(1) by (simp_all add: sys_inv_def)
  have "entries s' + mset l = entries ?t + mset (remove1 (p, a) l)"
    using entries_set_file(1) [OF dist, of fd l "remove1 (p, a) l"] l d(4) by simp
  moreover obtain M where M: "mset l = add_mset (p, a) M"
    using l(3) by (metis multi_member_split set_mset_mset)
  moreover have "mset (remove1 (p, a) l) = M" by (simp add: M)
  moreover have "entries ?t = entries s" by (simp add: entries_def)
  ultimately have E: "entries s = add_mset (p, a) (entries s')" by simp
  obtain e e' where "device_at (bus s) p = Some e" "tlkm_device_release a e = Some e'"
      "counts_ok (entries s') (set_device p (\<lambda>_. e') (bus s))"
    using release_counts cnt unfolding E by blast
  moreover have "bus s' = bus ?t" "map fst (files s') = map fst (files s)"
    using d(4) entries_set_file(2) [OF dist, of fd l] l by (simp_all add: set_file_def comp_def case_prod_beta)
  ultimately show ?thesis using d dist by (simp add: sys_inv_def)
qed (use assms in simp)

lemma release_inv:
  assumes "sys_inv s" and "map_of (files s) fd = Some l"
  shows "\<exists>s'. tlkm_miscdev_release fd s = Some (0, s') \<and> sys_inv s'
    \<and> fst ` set (files s') = fst ` set (files s) - {fd}"
proof -
  have dist: "distinct (map fst (files s))" and cnt: "counts_ok (entries s) (bus s)"
    using assms(1) by (simp_all add: sys_inv_def)
  let ?fs = "filter (\<lambda>(f, k). f \<noteq> fd) (files s)"
  have "counts_ok (mset l + mset (concat (map snd ?fs))) (bus (count_open (- 1) s))"
    using cnt entries_close [OF dist assms(2)] by (simp add: ac_simps)
  from release_entries_counts [OF this] obtain b where
    b: "release_entries l (bus (count_open (- 1) s)) = Some b" "counts_ok (mset (concat (map snd ?fs))) b" by blast
  have "distinct (map fst ?fs)" using dist by (simp add: distinct_map_filter)
  with b assms(2) show ?thesis
    by (force simp: tlkm_miscdev_release_def Let_def sys_inv_def entries_def)
qed

section \<open>Properties\<close>

text \<open>Reachable states, for a fixed set of devices nobody uses yet. Every list entry occupies
  memory of a 64-bit address space, so there are fewer than \<open>2^64 - 1\<close> before one is added.\<close>

inductive sys_reach :: "tlkm_sys \<Rightarrow> bool" where
  sys_start: "distinct (map fst (devices b)) \<Longrightarrow> \<forall>(p, d) \<in> set (devices b). ref_cnt d = [0, 0, 0] \<Longrightarrow>
    sys_reach \<lparr>bus = b, files = []\<rparr>"
| sys_open: "sys_reach s \<Longrightarrow> fd \<notin> fst ` set (files s) \<Longrightarrow>
    sys_reach (snd (tlkm_miscdev_open fd ok s))"
| sys_create: "sys_reach s \<Longrightarrow> fd \<in> fst ` set (files s) \<Longrightarrow> size (entries s) < 2 ^ 64 - 1 \<Longrightarrow>
    tlkm_ioctl_create_device fd did a cp ok s = Some (r, s') \<Longrightarrow> sys_reach s'"
| sys_destroy: "sys_reach s \<Longrightarrow> tlkm_ioctl_destroy_device fd did a cp s = Some (r, s') \<Longrightarrow> sys_reach s'"
| sys_close: "sys_reach s \<Longrightarrow> fd \<in> fst ` set (files s) \<Longrightarrow>
    tlkm_miscdev_release fd s = Some (r, s') \<Longrightarrow> sys_reach s'"

lemma sys_reach_inv: "sys_reach s \<Longrightarrow> sys_inv s"
proof (induction rule: sys_reach.induct)
  case (sys_start b)
  have "dev_cnt d a = 0" if "ref_cnt d = [0, 0, 0]" for d a
    using that by (auto simp: dev_cnt_def dev_modes_def access_const)
  moreover from this have "dev_access_inv d" if "ref_cnt d = [0, 0, 0]" for d
    using that by (simp add: dev_access_inv_def)
  ultimately show ?case using sys_start by (fastforce simp: sys_inv_def counts_ok_def entries_def)
next
  case (sys_open s fd ok)
  then show ?case by (auto simp: tlkm_miscdev_open_def Let_def sys_inv_def entries_def)
next
  case (sys_close s fd r s')
  then obtain l where "map_of (files s) fd = Some l" by (auto dest: weak_map_of_SomeI)
  with release_inv [of s fd l] sys_close show ?case by auto
qed (auto intro: create_inv destroy_inv)

text \<open>C4: In every state reachable by opening and closing files and by creating and destroying
  handles (with any device ids and modes from user space), the reference count of each
  device and mode is exactly the number of entries for it in the device lists of the open
  files; a device has at most one exclusive user, and then no shared one.\<close>

theorem tlkm_access_discipline:
  assumes "sys_reach s" and "(p, d) \<in> set (devices (bus s))"
  shows "(\<forall>a. dev_cnt d a = count (entries s) (p, a))
    \<and> count (entries s) (p, TLKM_ACCESS_EXCLUSIVE) \<le> 1
    \<and> (count (entries s) (p, TLKM_ACCESS_EXCLUSIVE) = 1 \<longrightarrow>
         count (entries s) (p, TLKM_ACCESS_SHARED) = 0)"
proof -
  have inv: "dev_access_inv d \<and> (\<forall>a. dev_cnt d a = count (entries s) (p, a))"
    using sys_reach_inv [OF assms(1)] assms(2) unfolding sys_inv_def counts_ok_def by fast
  then show ?thesis unfolding dev_access_inv_def by metis
qed

definition demo_sys0 :: tlkm_sys where
  "demo_sys0 = \<lparr>bus = \<lparr>devices = [(4096, zero_device (demo_class ''zynq'') 0 0)], num_devs = 1, is_setup = True,
      opened_counter = 0, bus_calls = []\<rparr>,
     files = []\<rparr>"

lemma demo_sys0_reach: "sys_reach demo_sys0"
  unfolding demo_sys0_def
  by (rule sys_start) (simp_all add: zero_device_def TLKM_ACCESS_TYPES_def numeral_3_eq_3)

theorem tlkm_access_discipline_witness:
  "\<exists>s. sys_reach s \<and> count (entries s) (4096, TLKM_ACCESS_EXCLUSIVE) = 1
    \<and> count (entries s) (4096, TLKM_ACCESS_SHARED) = 0"
proof -
  let ?s1 = "snd (tlkm_miscdev_open 3 True demo_sys0)"
  let ?d = "zero_device (demo_class ''zynq'') 0 0"
  have r1: "sys_reach ?s1" by (rule sys_open [OF demo_sys0_reach]) (simp add: demo_sys0_def)
  have get: "tlkm_bus_get_device (bus ?s1) 0 = Dev 4096"
    by (simp add: get_device_eq demo_sys0_def tlkm_miscdev_open_def)
  have "\<exists>s'. tlkm_ioctl_create_device 3 0 TLKM_ACCESS_EXCLUSIVE True True ?s1 = Some (0, s')
      \<and> entries s' = {#(4096, TLKM_ACCESS_EXCLUSIVE)#}"
    using get
    by (simp add: tlkm_ioctl_create_device_def demo_sys0_def tlkm_miscdev_open_def device_at_def
        tlkm_device_acquire_def zero_device_def access_const set_file_def file_list_def entries_def)
  then obtain s' where c: "tlkm_ioctl_create_device 3 0 TLKM_ACCESS_EXCLUSIVE True True ?s1 = Some (0, s')"
    and e: "entries s' = {#(4096, TLKM_ACCESS_EXCLUSIVE)#}" by blast
  have r2: "sys_reach s'"
    by (rule sys_create [OF r1 _ _ c]) (simp_all add: demo_sys0_def tlkm_miscdev_open_def entries_def)
  obtain d where "(4096, d) \<in> set (devices (bus s'))"
    using sys_reach_inv [OF r2] e unfolding sys_inv_def counts_ok_def by fastforce
  from tlkm_access_discipline [OF r2 this] e r2 show ?thesis by (intro exI [of _ s']) simp
qed

text \<open>C11: Closing a file gives back everything acquired through it: the close succeeds, and
  when the last open file is closed the reference counts of all devices are zero.\<close>

theorem tlkm_close_releases_all:
  assumes "sys_reach s" and "fst ` set (files s) = {fd}"
  shows "\<exists>s'. tlkm_miscdev_release fd s = Some (0, s') \<and> files s' = []
    \<and> (\<forall>(p, d) \<in> set (devices (bus s')). \<forall>a. dev_cnt d a = 0)"
proof -
  obtain l where l: "map_of (files s) fd = Some l"
    using assms(2) by (metis map_of_eq_None_iff insertI1 option.exhaust)
  obtain s' where r: "tlkm_miscdev_release fd s = Some (0, s')" "sys_inv s'"
      "fst ` set (files s') = fst ` set (files s) - {fd}"
    using release_inv [OF sys_reach_inv [OF assms(1)] l] by blast
  then have nil: "files s' = []" using assms(2) by simp
  have "dev_cnt d a = 0" if "(p, d) \<in> set (devices (bus s'))" for p d a
  proof -
    have "dev_cnt d a = count (entries s') (p, a)"
      using r(2) that unfolding sys_inv_def counts_ok_def by fast
    then show ?thesis by (simp add: entries_def nil)
  qed
  with r(1) nil show ?thesis by blast
qed

theorem tlkm_close_releases_all_witness:
  "\<exists>s'. tlkm_miscdev_release 3 (snd (tlkm_miscdev_open 3 True demo_sys0)) = Some (0, s') \<and> files s' = []"
proof -
  have "sys_reach (snd (tlkm_miscdev_open 3 True demo_sys0))"
    by (rule sys_open [OF demo_sys0_reach]) (simp add: demo_sys0_def)
  from tlkm_close_releases_all [OF this, of 3] show ?thesis
    by (auto simp: demo_sys0_def tlkm_miscdev_open_def)
qed

lemma enum_loop_all:
  assumes "bus_wf b" and "i + n = length (devices b)" and "length (devices b) \<le> TLKM_DEVS_SZ"
  shows "enum_loop b i n = Some (0, map (device_info \<circ> snd) (drop i (devices b)))"
  using assms
proof (induction b i n rule: enum_loop.induct)
  case (2 b i n)
  have i: "i < length (devices b)" using 2 by simp
  then have u: "unat (word_of_nat i :: u64) = i"
    using 2 by (simp add: unat_of_nat take_bit_nat_eq_self TLKM_DEVS_SZ_def)
  have get: "tlkm_bus_get_device b (word_of_nat i) = Dev (fst (devices b ! i))"
    using get_device_in_range [of "word_of_nat i" b] i u by simp
  have at: "device_at b (fst (devices b ! i)) = Some (snd (devices b ! i))"
    using 2(2) i by (simp add: bus_wf_def device_at_def)
  have "enum_loop b (i + 1) n = Some (0, map (device_info \<circ> snd) (drop (i + 1) (devices b)))"
    using 2 get at i by simp
  with get at i 2 show ?case by (simp add: Cons_nth_drop_Suc [symmetric])
qed simp

text \<open>C12: For up to ten devices (the size of the reply) enumeration reports every device of the
  bus, in order, with its own id, vendor, product and name.\<close>

theorem tlkm_enum_devices_complete:
  assumes "bus_wf (bus s)" and "length (devices (bus s)) \<le> TLKM_DEVS_SZ"
  shows "tlkm_ioctl_enum_devices True s =
    Some (0, word_of_nat (length (devices (bus s))), map (device_info \<circ> snd) (devices (bus s)))"
proof -
  let ?n = "length (devices (bus s))"
  have u: "unat (word_of_nat ?n :: u64) = ?n"
    using assms(2) by (simp add: unat_of_nat take_bit_nat_eq_self TLKM_DEVS_SZ_def)
  have "num_devs (bus s) = word_of_nat ?n" using assms(1) by (simp add: bus_wf_def)
  with u enum_loop_all [OF assms(1) _ assms(2), of 0 ?n] show ?thesis
    by (simp add: tlkm_ioctl_enum_devices_def tlkm_bus_num_devices_def)
qed

theorem tlkm_enum_devices_complete_witness:
  "tlkm_ioctl_enum_devices True demo_sys0 =
     Some (0, 1, [device_info (zero_device (demo_class ''zynq'') 0 0)])"
  using tlkm_enum_devices_complete [of demo_sys0]
  by (simp add: demo_sys0_def bus_wf_def TLKM_DEVS_SZ_def)

text \<open>With an eleventh device the reply is written behind its array.\<close>

lemma enum_loop_overflow:
  "i \<ge> TLKM_DEVS_SZ \<Longrightarrow> tlkm_bus_get_device b (word_of_nat i) = Dev p \<Longrightarrow>
     enum_loop b i (Suc n) = None"
  by (simp split: option.split)

end
