(* ===== verification/Svm_Alloc.thy ===== *)
theory Svm_Alloc
  imports Tlkm_Prelude
begin

text \<open>
  The allocator of device memory for shared virtual memory, \<^verbatim>\<open>pcie/pcie_svm.c\<close>: a list of
  free blocks, sorted by address, first fit, neighbours merged on release. Addresses and
  sizes are 64-bit; the sets of addresses they stand for are sets of naturals. \<open>kmalloc_ok\<close>
  says whether a list entry can be allocated when one is needed.
\<close>

section \<open>Operations\<close>

record device_memory_block =
  base_addr :: u64
  bsize :: u64

definition create_mem_block_entry :: "bool \<Rightarrow> u64 \<Rightarrow> u64 \<Rightarrow> device_memory_block option" where
  "create_mem_block_entry kmalloc_ok a n =
     (if kmalloc_ok then Some \<lparr>base_addr = a, bsize = n\<rparr> else None)"

text \<open>The search loop; -1 for failure.\<close>

fun allocate_device_memory :: "u64 \<Rightarrow> device_memory_block list \<Rightarrow> u64 \<times> device_memory_block list" where
  "allocate_device_memory n [] = (- 1, [])"
| "allocate_device_memory n (b # bs) =
     (if bsize b \<ge> n
      then (base_addr b,
            if bsize b - n \<noteq> 0
            then b\<lparr>bsize := bsize b - n, base_addr := base_addr b + n\<rparr> # bs
            else bs)
      else let (a, bs') = allocate_device_memory n bs in (a, b # bs'))"

fun opt_list :: "'a option \<Rightarrow> 'a list" where
  "opt_list None = []"
| "opt_list (Some x) = [x]"

text \<open>The loop of \<^verbatim>\<open>free_device_memory\<close> with \<^verbatim>\<open>prev_mem_block\<close> in \<open>prev\<close>; the result starts with the
  previous block, if there is one.\<close>

fun free_loop :: "bool \<Rightarrow> u64 \<Rightarrow> u64 \<Rightarrow> device_memory_block option \<Rightarrow> device_memory_block list
    \<Rightarrow> device_memory_block list" where
  "free_loop ok a n prev [] = opt_list prev @ opt_list (create_mem_block_entry ok a n)"
| "free_loop ok a n prev (b # bs) =
     (if base_addr b > a
      then (case prev of
              Some p \<Rightarrow>
                if base_addr p + bsize p = a
                then (if a + n = base_addr b
                      then p\<lparr>bsize := bsize p + (n + bsize b)\<rparr> # bs
                      else p\<lparr>bsize := bsize p + n\<rparr> # b # bs)
                else if a + n = base_addr b
                then p # b\<lparr>base_addr := a, bsize := bsize b + n\<rparr> # bs
                else p # opt_list (create_mem_block_entry ok a n) @ b # bs
            | None \<Rightarrow>
                if a + n = base_addr b
                then b\<lparr>base_addr := a, bsize := bsize b + n\<rparr> # bs
                else opt_list (create_mem_block_entry ok a n) @ b # bs)
      else if bs = []
      then opt_list prev @
           (if base_addr b + bsize b = a then [b\<lparr>bsize := bsize b + n\<rparr>]
            else b # opt_list (create_mem_block_entry ok a n))
      else opt_list prev @ free_loop ok a n (Some b) bs)"

definition free_device_memory ::
  "bool \<Rightarrow> u64 \<Rightarrow> u64 \<Rightarrow> device_memory_block list \<Rightarrow> device_memory_block list" where
  "free_device_memory kmalloc_ok a n bs =
     (if bs = [] then opt_list (create_mem_block_entry kmalloc_ok a n)
      else free_loop kmalloc_ok a n None bs)"

text \<open>Device pages. A \<^verbatim>\<open>struct page\<close> of device memory is given by its page frame number; neighbouring
  entries of the kernel's page array are neighbouring frames.\<close>

definition PAGE_SHIFT :: nat where
  [tlkm_const]: "PAGE_SHIFT = 12"
definition PAGE_SIZE :: u64 where
  [tlkm_const]: "PAGE_SIZE = 4096"
definition PHYS_MEM_SIZE :: u64 where
  [tlkm_const]: "PHYS_MEM_SIZE = push_bit 30 4"

definition dev_addr_to_pfn :: "u64 \<Rightarrow> u64 \<Rightarrow> u64" where
  "dev_addr_to_pfn base_pfn dev_addr = drop_bit PAGE_SHIFT dev_addr + base_pfn"

definition pfn_to_dev_addr :: "u64 \<Rightarrow> u64 \<Rightarrow> u64" where
  "pfn_to_dev_addr base_pfn pfn = push_bit PAGE_SHIFT (pfn - base_pfn)"

definition is_contiguous_page :: "u64 \<Rightarrow> u64 \<Rightarrow> bool" where
  "is_contiguous_page page prev = (page = prev + 1)"

text \<open>The inner and the outer loop of \<^verbatim>\<open>handle_device_pages_free\<close>; \<open>ok k\<close> says whether the list
  entry needed by the \<open>k\<close>-th release can be allocated.\<close>

fun ncontiguous :: "u64 list \<Rightarrow> nat" where
  "ncontiguous (p # q # ps) = (if is_contiguous_page q p then Suc (ncontiguous (q # ps)) else 1)"
| "ncontiguous ps = 1"

lemma ncontiguous_pos [simp]: "0 < ncontiguous ps"
  by (induction ps rule: ncontiguous.induct) simp_all

function handle_device_pages_free ::
  "(nat \<Rightarrow> bool) \<Rightarrow> u64 \<Rightarrow> u64 list \<Rightarrow> device_memory_block list \<Rightarrow> device_memory_block list" where
  "handle_device_pages_free ok base_pfn [] bs = bs"
| "handle_device_pages_free ok base_pfn (p # ps) bs =
     (let n = ncontiguous (p # ps)
      in handle_device_pages_free (ok \<circ> Suc) base_pfn (drop n (p # ps))
           (free_device_memory (ok 0) (pfn_to_dev_addr base_pfn p) (word_of_nat n * PAGE_SIZE) bs))"
  by pat_completeness auto
termination
  by (relation "measure (\<lambda>(ok, b, ps, bs). length ps)") (simp_all add: Suc_le_eq)

definition handle_device_memory_free ::
  "bool \<Rightarrow> u64 \<Rightarrow> u64 \<Rightarrow> device_memory_block list \<Rightarrow> device_memory_block list" where
  "handle_device_memory_free kmalloc_ok dev_addr n bs = free_device_memory kmalloc_ok dev_addr n bs"

section \<open>Invariant and abstraction\<close>

definition region :: "u64 \<Rightarrow> u64 \<Rightarrow> nat set" where
  "region a n = {unat a ..< unat a + unat n}"

definition block_end :: "device_memory_block \<Rightarrow> nat" where
  "block_end b = unat (base_addr b) + unat (bsize b)"

text \<open>Blocks above \<open>lo\<close>, not empty, inside the address space, with a gap between neighbours.\<close>

fun blocks_ok :: "nat \<Rightarrow> device_memory_block list \<Rightarrow> bool" where
  "blocks_ok lo [] \<longleftrightarrow> True"
| "blocks_ok lo (b # bs) \<longleftrightarrow> lo \<le> unat (base_addr b) \<and> 0 < bsize b \<and> block_end b < 2 ^ 64
     \<and> blocks_ok (block_end b + 1) bs"

definition mem_inv :: "device_memory_block list \<Rightarrow> bool" where
  "mem_inv bs \<longleftrightarrow> blocks_ok 0 bs"

fun mem_free :: "device_memory_block list \<Rightarrow> nat set" where
  "mem_free [] = {}"
| "mem_free (b # bs) = region (base_addr b) (bsize b) \<union> mem_free bs"

lemma blocks_ok_mono: "blocks_ok hi bs \<Longrightarrow> lo \<le> hi \<Longrightarrow> blocks_ok lo bs"
  by (cases bs) auto

lemma mem_free_lower: "blocks_ok lo bs \<Longrightarrow> x \<in> mem_free bs \<Longrightarrow> lo \<le> x"
  by (induction bs arbitrary: lo) (fastforce simp: region_def block_end_def)+

lemma mem_free_upper: "blocks_ok lo bs \<Longrightarrow> x \<in> mem_free bs \<Longrightarrow> x < 2 ^ 64"
  by (induction bs arbitrary: lo) (fastforce simp: region_def block_end_def)+

lemma unat_add_64: "unat (a :: u64) + unat b < 2 ^ 64 \<Longrightarrow> unat (a + b) = unat a + unat b"
  by (simp add: unat_word_ariths)

lemma region_empty_iff: "region a n = {} \<longleftrightarrow> n = 0"
  by (auto simp: region_def word_unat_eq_iff)

lemma in_region: "x \<in> region a n \<longleftrightarrow> unat a \<le> x \<and> x < unat a + unat n"
  by (simp add: region_def)

section \<open>Allocation\<close>

lemma split_block:
  assumes "block_end b < 2 ^ 64" and "n \<le> bsize b" and "b' = b\<lparr>bsize := bsize b - n, base_addr := base_addr b + n\<rparr>"
  shows "unat (base_addr b') = unat (base_addr b) + unat n" "unat (bsize b') = unat (bsize b) - unat n"
    "block_end b' = block_end b"
proof -
  have n: "unat n \<le> unat (bsize b)" using assms(2) by (simp add: word_le_nat_alt)
  show base: "unat (base_addr b') = unat (base_addr b) + unat n"
    using assms(1,3) n by (simp add: block_end_def unat_add_64)
  show sz: "unat (bsize b') = unat (bsize b) - unat n"
    using assms(2,3) by (simp add: unat_sub)
  show "block_end b' = block_end b" using base sz n by (simp add: block_end_def)
qed

lemma allocate_ok:
  assumes "blocks_ok lo bs" and "0 < n" and "allocate_device_memory n bs = (a, bs')" and "a \<noteq> - 1"
  shows "blocks_ok lo bs' \<and> region a n \<subseteq> mem_free bs \<and> mem_free bs' = mem_free bs - region a n
    \<and> unat a + unat n < 2 ^ 64"
  using assms
proof (induction n bs arbitrary: lo bs' rule: allocate_device_memory.induct)
  case (2 n b bs)
  have above: "x \<notin> region (base_addr b) (bsize b)" if "x \<in> mem_free bs" for x
    using mem_free_lower [OF _ that, of "block_end b + 1"] 2(2) by (auto simp: in_region block_end_def)
  show ?case
  proof (cases "n \<le> bsize b")
    case True
    let ?b' = "b\<lparr>bsize := bsize b - n, base_addr := base_addr b + n\<rparr>"
    have a: "a = base_addr b" using 2(4) True by simp
    have n: "unat n \<le> unat (bsize b)" using True by (simp add: word_le_nat_alt)
    have sub: "region a n \<subseteq> region (base_addr b) (bsize b)" using a n by (auto simp: in_region)
    show ?thesis
    proof (cases "bsize b = n")
      case eq: True
      then have "bs' = bs" "region a n = region (base_addr b) (bsize b)" using 2(4) True a by simp_all
      with 2(2) above eq show ?thesis
        by (auto intro: blocks_ok_mono simp: block_end_def a)
    next
      case False
      then have bs': "bs' = ?b' # bs" using 2(4) True by auto
      have end1: "block_end b < 2 ^ 64" using 2(2) by simp
      note sp = split_block [OF end1 True refl]
      have lt: "unat n < unat (bsize b)" using n False by (simp add: word_unat_eq_iff)
      have reg: "region (base_addr ?b') (bsize ?b') = region (base_addr b) (bsize b) - region a n"
        using sp n by (auto simp: region_def a)
      have "blocks_ok lo bs'" using 2(2) sp lt unfolding bs' by (simp add: word_less_nat_alt)
      moreover have "mem_free bs' = mem_free (b # bs) - region a n"
        unfolding bs' using reg above sub by auto
      ultimately show ?thesis using sub end1 n by (auto simp: a block_end_def)
    qed
  next
    case False
    then obtain bs1 where rec: "allocate_device_memory n bs = (a, bs1)" "bs' = b # bs1"
      using 2(4) by (auto split: prod.splits)
    have "blocks_ok (block_end b + 1) bs" using 2(2) by simp
    from 2(1) [OF False this 2(3) rec(1) 2(5)] 2(2) rec(2) above show ?thesis by auto
  qed
qed simp

lemma allocate_fails:
  assumes "blocks_ok lo bs" and "0 < n" and "allocate_device_memory n bs = (- 1, bs')"
  shows "bs' = bs \<and> (\<forall>b \<in> set bs. bsize b < n)"
  using assms
proof (induction n bs arbitrary: lo bs' rule: allocate_device_memory.induct)
  case (2 n b bs)
  have "base_addr b \<noteq> - 1"
  proof
    assume "base_addr b = - 1"
    then have "unat (base_addr b) = 2 ^ 64 - 1" by (simp add: unsigned_minus_1_eq_mask mask_eq_exp_minus_1)
    with 2(2) show False by (auto simp: block_end_def word_less_nat_alt)
  qed
  then have "\<not> n \<le> bsize b" using 2(4) by (auto split: if_splits)
  with 2 show ?case by (auto split: prod.splits)
qed simp

section \<open>Release\<close>

text \<open>Merging two adjacent regions.\<close>

lemma region_join:
  assumes "unat b = unat a + unat n" and "unat m = unat n + unat k"
  shows "region a m = region a n \<union> region b k"
  using assms by (auto simp: region_def)

lemma merged_end:
  assumes "unat a + unat n < 2 ^ 64" and "a + n = base_addr b"
  shows "unat (base_addr b) = unat a + unat n"
  using assms unat_add_64 by metis

lemma merged_size:
  assumes "unat (base_addr b) = unat a + unat n" and "block_end b < 2 ^ 64"
  shows "unat (bsize b + n) = unat (bsize b) + unat n"
  using assms by (intro unat_add_64) (simp add: block_end_def)

lemma extended_size:
  assumes "unat (base_addr p) + unat (bsize p) = unat a" and "unat a + unat n < 2 ^ 64"
  shows "unat (bsize p + n) = unat (bsize p) + unat n"
  using assms by (intro unat_add_64) simp

lemma adjacent_iff:
  assumes "block_end p < 2 ^ 64"
  shows "base_addr p + bsize p = a \<longleftrightarrow> block_end p = unat a"
  using assms by (metis block_end_def unat_add_64 word_unat_eq_iff)

lemma touching_iff:
  assumes "unat a + unat n < 2 ^ 64"
  shows "a + n = base_addr b \<longleftrightarrow> unat a + unat n = unat (base_addr b)"
  using assms by (metis unat_add_64 word_unat_eq_iff)

text \<open>What is known of the freed region: it is free of overlap with the blocks.\<close>

definition free_pre :: "u64 \<Rightarrow> u64 \<Rightarrow> device_memory_block list \<Rightarrow> bool" where
  "free_pre a n bs \<longleftrightarrow> 0 < n \<and> unat a + unat n < 2 ^ 64 \<and> region a n \<inter> mem_free bs = {}"

lemma disjoint_block:
  assumes "free_pre a n (b # bs)" and "0 < bsize b"
  shows "unat a + unat n \<le> unat (base_addr b) \<or> block_end b \<le> unat a"
proof (rule ccontr)
  let ?x = "max (unat a) (unat (base_addr b))"
  assume "\<not> ?thesis"
  then have "?x \<in> region a n \<inter> region (base_addr b) (bsize b)"
    using assms by (auto simp: in_region block_end_def free_pre_def word_less_nat_alt)
  then show False using assms(1) by (auto simp: free_pre_def)
qed

text \<open>The freed region lies before block \<open>b\<close>, behind \<open>lo\<close>: merged with \<open>b\<close> or a block of its own.\<close>

lemma insert_before:
  assumes "blocks_ok lo (b # bs)" and "free_pre a n (b # bs)" and "lo \<le> unat a" and "a < base_addr b"
    and "r = (if a + n = base_addr b then b\<lparr>base_addr := a, bsize := bsize b + n\<rparr> # bs
              else \<lparr>base_addr = a, bsize = n\<rparr> # b # bs)"
  shows "blocks_ok lo r \<and> mem_free r = mem_free (b # bs) \<union> region a n"
proof -
  have n: "0 < unat n" "unat a + unat n < 2 ^ 64" using assms(2) by (simp_all add: free_pre_def word_less_nat_alt)
  have b: "0 < bsize b" "block_end b < 2 ^ 64" "0 < unat (bsize b)"
    using assms(1) by (simp_all add: word_less_nat_alt)
  have le: "unat a + unat n \<le> unat (base_addr b)"
    using disjoint_block [OF assms(2) b(1)] assms(4) b(3) by (auto simp: block_end_def word_less_nat_alt)
  show ?thesis
  proof (cases "a + n = base_addr b")
    case True
    note e = merged_end [OF n(2) True]
    note sz = merged_size [OF e b(2)]
    let ?m = "b\<lparr>base_addr := a, bsize := bsize b + n\<rparr>"
    have end_m: "block_end ?m = block_end b" unfolding block_end_def using e sz by simp
    have reg: "region (base_addr ?m) (bsize ?m) = region a n \<union> region (base_addr b) (bsize b)"
      using region_join [OF e, of "bsize b + n" "bsize b"] sz by simp
    have res: "r = ?m # bs" using assms(5) True by simp
    have "0 < bsize ?m" using sz n(1) by (simp add: word_less_nat_alt)
    then have "blocks_ok lo (?m # bs)" using end_m assms(1,3) by simp
    moreover have "mem_free (?m # bs) = mem_free (b # bs) \<union> region a n"
      unfolding mem_free.simps reg by blast
    ultimately show ?thesis unfolding res by blast
  next
    case False
    then have "unat a + unat n < unat (base_addr b)" using le touching_iff [OF n(2)] by force
    then show ?thesis using assms(1,3,5) False n by (auto simp: block_end_def word_less_nat_alt)
  qed
qed

text \<open>The freed region lies behind the last block \<open>b\<close>.\<close>

lemma insert_behind:
  assumes "blocks_ok lo [b]" and "free_pre a n [b]" and "base_addr b \<le> a"
    and "r = (if base_addr b + bsize b = a then [b\<lparr>bsize := bsize b + n\<rparr>]
              else [b, \<lparr>base_addr = a, bsize = n\<rparr>])"
  shows "blocks_ok lo r \<and> mem_free r = mem_free [b] \<union> region a n"
proof -
  have n: "0 < unat n" "unat a + unat n < 2 ^ 64" using assms(2) by (simp_all add: free_pre_def word_less_nat_alt)
  have b: "0 < bsize b" "block_end b < 2 ^ 64" using assms(1) by simp_all
  have le: "block_end b \<le> unat a"
    using disjoint_block [OF assms(2) b(1)] assms(3) n(1) by (auto simp: word_le_nat_alt)
  show ?thesis
  proof (cases "base_addr b + bsize b = a")
    case True
    then have e: "unat (base_addr b) + unat (bsize b) = unat a"
      using adjacent_iff [OF b(2)] by (simp add: block_end_def)
    let ?m = "b\<lparr>bsize := bsize b + n\<rparr>"
    note ext = extended_size [OF e n(2)]
    have end_m: "block_end ?m = unat a + unat n" unfolding block_end_def using e ext by simp
    have reg: "region (base_addr ?m) (bsize ?m) = region (base_addr b) (bsize b) \<union> region a n"
      using region_join [OF e [symmetric], of "bsize b + n" n] ext by simp
    have res: "r = [?m]" using assms(4) True by simp
    have "0 < bsize ?m" using ext n(1) by (simp add: word_less_nat_alt)
    then have "blocks_ok lo [?m]" using end_m n(2) assms(1) by simp
    moreover have "mem_free [?m] = mem_free [b] \<union> region a n"
      unfolding mem_free.simps reg by blast
    ultimately show ?thesis unfolding res by blast
  next
    case False
    then have "block_end b < unat a" using le adjacent_iff [OF b(2)] by force
    then show ?thesis using assms(1,4) False n b by (auto simp: block_end_def word_less_nat_alt)
  qed
qed

lemma free_pre_tl: "free_pre a n (p # bs) \<Longrightarrow> free_pre a n bs"
  by (auto simp: free_pre_def)

text \<open>The freed region lies between block \<open>p\<close> and block \<open>b\<close>.\<close>

lemma insert_between:
  assumes "blocks_ok lo (p # b # bs)" and "free_pre a n (p # b # bs)" and "base_addr p \<le> a"
    and "a < base_addr b"
  shows "blocks_ok lo (free_loop True a n (Some p) (b # bs))
    \<and> mem_free (free_loop True a n (Some p) (b # bs)) = mem_free (p # b # bs) \<union> region a n"
proof -
  have n: "0 < unat n" "unat a + unat n < 2 ^ 64" using assms(2) by (simp_all add: free_pre_def word_less_nat_alt)
  have p: "0 < bsize p" "block_end p < 2 ^ 64" and b: "0 < bsize b" "block_end b < 2 ^ 64"
    using assms(1) by simp_all
  have le: "block_end p \<le> unat a"
    using disjoint_block [OF assms(2) p(1)] assms(3) n(1) by (auto simp: word_le_nat_alt)
  note pre = free_pre_tl [OF assms(2)]
  show ?thesis
  proof (cases "base_addr p + bsize p = a")
    case False
    then have lo: "block_end p + 1 \<le> unat a" using le adjacent_iff [OF p(2)] by force
    have ok: "blocks_ok (block_end p + 1) (b # bs)" using assms(1) by simp
    define r where "r = (if a + n = base_addr b then b\<lparr>base_addr := a, bsize := bsize b + n\<rparr> # bs
              else \<lparr>base_addr = a, bsize = n\<rparr> # b # bs)"
    have res: "free_loop True a n (Some p) (b # bs) = p # r"
      unfolding r_def using False assms(4) by (simp add: create_mem_block_entry_def)
    from insert_before [OF ok pre lo assms(4) r_def] assms(1) show ?thesis
      unfolding res by (simp add: Un_assoc)
  next
    case True
    then have e: "unat (base_addr p) + unat (bsize p) = unat a"
      using adjacent_iff [OF p(2)] by (simp add: block_end_def)
    note ext = extended_size [OF e n(2)]
    show ?thesis
    proof (cases "a + n = base_addr b")
      case merge: True
      note e2 = merged_end [OF n(2) merge]
      let ?m = "p\<lparr>bsize := bsize p + (n + bsize b)\<rparr>"
      have sz: "unat (bsize ?m) = unat (bsize p) + unat n + unat (bsize b)"
        using e e2 ext b(2) unat_add_64 [of "bsize p + n" "bsize b"] by (simp add: block_end_def add.assoc)
      have end_m: "block_end ?m = block_end b"
        unfolding block_end_def sz using e e2 by simp
      have reg: "region (base_addr ?m) (bsize ?m)
          = region (base_addr p) (bsize p) \<union> region a n \<union> region (base_addr b) (bsize b)"
        using region_join [OF e [symmetric], of "bsize p + n" n] ext
          region_join [of "base_addr b" "base_addr p" "bsize p + n" "bsize ?m" "bsize b"] e e2 sz
        by simp
      have res: "free_loop True a n (Some p) (b # bs) = ?m # bs" using True merge assms(4) by simp
      have "0 < bsize ?m" using sz n(1) by (simp add: word_less_nat_alt)
      then have "blocks_ok lo (?m # bs)" using end_m assms(1) by simp
      moreover have "mem_free (?m # bs) = mem_free (p # b # bs) \<union> region a n"
        unfolding mem_free.simps reg by blast
      ultimately show ?thesis unfolding res by blast
    next
      case gap: False
      have "unat a + unat n \<le> unat (base_addr b)"
        using disjoint_block [OF pre b(1)] assms(4) b(1)
        by (auto simp: block_end_def word_less_nat_alt)
      then have lt: "unat a + unat n < unat (base_addr b)" using touching_iff [OF n(2)] gap by force
      let ?m = "p\<lparr>bsize := bsize p + n\<rparr>"
      have end_m: "block_end ?m = unat a + unat n" unfolding block_end_def using e ext by simp
      have reg: "region (base_addr ?m) (bsize ?m) = region (base_addr p) (bsize p) \<union> region a n"
        using region_join [OF e [symmetric], of "bsize p + n" n] ext by simp
      have res: "free_loop True a n (Some p) (b # bs) = ?m # b # bs" using True gap assms(4) by simp
      have "0 < bsize ?m" using ext n(1) by (simp add: word_less_nat_alt)
      then have "blocks_ok lo (?m # b # bs)" using end_m lt n(2) assms(1) by simp
      moreover have "mem_free (?m # b # bs) = mem_free (p # b # bs) \<union> region a n"
        unfolding mem_free.simps reg by blast
      ultimately show ?thesis unfolding res by blast
    qed
  qed
qed

lemma free_loop_some:
  assumes "blocks_ok lo (p # bs)" and "free_pre a n (p # bs)" and "base_addr p \<le> a" and "bs \<noteq> []"
  shows "blocks_ok lo (free_loop True a n (Some p) bs)
    \<and> mem_free (free_loop True a n (Some p) bs) = mem_free (p # bs) \<union> region a n"
  using assms
proof (induction bs arbitrary: lo p)
  case (Cons b bs)
  show ?case
  proof (cases "a < base_addr b")
    case True
    then show ?thesis using insert_between [OF Cons.prems(1-3)] by blast
  next
    case False
    have ok: "blocks_ok (block_end p + 1) (b # bs)" and pre: "free_pre a n (b # bs)"
      using Cons.prems(1,2) free_pre_tl by auto
    have ba: "base_addr b \<le> a" using False by simp
    show ?thesis
    proof (cases "bs = []")
      case True
      define r where "r = (if base_addr b + bsize b = a then [b\<lparr>bsize := bsize b + n\<rparr>]
                 else [b, \<lparr>base_addr = a, bsize = n\<rparr>])"
      have res: "free_loop True a n (Some p) [b] = p # r"
        unfolding r_def using False by (simp add: create_mem_block_entry_def)
      from insert_behind [OF ok [unfolded True] pre [unfolded True] ba r_def] Cons.prems(1)
      show ?thesis unfolding True res by (simp only: blocks_ok.simps mem_free.simps) blast
    next
      case ne: False
      have res: "free_loop True a n (Some p) (b # bs) = p # free_loop True a n (Some b) bs"
        using False ne by simp
      from Cons.IH [OF ok pre ba ne] Cons.prems(1) show ?thesis
        unfolding res by (simp only: blocks_ok.simps mem_free.simps) blast
    qed
  qed
qed simp

lemma free_device_memory_ok:
  assumes "mem_inv bs" and "free_pre a n bs"
  shows "mem_inv (free_device_memory True a n bs)
    \<and> mem_free (free_device_memory True a n bs) = mem_free bs \<union> region a n"
proof (cases bs)
  case Nil
  then show ?thesis using assms
    by (simp add: free_device_memory_def create_mem_block_entry_def mem_inv_def free_pre_def block_end_def)
next
  case (Cons b cs)
  have ok: "blocks_ok 0 (b # cs)" and pre: "free_pre a n (b # cs)"
    using assms Cons by (simp_all add: mem_inv_def)
  have fr: "free_device_memory True a n (b # cs) = free_loop True a n None (b # cs)"
    by (simp add: free_device_memory_def)
  show ?thesis
  proof (cases "a < base_addr b")
    case True
    define r where "r = (if a + n = base_addr b then b\<lparr>base_addr := a, bsize := bsize b + n\<rparr> # cs
              else \<lparr>base_addr = a, bsize = n\<rparr> # b # cs)"
    have res: "free_device_memory True a n (b # cs) = r"
      unfolding fr r_def using True by (simp add: create_mem_block_entry_def)
    from insert_before [OF ok pre le0 True r_def] show ?thesis
      unfolding Cons res mem_inv_def .
  next
    case False
    have ba: "base_addr b \<le> a" using False by simp
    show ?thesis
    proof (cases "cs = []")
      case True
      define r where "r = (if base_addr b + bsize b = a then [b\<lparr>bsize := bsize b + n\<rparr>]
                 else [b, \<lparr>base_addr = a, bsize = n\<rparr>])"
      have res: "free_device_memory True a n (b # cs) = r"
        unfolding fr r_def using False True by (simp add: create_mem_block_entry_def)
      from insert_behind [OF ok [unfolded True] pre [unfolded True] ba r_def] show ?thesis
        unfolding Cons res mem_inv_def unfolding True .
    next
      case ne: False
      have res: "free_device_memory True a n (b # cs) = free_loop True a n (Some b) cs"
        unfolding fr using False ne by simp
      from free_loop_some [OF ok pre ba ne] show ?thesis
        unfolding Cons res mem_inv_def .
    qed
  qed
qed

section \<open>No fragmentation: free runs lie in one block\<close>

lemma end_not_free:
  assumes "blocks_ok lo (b # bs)"
  shows "block_end b \<notin> mem_free (b # bs)"
  using assms mem_free_lower [of "block_end b + 1" bs "block_end b"]
  by (auto simp: in_region block_end_def)

lemma free_run_in_block:
  assumes "blocks_ok lo bs" and "{x..<x + k} \<subseteq> mem_free bs" and "0 < k"
  shows "\<exists>b \<in> set bs. k \<le> unat (bsize b)"
  using assms
proof (induction bs arbitrary: lo)
  case Nil
  then show ?case by (auto simp: subset_iff)
next
  case (Cons b bs)
  have "x \<in> {x..<x + k}" using Cons.prems(3) by simp
  then have x: "x \<in> mem_free (b # bs)" using Cons.prems(2) by blast
  show ?case
  proof (cases "x \<in> region (base_addr b) (bsize b)")
    case True
    have "x + k \<le> block_end b"
    proof (rule ccontr)
      assume "\<not> ?thesis"
      then have "block_end b \<in> {x..<x + k}" using True by (auto simp: in_region block_end_def)
      then show False using Cons.prems(2) end_not_free [OF Cons.prems(1)] by auto
    qed
    then have "k \<le> unat (bsize b)" using True by (auto simp: in_region block_end_def)
    then show ?thesis by auto
  next
    case False
    then have "x \<in> mem_free bs" using x by simp
    moreover have ok: "blocks_ok (block_end b + 1) bs" using Cons.prems(1) by simp
    ultimately have "block_end b < x" using mem_free_lower by force
    then have "{x..<x + k} \<subseteq> mem_free bs"
      using Cons.prems(2) by (auto simp: in_region block_end_def subset_iff)
    then show ?thesis using Cons.IH [of "block_end b + 1"] Cons.prems(1,3) by auto
  qed
qed

section \<open>The list is determined by the free addresses\<close>

lemma mem_free_empty_iff: "blocks_ok lo bs \<Longrightarrow> mem_free bs = {} \<longleftrightarrow> bs = []"
  by (cases bs) (auto simp: region_empty_iff)

lemma first_block:
  assumes "blocks_ok lo (b # bs)"
  shows "unat (base_addr b) \<in> mem_free (b # bs)" "\<And>x. x \<in> mem_free (b # bs) \<Longrightarrow> unat (base_addr b) \<le> x"
proof -
  show "unat (base_addr b) \<in> mem_free (b # bs)"
    using assms by (simp add: in_region word_less_nat_alt)
  show "unat (base_addr b) \<le> x" if "x \<in> mem_free (b # bs)" for x
    using that assms mem_free_lower [of "block_end b + 1" bs x] by (auto simp: in_region block_end_def)
qed

lemma first_block_end:
  assumes "blocks_ok lo (b # bs)" and "unat (base_addr b) \<le> e"
    and "{unat (base_addr b)..<e} \<subseteq> mem_free (b # bs)" and "e \<notin> mem_free (b # bs)"
  shows "e = block_end b"
proof (rule antisym)
  show "e \<le> block_end b"
  proof (rule ccontr)
    assume "\<not> ?thesis"
    then have "block_end b \<in> {unat (base_addr b)..<e}" by (simp add: block_end_def)
    then show False using assms(3) end_not_free [OF assms(1)] by blast
  qed
  show "block_end b \<le> e"
  proof (rule ccontr)
    assume "\<not> ?thesis"
    then have "e \<in> region (base_addr b) (bsize b)" using assms(2) by (simp add: in_region block_end_def)
    then show False using assms(4) by simp
  qed
qed

lemma blocks_unique:
  assumes "blocks_ok lo bs" and "blocks_ok lo cs" and "mem_free bs = mem_free cs"
  shows "bs = cs"
  using assms
proof (induction bs arbitrary: lo cs)
  case Nil
  then show ?case using mem_free_empty_iff [of lo cs] by simp
next
  case (Cons b bs)
  have "cs \<noteq> []" using Cons.prems mem_free_empty_iff [of lo "b # bs"] by auto
  then obtain c cs' where cs: "cs = c # cs'" by (cases cs) auto
  have okc: "blocks_ok lo (c # cs')" using Cons.prems(2) cs by simp
  have eq: "mem_free (b # bs) = mem_free (c # cs')" using Cons.prems(3) cs by simp
  have base: "unat (base_addr b) = unat (base_addr c)"
    using first_block [OF Cons.prems(1)] first_block [OF okc] eq by (metis antisym)
  have "block_end b = block_end c"
  proof (rule first_block_end [OF okc])
    show "unat (base_addr c) \<le> block_end b" using base by (simp add: block_end_def)
    show "{unat (base_addr c)..<block_end b} \<subseteq> mem_free (c # cs')"
      unfolding eq [symmetric] base [symmetric] by (auto simp: region_def block_end_def)
    show "block_end b \<notin> mem_free (c # cs')"
      using end_not_free [OF Cons.prems(1)] unfolding eq .
  qed
  then have sz: "unat (bsize b) = unat (bsize c)" using base by (simp add: block_end_def)
  have bc: "b = c" using base sz by (auto simp: word_unat_eq_iff intro: device_memory_block.equality)
  have rest: "mem_free bs = mem_free (b # bs) - region (base_addr b) (bsize b)"
    if "blocks_ok lo (b # bs)" for b bs
  proof -
    have ok: "blocks_ok (block_end b + 1) bs" using that by simp
    have "x \<notin> region (base_addr b) (bsize b)" if "x \<in> mem_free bs" for x
      using mem_free_lower [OF ok that] by (simp add: in_region block_end_def)
    then show ?thesis by auto
  qed
  have "mem_free bs = mem_free (b # bs) - region (base_addr b) (bsize b)" by (rule rest [OF Cons.prems(1)])
  also have "\<dots> = mem_free (c # cs') - region (base_addr c) (bsize c)" using eq bc by (simp only:)
  also have "\<dots> = mem_free cs'" by (rule rest [OF okc, symmetric])
  finally have "mem_free bs = mem_free cs'" .
  then show ?case using Cons.IH [of "block_end b + 1" cs'] Cons.prems(1) okc bc cs by simp
qed

section \<open>Contract of an allocator of regions\<close>

text \<open>What a client relies on: an allocated region was available and no longer is, a
  failed allocation changes nothing, a released region is available again. From this alone
  follows that the regions handed out and the available addresses always partition the
  memory.\<close>

locale region_allocator =
  fixes inv :: "'s \<Rightarrow> bool" and avail :: "'s \<Rightarrow> nat set"
    and sized :: "'n \<Rightarrow> bool" and fits :: "'a \<Rightarrow> 'n \<Rightarrow> bool" and reg :: "'a \<Rightarrow> 'n \<Rightarrow> nat set"
    and alloc :: "'n \<Rightarrow> 's \<Rightarrow> 'a option \<times> 's" and release :: "'a \<Rightarrow> 'n \<Rightarrow> 's \<Rightarrow> 's"
  assumes reg_nonempty: "sized n \<Longrightarrow> reg a n \<noteq> {}"
    and alloc_some: "inv s \<Longrightarrow> sized n \<Longrightarrow> alloc n s = (Some a, s') \<Longrightarrow>
      inv s' \<and> fits a n \<and> reg a n \<subseteq> avail s \<and> avail s' = avail s - reg a n"
    and alloc_none: "inv s \<Longrightarrow> sized n \<Longrightarrow> alloc n s = (None, s') \<Longrightarrow> s' = s"
    and release_reg: "inv s \<Longrightarrow> sized n \<Longrightarrow> fits a n \<Longrightarrow> reg a n \<inter> avail s = {} \<Longrightarrow>
      inv (release a n s) \<and> avail (release a n s) = avail s \<union> reg a n"
begin

definition partition :: "nat set \<Rightarrow> 's \<Rightarrow> ('a \<times> 'n) set \<Rightarrow> bool" where
  "partition W s L \<longleftrightarrow> inv s \<and> (\<forall>a n. (a, n) \<in> L \<longrightarrow> sized n \<and> fits a n \<and> reg a n \<inter> avail s = {})
     \<and> (\<forall>x y. x \<in> L \<longrightarrow> y \<in> L \<longrightarrow> x \<noteq> y \<longrightarrow> case_prod reg x \<inter> case_prod reg y = {})
     \<and> avail s \<union> (\<Union>x \<in> L. case_prod reg x) = W"

lemma partitionD:
  assumes "partition W s L"
  shows "inv s" "avail s \<union> (\<Union>x \<in> L. case_prod reg x) = W"
    "(a, n) \<in> L \<Longrightarrow> sized n \<and> fits a n \<and> reg a n \<inter> avail s = {}"
    "x \<in> L \<Longrightarrow> y \<in> L \<Longrightarrow> x \<noteq> y \<Longrightarrow> case_prod reg x \<inter> case_prod reg y = {}"
  using assms unfolding partition_def by blast+

lemma partitionI:
  assumes "inv s" and "\<And>a n. (a, n) \<in> L \<Longrightarrow> sized n \<and> fits a n \<and> reg a n \<inter> avail s = {}"
    and "\<And>x y. x \<in> L \<Longrightarrow> y \<in> L \<Longrightarrow> x \<noteq> y \<Longrightarrow> case_prod reg x \<inter> case_prod reg y = {}"
    and "avail s \<union> (\<Union>x \<in> L. case_prod reg x) = W"
  shows "partition W s L"
  using assms unfolding partition_def by blast

lemma partition_alloc:
  assumes "partition W s L" and "sized n" and "alloc n s = (Some a, s')"
  shows "partition W s' (insert (a, n) L)" and "(a, n) \<notin> L"
proof -
  note pt = partitionD [OF assms(1)]
  note al = alloc_some [OF pt(1) assms(2,3)]
  have sep: "reg a n \<inter> case_prod reg x = {}" if "x \<in> L" for x
    using pt(3) [of "fst x" "snd x"] al that by (auto simp: case_prod_beta)
  show "(a, n) \<notin> L" using sep [of "(a, n)"] reg_nonempty [OF assms(2)] by auto
  show "partition W s' (insert (a, n) L)"
  proof (rule partitionI)
    show "sized m \<and> fits b m \<and> reg b m \<inter> avail s' = {}" if "(b, m) \<in> insert (a, n) L" for b m
      using that al assms(2) pt(3) [of b m] by auto
    show "case_prod reg x \<inter> case_prod reg y = {}"
      if xy: "x \<in> insert (a, n) L" "y \<in> insert (a, n) L" "x \<noteq> y" for x y
    proof -
      consider "x = (a, n)" "y \<in> L" | "y = (a, n)" "x \<in> L" | "x \<in> L" "y \<in> L" using xy by blast
      then show ?thesis
      proof cases
        case 2 then show ?thesis using sep [of x] by (simp add: Int_commute)
      qed (use sep [of y] pt(4) xy(3) in simp_all)
    qed
    show "avail s' \<union> (\<Union>x \<in> insert (a, n) L. case_prod reg x) = W" using al pt(2) by auto
  qed (use al in blast)
qed

lemma partition_release:
  assumes "partition W s L" and "(a, n) \<in> L"
  shows "partition W (release a n s) (L - {(a, n)})"
proof -
  note pt = partitionD [OF assms(1)]
  have rl: "inv (release a n s) \<and> avail (release a n s) = avail s \<union> reg a n"
    using release_reg [OF pt(1)] pt(3) [OF assms(2)] by blast
  show ?thesis
  proof (rule partitionI)
    show "sized m \<and> fits b m \<and> reg b m \<inter> avail (release a n s) = {}" if "(b, m) \<in> L - {(a, n)}" for b m
      using that rl pt(3) [of b m] pt(4) [of "(b, m)" "(a, n)"] assms(2) by auto
    show "case_prod reg x \<inter> case_prod reg y = {}"
      if "x \<in> L - {(a, n)}" "y \<in> L - {(a, n)}" "x \<noteq> y" for x y
      using pt(4) that by blast
    show "avail (release a n s) \<union> (\<Union>x \<in> L - {(a, n)}. case_prod reg x) = W"
      using rl pt(2) assms(2) by auto
  qed (use rl in blast)
qed

end

text \<open>The driver's allocator has this contract.\<close>

definition svm_alloc :: "u64 \<Rightarrow> device_memory_block list \<Rightarrow> u64 option \<times> device_memory_block list" where
  "svm_alloc n bs = (case allocate_device_memory n bs of (a, bs') \<Rightarrow> (if a = - 1 then None else Some a, bs'))"

definition in_space :: "u64 \<Rightarrow> u64 \<Rightarrow> bool" where
  "in_space a n \<longleftrightarrow> unat a + unat n < 2 ^ 64"

interpretation svm: region_allocator mem_inv mem_free "(<) 0" in_space region svm_alloc "free_device_memory True"
proof
  show "0 < n \<Longrightarrow> region a n \<noteq> {}" for a n by (simp add: region_empty_iff)
  show "mem_inv bs' \<and> in_space a n \<and> region a n \<subseteq> mem_free bs \<and> mem_free bs' = mem_free bs - region a n"
    if "mem_inv bs" "0 < n" "svm_alloc n bs = (Some a, bs')" for bs bs' n a
    using allocate_ok [of 0 bs n a bs'] that
    by (auto simp: svm_alloc_def mem_inv_def in_space_def split: prod.splits if_splits)
  show "bs' = bs" if "mem_inv bs" "0 < n" "svm_alloc n bs = (None, bs')" for bs bs' n
    using allocate_fails [of 0 bs n bs'] that
    by (auto simp: svm_alloc_def mem_inv_def split: prod.splits if_splits)
  show "mem_inv (free_device_memory True a n bs) \<and>
      mem_free (free_device_memory True a n bs) = mem_free bs \<union> region a n"
    if "mem_inv bs" "0 < n" "in_space a n" "region a n \<inter> mem_free bs = {}" for bs a n
    using free_device_memory_ok [of bs a n] that by (simp add: free_pre_def in_space_def)
qed

text \<open>Runs of the allocator from the single block that \<^verbatim>\<open>pcie_init_svm\<close> sets up, with the regions
  currently handed out.\<close>

inductive svm_mem_run :: "device_memory_block list \<Rightarrow> (u64 \<times> u64) set \<Rightarrow> bool" where
  svm_mem_init: "svm_mem_run [\<lparr>base_addr = 0, bsize = PHYS_MEM_SIZE\<rparr>] {}"
| svm_mem_alloc: "svm_mem_run bs L \<Longrightarrow> 0 < n \<Longrightarrow> allocate_device_memory n bs = (a, bs') \<Longrightarrow> a \<noteq> - 1 \<Longrightarrow>
    svm_mem_run bs' (insert (a, n) L)"
| svm_mem_fail: "svm_mem_run bs L \<Longrightarrow> 0 < n \<Longrightarrow> allocate_device_memory n bs = (- 1, bs') \<Longrightarrow> svm_mem_run bs' L"
| svm_mem_free: "svm_mem_run bs L \<Longrightarrow> (a, n) \<in> L \<Longrightarrow>
    svm_mem_run (free_device_memory True a n bs) (L - {(a, n)})"

lemma svm_mem_partition:
  assumes "svm_mem_run bs L"
  shows "svm.partition {..<2 ^ 32} bs L"
  using assms
proof (induction rule: svm_mem_run.induct)
  case svm_mem_init
  have "mem_free [\<lparr>base_addr = 0, bsize = PHYS_MEM_SIZE\<rparr>] = {..<2 ^ 32}"
    by (auto simp: PHYS_MEM_SIZE_def region_def)
  then show ?case
    by (intro svm.partitionI) (simp_all add: mem_inv_def block_end_def PHYS_MEM_SIZE_def)
next
  case (svm_mem_alloc bs L n a bs')
  then show ?case using svm.partition_alloc [of _ bs L n a bs'] by (simp add: svm_alloc_def)
next
  case (svm_mem_fail bs L n bs')
  have "blocks_ok 0 bs" using svm.partitionD(1) [OF svm_mem_fail.IH] by (simp add: mem_inv_def)
  then have "bs' = bs" using allocate_fails [of 0 bs n bs'] svm_mem_fail by simp
  with svm_mem_fail show ?case by simp
next
  case (svm_mem_free bs L a n)
  then show ?case by (intro svm.partition_release)
qed

section \<open>Properties\<close>

text \<open>C19: Allocation is first fit and complete. On a well-formed list, a request of \<open>n > 0\<close> bytes
  either returns the address of a region that was free, and exactly this region is no longer
  free, or fails with -1, leaves the list alone, and then there is no run of \<open>n\<close> free bytes
  anywhere: the coalescing on release never leaves memory unusable.\<close>

theorem svm_allocate_complete:
  assumes "mem_inv bs" and "0 < n" and "allocate_device_memory n bs = (a, bs')"
  shows "mem_inv bs' \<and>
    (if a = - 1 then bs' = bs \<and> (\<forall>x. \<not> {x..<x + unat n} \<subseteq> mem_free bs)
     else region a n \<subseteq> mem_free bs \<and> mem_free bs' = mem_free bs - region a n)"
proof (cases "a = - 1")
  case True
  have ok: "blocks_ok 0 bs" using assms(1) by (simp add: mem_inv_def)
  have f: "bs' = bs" "\<forall>b \<in> set bs. bsize b < n"
    using allocate_fails [OF ok assms(2), of bs'] assms(3) True by simp_all
  have n0: "0 < unat n" using assms(2) by (simp add: word_less_nat_alt)
  have "\<not> {x..<x + unat n} \<subseteq> mem_free bs" for x
  proof
    assume "{x..<x + unat n} \<subseteq> mem_free bs"
    then obtain b where "b \<in> set bs" "unat n \<le> unat (bsize b)" using free_run_in_block [OF ok _ n0] by blast
    then show False using f(2) by (auto simp: word_less_nat_alt)
  qed
  then show ?thesis using True f assms(1) by simp
next
  case False
  then show ?thesis using allocate_ok [of 0 bs n a bs'] assms by (simp add: mem_inv_def)
qed

theorem svm_allocate_complete_witness:
  "\<forall>x. \<not> {x..<x + 8192} \<subseteq> mem_free [\<lparr>base_addr = 0, bsize = 4096\<rparr>, \<lparr>base_addr = 8192, bsize = 4096\<rparr>]"
  using svm_allocate_complete [of "[\<lparr>base_addr = 0, bsize = 4096\<rparr>, \<lparr>base_addr = 8192, bsize = 4096\<rparr>]" 8192
      "- 1" "[\<lparr>base_addr = 0, bsize = 4096\<rparr>, \<lparr>base_addr = 8192, bsize = 4096\<rparr>]"]
  by (simp add: mem_inv_def block_end_def del: mem_free.simps)





section \<open>Releasing device pages\<close>

definition page_region :: "u64 \<Rightarrow> u64 \<Rightarrow> nat set" where
  "page_region base_pfn p = region (pfn_to_dev_addr base_pfn p) PAGE_SIZE"

text \<open>Pages of the 4 GiB of device memory.\<close>

definition dev_page :: "u64 \<Rightarrow> u64 \<Rightarrow> bool" where
  "dev_page base_pfn p \<longleftrightarrow> unat (p - base_pfn) < 2 ^ 20"

lemma unat_mult_64: "unat (a :: u64) * unat b < 2 ^ 64 \<Longrightarrow> unat (a * b) = unat a * unat b"
  by (simp add: unat_word_ariths)

lemma pfn_to_dev_addr_unat:
  assumes "dev_page base_pfn p"
  shows "unat (pfn_to_dev_addr base_pfn p) = unat (p - base_pfn) * 4096"
proof -
  have "unat (p - base_pfn) * unat (4096 :: u64) < 2 ^ 64" using assms by (simp add: dev_page_def)
  then show ?thesis
    using unat_mult_64 [of "p - base_pfn" 4096]
    by (simp add: pfn_to_dev_addr_def PAGE_SHIFT_def push_bit_eq_mult)
qed

lemma page_region_eq:
  "dev_page base_pfn p \<Longrightarrow>
    page_region base_pfn p = {unat (p - base_pfn) * 4096..<(unat (p - base_pfn) + 1) * 4096}"
  by (auto simp: page_region_def region_def pfn_to_dev_addr_unat PAGE_SIZE_def)

lemma next_page:
  assumes "dev_page base_pfn p"
  shows "unat (p + 1 - base_pfn) = unat (p - base_pfn) + 1"
proof -
  have "unat ((p - base_pfn) + 1) = unat (p - base_pfn) + unat (1 :: u64)"
    using assms by (intro unat_add_64) (simp add: dev_page_def)
  then show ?thesis by (simp add: algebra_simps)
qed

lemma group_region:
  assumes "\<forall>q \<in> set (p # ps). dev_page base_pfn q"
  shows "ncontiguous (p # ps) \<le> length (p # ps) \<and>
    (\<Union>q \<in> set (take (ncontiguous (p # ps)) (p # ps)). page_region base_pfn q) =
      {unat (p - base_pfn) * 4096..<(unat (p - base_pfn) + ncontiguous (p # ps)) * 4096}"
  using assms
proof (induction ps arbitrary: p)
  case Nil
  then show ?case by (simp add: page_region_eq)
next
  case (Cons q ps)
  show ?case
  proof (cases "is_contiguous_page q p")
    case False
    then show ?thesis using Cons.prems by (simp add: page_region_eq)
  next
    case True
    let ?n = "ncontiguous (q # ps)" and ?u = "unat (p - base_pfn)"
    have q: "unat (q - base_pfn) = ?u + 1"
      using True next_page [of base_pfn p] Cons.prems by (simp add: is_contiguous_page_def)
    have IH: "?n \<le> length (q # ps)"
      "(\<Union>r \<in> set (take ?n (q # ps)). page_region base_pfn r) = {(?u + 1) * 4096..<(?u + 1 + ?n) * 4096}"
      using Cons.IH [of q] Cons.prems unfolding q by simp_all
    have n: "ncontiguous (p # q # ps) = Suc ?n" using True by simp
    have p: "page_region base_pfn p = {?u * 4096..<(?u + 1) * 4096}"
      using Cons.prems by (simp add: page_region_eq)
    have "(\<Union>r \<in> set (take (Suc ?n) (p # q # ps)). page_region base_pfn r)
        = {?u * 4096..<(?u + 1) * 4096} \<union> {(?u + 1) * 4096..<(?u + 1 + ?n) * 4096}"
      using IH(2) p by (simp only: take_Suc_Cons list.set image_insert Union_insert)
    also have "\<dots> = {?u * 4096..<(?u + Suc ?n) * 4096}" by auto
    finally show ?thesis using IH(1) unfolding n by simp
  qed
qed

lemma group_last:
  assumes "\<forall>q \<in> set (p # ps). dev_page base_pfn q"
  shows "\<exists>q \<in> set (p # ps). unat (p - base_pfn) + ncontiguous (p # ps) = unat (q - base_pfn) + 1"
  using assms
proof (induction ps arbitrary: p)
  case (Cons q ps)
  show ?case
  proof (cases "is_contiguous_page q p")
    case True
    have q: "unat (q - base_pfn) = unat (p - base_pfn) + 1"
      using True next_page [of base_pfn p] Cons.prems by (simp add: is_contiguous_page_def)
    have "\<forall>q \<in> set (q # ps). dev_page base_pfn q" using Cons.prems by simp
    from Cons.IH [OF this] obtain r where
      "r \<in> set (q # ps)" "unat (q - base_pfn) + ncontiguous (q # ps) = unat (r - base_pfn) + 1" by blast
    then show ?thesis using True q by (intro bexI [of _ r]) simp_all
  qed simp
qed simp



text \<open>Frame numbers and device addresses are translated back and forth without loss.\<close>

lemma pfn_dev_addr_inverse: "dev_page base_pfn p \<Longrightarrow> dev_addr_to_pfn base_pfn (pfn_to_dev_addr base_pfn p) = p"
proof -
  assume p: "dev_page base_pfn p"
  have "unat (drop_bit 12 (pfn_to_dev_addr base_pfn p)) = unat (p - base_pfn)"
    using pfn_to_dev_addr_unat [OF p] by (simp add: drop_bit_eq_div unat_div)
  then have "drop_bit 12 (pfn_to_dev_addr base_pfn p) = p - base_pfn" by (simp add: word_unat_eq_iff)
  then show ?thesis by (simp add: dev_addr_to_pfn_def PAGE_SHIFT_def)
qed

end
