(* ===== verification/Svm_Intervals.thy ===== *)
theory Svm_Intervals
  imports Svm_Alloc
begin

text \<open>
  The record of the virtual memory that is present on a device, \<^verbatim>\<open>pcie/pcie_svm.c\<close>: an interval tree
  of address ranges, \<^verbatim>\<open>vmem_intervals\<close>. The tree of the kernel is a list of ranges (first and
  last address), sorted by first address; \<open>iter_first\<close> finds the first range that overlaps, \<open>iter_next\<close> the
  next one behind a given range. What the tree stands for is the set of addresses it covers.
\<close>

section \<open>The tree\<close>

type_synonym ivl = "u64 \<times> u64"

definition overlaps :: "u64 \<Rightarrow> u64 \<Rightarrow> ivl \<Rightarrow> bool" where
  "overlaps a b i \<longleftrightarrow> fst i \<le> b \<and> a \<le> snd i"

definition iter_first :: "ivl list \<Rightarrow> u64 \<Rightarrow> u64 \<Rightarrow> ivl option" where
  "iter_first t a b = find (overlaps a b) t"

definition iter_next :: "ivl list \<Rightarrow> ivl \<Rightarrow> u64 \<Rightarrow> u64 \<Rightarrow> ivl option" where
  "iter_next t i a b = find (overlaps a b) (tl (dropWhile (\<lambda>j. j \<noteq> i) t))"

definition tree_insert :: "ivl \<Rightarrow> ivl list \<Rightarrow> ivl list" where
  "tree_insert i t = insort_key fst i t"

section \<open>Operations\<close>

text \<open>\<open>ok\<close>: memory for the new node can be allocated. \<^const>\<open>None\<close>: the same node is removed and freed twice.\<close>

definition insert_vmem_interval :: "bool \<Rightarrow> u64 \<Rightarrow> int \<Rightarrow> ivl list \<Rightarrow> (int \<times> ivl list) option" where
  "insert_vmem_interval ok vaddr npages t =
     (if \<not> ok then Some (- ENOMEM, t)
      else let predecessor = (if vaddr > 0 then iter_first t (vaddr - PAGE_SIZE) (vaddr - 1) else None);
               behind = vaddr + word_of_int npages * PAGE_SIZE;
               successor = iter_first t behind behind;
               (new_start, t1) = (case predecessor of Some p \<Rightarrow> (fst p, remove1 p t) | None \<Rightarrow> (vaddr, t));
               (new_last, t2) = (case successor of Some q \<Rightarrow> (snd q, remove1 q t1) | None \<Rightarrow> (behind - 1, t1))
           in if predecessor \<noteq> None \<and> predecessor = successor then None
              else Some (0, tree_insert (new_start, new_last) t2))"

text \<open>The loop over the overlapping nodes. Each round goes to a later node of the tree, so the number of
  nodes bounds the number of rounds; \<^const>\<open>None\<close> if the bound is not enough.\<close>

fun remove_loop :: "bool \<Rightarrow> nat \<Rightarrow> u64 \<Rightarrow> u64 \<Rightarrow> ivl option \<Rightarrow> ivl list \<Rightarrow> ivl list option" where
  "remove_loop ok n st en None t = Some t"
| "remove_loop ok 0 st en (Some i) t = None"
| "remove_loop ok (Suc n) st en (Some i) t =
     (let next_start = min (snd i + 1) en;
          next_node = iter_next t i st en;
          t1 = remove1 i t;
          t2 = (if fst i \<noteq> st
                then tree_insert (fst i, st - 1)
                       (if snd i > en \<and> ok then tree_insert (en + 1, snd i) t1 else t1)
                else if snd i > en then tree_insert (en + 1, snd i) t1
                else t1)
      in remove_loop ok n next_start en next_node t2)"

definition remove_vmem_interval :: "bool \<Rightarrow> u64 \<Rightarrow> int \<Rightarrow> ivl list \<Rightarrow> ivl list option" where
  "remove_vmem_interval ok vaddr npages t =
     (let en = vaddr + word_of_int npages * PAGE_SIZE - 1
      in remove_loop ok (length t) vaddr en (iter_first t vaddr en) t)"

text \<open>The list of the ranges found, with the result code; \<open>oks\<close> says which allocations of list entries
  succeed.\<close>

fun search_loop :: "(nat \<Rightarrow> bool) \<Rightarrow> nat \<Rightarrow> u64 \<Rightarrow> ivl option \<Rightarrow> ivl list \<Rightarrow> ivl list \<Rightarrow> (int \<times> ivl list) option" where
  "search_loop oks n en None t acc = Some (0, acc)"
| "search_loop oks 0 en (Some i) t acc = None"
| "search_loop oks (Suc n) en (Some i) t acc =
     (if \<not> oks (length acc) then Some (- ENOMEM, acc)
      else search_loop oks n en (iter_next t i (min (snd i + 1) en) en) t (acc @ [i]))"

definition search_vmem_intervals :: "(nat \<Rightarrow> bool) \<Rightarrow> u64 \<Rightarrow> int \<Rightarrow> ivl list \<Rightarrow> (int \<times> ivl list) option" where
  "search_vmem_intervals oks vaddr npages t =
     (let en = vaddr + word_of_int npages * PAGE_SIZE - 1
      in search_loop oks (length t) en (iter_first t vaddr en) t [])"

definition is_page_present :: "ivl list \<Rightarrow> u64 \<Rightarrow> bool" where
  "is_page_present t vaddr \<longleftrightarrow> iter_first t vaddr (vaddr + PAGE_SIZE - 1) \<noteq> None"

text \<open>The MMU notifier: result are the commands to the TLB of the device, as address and number of
  pages, and the tree. \<open>own\<close>: the range is being migrated by this device itself. The numbers of
  pages are 32-bit.\<close>

definition to_int :: "u64 \<Rightarrow> int" where
  "to_int w = sint (ucast w :: u32)"

fun invalidate_loop :: "bool \<Rightarrow> u64 \<Rightarrow> u64 \<Rightarrow> ivl list \<Rightarrow> ivl list \<Rightarrow> ((u64 \<times> int) list \<times> ivl list) option" where
  "invalidate_loop ok st en [] t = Some ([], t)"
| "invalidate_loop ok st en (i # is) t =
     (let inv_start = max (fst i) st;
          inv_end = min (snd i + 1) en;
          inv_npages = to_int (drop_bit PAGE_SHIFT (inv_end - inv_start))
      in case remove_vmem_interval ok inv_start inv_npages t of
           None \<Rightarrow> None
         | Some t1 \<Rightarrow> map_option (\<lambda>(cs, t2). ((inv_start, inv_npages) # cs, t2)) (invalidate_loop ok st en is t1))"

definition svm_tlb_invalidate_range_start ::
  "(nat \<Rightarrow> bool) \<Rightarrow> bool \<Rightarrow> bool \<Rightarrow> u64 \<Rightarrow> u64 \<Rightarrow> ivl list \<Rightarrow> ((u64 \<times> int) list \<times> ivl list) option" where
  "svm_tlb_invalidate_range_start oks ok own st en t =
     (if own then Some ([], t)
      else case search_vmem_intervals oks st (to_int (drop_bit PAGE_SHIFT (en - st))) t of
             None \<Rightarrow> None
           | Some (r, is) \<Rightarrow> invalidate_loop ok st en is t)"

section \<open>Invariant\<close>

definition page_aligned :: "nat \<Rightarrow> bool" where
  "page_aligned x \<longleftrightarrow> 4096 dvd x"

text \<open>Ranges of whole pages, in order, with a gap between any two; below the top page of the address
  space.\<close>

fun ivls_ok :: "nat \<Rightarrow> ivl list \<Rightarrow> bool" where
  "ivls_ok lo [] = True"
| "ivls_ok lo ((s, l) # t) = (lo \<le> unat s \<and> s \<le> l \<and> page_aligned (unat s) \<and> page_aligned (Suc (unat l))
     \<and> Suc (unat l) < 2 ^ 64 \<and> ivls_ok (Suc (Suc (unat l))) t)"

definition tree_inv :: "ivl list \<Rightarrow> bool" where
  "tree_inv t \<longleftrightarrow> ivls_ok 0 t"

definition cov1 :: "ivl \<Rightarrow> nat set" where
  "cov1 i = {unat (fst i)..unat (snd i)}"

definition covered :: "ivl list \<Rightarrow> nat set" where
  "covered t = (\<Union>i \<in> set t. cov1 i)"

lemma covered_simps [simp]: "covered [] = {}" "covered (i # t) = cov1 i \<union> covered t" "covered (t @ u) = covered t \<union> covered u"
  by (auto simp: covered_def)

fun end_of :: "nat \<Rightarrow> ivl list \<Rightarrow> nat" where
  "end_of lo [] = lo"
| "end_of lo ((s, l) # t) = end_of (Suc (Suc (unat l))) t"

lemma ivls_ok_append [simp]: "ivls_ok lo (t @ u) \<longleftrightarrow> ivls_ok lo t \<and> ivls_ok (end_of lo t) u"
  by (induction t arbitrary: lo) auto

lemma ivls_ok_mono: "ivls_ok hi t \<Longrightarrow> lo \<le> hi \<Longrightarrow> ivls_ok lo t"
  by (cases t) auto

lemma end_of_ge: "ivls_ok lo t \<Longrightarrow> lo \<le> end_of lo t"
  by (induction t arbitrary: lo) (fastforce simp: word_le_nat_alt)+

lemma ivls_ok_lower: "ivls_ok lo t \<Longrightarrow> (s, l) \<in> set t \<Longrightarrow> lo \<le> unat s \<and> s \<le> l"
  by (induction t arbitrary: lo) (fastforce simp: word_le_nat_alt)+

lemma ivls_ok_upper: "ivls_ok lo t \<Longrightarrow> (s, l) \<in> set t \<Longrightarrow> Suc (Suc (unat l)) \<le> end_of lo t"
proof (induction t arbitrary: lo)
  case (Cons i t)
  then show ?case using end_of_ge [of "Suc (Suc (unat (snd i)))" t] by (cases i) auto
qed simp

lemma ivls_ok_page: "ivls_ok lo t \<Longrightarrow> (s, l) \<in> set t \<Longrightarrow>
    page_aligned (unat s) \<and> page_aligned (Suc (unat l)) \<and> Suc (unat l) < 2 ^ 64"
  by (induction t arbitrary: lo) auto

lemma covered_bounds: "ivls_ok lo t \<Longrightarrow> x \<in> covered t \<Longrightarrow> lo \<le> x \<and> Suc x < end_of lo t"
  using ivls_ok_lower ivls_ok_upper by (fastforce simp: covered_def cov1_def)

text \<open>Sorted insertion puts a range between those before and those behind it.\<close>

lemma insort_mid:
  assumes "\<And>i. i \<in> set xs \<Longrightarrow> fst i < fst x" "\<And>i. i \<in> set ys \<Longrightarrow> fst x \<le> fst i"
  shows "tree_insert x (xs @ ys) = xs @ x # ys"
  using assms
proof (induction xs)
  case Nil
  then show ?case by (cases ys) (auto simp: tree_insert_def)
next
  case (Cons i xs)
  have "\<not> fst x \<le> fst i" using Cons.prems(1) [of i] by (simp add: not_le)
  then show ?case using Cons by (simp add: tree_insert_def)
qed

lemma tree_split_fst:
  assumes "ivls_ok lo (xs @ ys)" "i \<in> set xs" "j \<in> set ys"
  shows "snd i < fst j \<and> fst i < fst j"
  using assms ivls_ok_upper [of lo xs "fst i" "snd i"] ivls_ok_lower [of "end_of lo xs" ys "fst j" "snd j"]
    ivls_ok_lower [of lo xs "fst i" "snd i"]
  by (auto simp: word_less_nat_alt word_le_nat_alt)

lemma ivls_ok_distinct: "ivls_ok lo t \<Longrightarrow> distinct t"
proof (induction t arbitrary: lo)
  case (Cons i t)
  obtain s l where i: "i = (s, l)" by (cases i)
  have "i \<notin> set t" using Cons.prems ivls_ok_lower [of "Suc (Suc (unat l))" t s l] by (auto simp: i word_le_nat_alt)
  then show ?case using Cons by (auto simp: i)
qed simp

lemma iter_next_mid: "i \<notin> set xs \<Longrightarrow> iter_next (xs @ i # ys) i a b = find (overlaps a b) ys"
  by (induction xs) (auto simp: iter_next_def)

lemma find_append: "find P (xs @ ys) = (case find P xs of None \<Rightarrow> find P ys | Some x \<Rightarrow> Some x)"
  by (induction xs) auto

lemma find_none: "(\<And>i. i \<in> set xs \<Longrightarrow> \<not> P i) \<Longrightarrow> find P xs = None"
  by (induction xs) auto

lemma remove1_mid: "i \<notin> set xs \<Longrightarrow> remove1 i (xs @ i # ys) = xs @ ys"
  by (simp add: remove1_append)

section \<open>Insertion\<close>

text \<open>A range that is not covered divides the tree.\<close>

lemma tree_split:
  assumes "ivls_ok lo t" "lo' < hi'" "{lo'..<hi'} \<inter> covered t = {}"
  shows "\<exists>xs ys. t = xs @ ys \<and> (\<forall>i \<in> set xs. unat (snd i) < lo') \<and> (\<forall>j \<in> set ys. hi' \<le> unat (fst j))"
  using assms
proof (induction t arbitrary: lo)
  case Nil
  then show ?case by auto
next
  case (Cons i t)
  obtain s l where i: "i = (s, l)" by (cases i)
  have sl: "unat s \<le> unat l" and ok: "ivls_ok (Suc (Suc (unat l))) t" using Cons.prems(1) by (simp_all add: i word_le_nat_alt)
  show ?case
  proof (cases "unat l < lo'")
    case True
    obtain xs ys where "t = xs @ ys" "\<forall>i \<in> set xs. unat (snd i) < lo'" "\<forall>j \<in> set ys. hi' \<le> unat (fst j)"
      using Cons.IH [OF ok Cons.prems(2)] Cons.prems(3) by auto
    then show ?thesis using True by (intro exI [of _ "i # xs"] exI [of _ ys]) (auto simp: i)
  next
    case False
    have "hi' \<le> unat s"
    proof (rule ccontr)
      assume "\<not> hi' \<le> unat s"
      then have "max lo' (unat s) \<in> {lo'..<hi'} \<inter> cov1 i" using False sl Cons.prems(2) by (auto simp: i cov1_def)
      then show False using Cons.prems(3) covered_simps(2) [of i t] by blast
    qed
    moreover have "hi' \<le> unat (fst j)" if "j \<in> set t" for j
      using ivls_ok_lower [OF ok, of "fst j" "snd j"] that sl \<open>hi' \<le> unat s\<close> by auto
    ultimately show ?thesis by (intro exI [of _ "[]"] exI [of _ "i # t"]) (auto simp: i)
  qed
qed

lemma aligned_less: "page_aligned a \<Longrightarrow> page_aligned b \<Longrightarrow> a < b \<Longrightarrow> a + 4096 \<le> b"
  unfolding page_aligned_def by (metis dvd_diff_nat dvd_imp_le le_add_diff_inverse less_imp_le nat_add_left_cancel_le zero_less_diff)

lemma page_words:
  fixes v :: u64
  assumes "page_aligned (unat v)" "0 < v"
  shows "unat (v - PAGE_SIZE) = unat v - 4096" "unat (v - 1) = unat v - 1" "4096 \<le> unat v"
proof -
  have "0 < unat v" using assms(2) by (simp add: word_less_nat_alt)
  then show v: "4096 \<le> unat v" using assms(1) by (auto simp: page_aligned_def dest: dvd_imp_le)
  then show "unat (v - PAGE_SIZE) = unat v - 4096" by (simp add: PAGE_SIZE_def unat_sub word_le_nat_alt)
  show "unat (v - 1) = unat v - 1" using v by (simp add: unat_sub word_le_nat_alt)
qed

lemma last_end: "ivls_ok lo (xs @ [(s, l)]) \<Longrightarrow> end_of lo (xs @ [(s, l)]) = Suc (Suc (unat l))"
  by (induction xs arbitrary: lo) auto

text \<open>The node before the range: it ends right in front of it, or there is a gap.\<close>

lemma predecessor_cases:
  assumes ok: "ivls_ok 0 (xs @ ys)" and v: "page_aligned (unat v)" and xs: "\<forall>i \<in> set xs. unat (snd i) < unat v"
    and ys: "\<forall>j \<in> set ys. unat v < unat (fst j)"
  defines "p \<equiv> if v > 0 then iter_first (xs @ ys) (v - PAGE_SIZE) (v - 1) else None"
  shows "(\<exists>xs' i. xs = xs' @ [i] \<and> Suc (unat (snd i)) = unat v \<and> p = Some i) \<or> (end_of 0 xs \<le> unat v \<and> p = None)"
proof (cases "v > 0")
  case False
  then have "xs = []" using xs by (cases xs) (auto simp: word_less_nat_alt)
  then show ?thesis using False by (simp add: p_def)
next
  case True
  note w = page_words [OF v True]
  have ov: "overlaps (v - PAGE_SIZE) (v - 1) i \<longleftrightarrow> unat (fst i) \<le> unat v - 1 \<and> unat v - 4096 \<le> unat (snd i)" for i
    using w by (simp add: overlaps_def word_le_nat_alt)
  have noys: "find (overlaps (v - PAGE_SIZE) (v - 1)) ys = None" using ys by (intro find_none) (auto simp: ov)
  have adj: "Suc (unat (snd i)) = unat v" if "i \<in> set xs" "overlaps (v - PAGE_SIZE) (v - 1) i" for i
  proof -
    have "page_aligned (Suc (unat (snd i)))" using ok that(1) ivls_ok_page [of 0 xs "fst i" "snd i"] by simp
    then have "\<not> Suc (unat (snd i)) < unat v"
      using aligned_less [OF _ v, of "Suc (unat (snd i))"] that(2) w(3) by (auto simp: ov)
    then show ?thesis using xs that(1) by fastforce
  qed
  show ?thesis
  proof (cases xs rule: rev_cases)
    case Nil
    then show ?thesis using True noys by (simp add: p_def iter_first_def)
  next
    case (snoc xs' i)
    obtain s l where i: "i = (s, l)" by (cases i)
    have oki: "ivls_ok 0 (xs' @ [i])" using ok snoc by (simp add: i)
    have e: "end_of 0 xs = Suc (Suc (unat l))" using last_end oki snoc i by simp
    have sl: "unat s \<le> unat l" and page: "page_aligned (Suc (unat l))" using oki i by (simp_all add: word_le_nat_alt)
    have no: "find (overlaps (v - PAGE_SIZE) (v - 1)) xs' = None"
    proof (rule find_none)
      fix j assume j: "j \<in> set xs'"
      then have "snd j < s" using tree_split_fst [of 0 xs' "[i]" j i] oki i by simp
      then have "unat (snd j) < unat l" using sl by (simp add: word_less_nat_alt)
      then show "\<not> overlaps (v - PAGE_SIZE) (v - 1) j" using adj [of j] j xs snoc i by fastforce
    qed
    show ?thesis
    proof (cases "Suc (unat l) = unat v")
      case yes: True
      then have "overlaps (v - PAGE_SIZE) (v - 1) i" unfolding ov i fst_conv snd_conv using sl by linarith
      then have "p = Some i" using True no snoc by (simp add: p_def iter_first_def find_append)
      then show ?thesis using snoc yes i by auto
    next
      case False
      then have "\<not> overlaps (v - PAGE_SIZE) (v - 1) i" using adj [of i] snoc i by auto
      then have "p = None" using True no noys snoc by (simp add: p_def iter_first_def find_append)
      moreover have "unat l < unat v" using xs snoc i by simp
      ultimately show ?thesis using e False by simp
    qed
  qed
qed

lemma successor_cases:
  assumes ok: "ivls_ok 0 (xs @ ys)" and b: "page_aligned (unat b)" and xs: "\<forall>i \<in> set xs. unat (snd i) < unat b"
    and ys: "\<forall>j \<in> set ys. unat b \<le> unat (fst j)"
  defines "q \<equiv> iter_first (xs @ ys) b b"
  shows "(\<exists>j ys'. ys = j # ys' \<and> fst j = b \<and> q = Some j) \<or> (ivls_ok (Suc (unat b)) ys \<and> q = None)"
proof -
  have noxs: "find (overlaps b b) xs = None" using xs by (intro find_none) (auto simp: overlaps_def word_le_nat_alt)
  have ov: "overlaps b b j \<longleftrightarrow> fst j = b" if "j \<in> set ys" for j
    using ys that ok ivls_ok_lower [of "end_of 0 xs" ys "fst j" "snd j"]
    by (auto simp: overlaps_def word_le_nat_alt word_unat_eq_iff)
  show ?thesis
  proof (cases ys)
    case Nil
    then show ?thesis using noxs by (simp add: q_def iter_first_def find_append)
  next
    case (Cons j ys')
    show ?thesis
    proof (cases "fst j = b")
      case True
      then show ?thesis using noxs Cons ov [of j] by (simp add: q_def iter_first_def find_append)
    next
      case False
      have oky: "ivls_ok (end_of 0 xs) ys" using ok by simp
      have "Suc (unat b) \<le> unat (fst j)" using ys Cons False by (auto simp: word_unat_eq_iff)
      then have ok': "ivls_ok (Suc (unat b)) ys" using oky Cons by (cases j) auto
      have "\<not> overlaps b b i" if "i \<in> set ys" for i
        using ov [OF that] ivls_ok_lower [OF ok', of "fst i" "snd i"] that by auto
      then have "find (overlaps b b) ys = None" by (rule find_none)
      then show ?thesis using ok' noxs by (simp add: q_def iter_first_def find_append)
    qed
  qed
qed

text \<open>The addresses of \<open>n\<close> pages from \<open>v\<close> on, and that they are addresses.\<close>

definition pages :: "u64 \<Rightarrow> int \<Rightarrow> nat set" where
  "pages v n = {unat v..<unat v + 4096 * nat n}"

definition pages_ok :: "u64 \<Rightarrow> int \<Rightarrow> bool" where
  "pages_ok v n \<longleftrightarrow> page_aligned (unat v) \<and> 0 < n \<and> unat v + 4096 * nat n < 2 ^ 64"

lemma unat_behind:
  assumes "pages_ok v n"
  shows "unat (v + word_of_int n * PAGE_SIZE) = unat v + 4096 * nat n"
    and "unat (v + word_of_int n * PAGE_SIZE - 1) = unat v + 4096 * nat n - 1"
proof -
  have n: "0 < n" "4096 * nat n < 2 ^ 64 - unat v" using assms by (auto simp: pages_ok_def)
  then have "nat n < 2 ^ 64" by simp
  moreover have "(word_of_int n :: u64) = word_of_nat (nat n)" using n(1) by (metis nat_0_le less_imp_le of_int_of_nat_eq)
  ultimately have "unat (word_of_int n :: u64) = nat n" by (simp add: unat_of_nat take_bit_eq_mod)
  moreover have "unat (PAGE_SIZE :: u64) = 4096" by (simp add: PAGE_SIZE_def)
  ultimately have "unat ((word_of_int n :: u64) * PAGE_SIZE) = nat n * 4096"
    using n by (subst unat_mult_64) auto
  then show b: "unat (v + word_of_int n * PAGE_SIZE) = unat v + 4096 * nat n"
    using assms by (subst unat_add_64) (auto simp: pages_ok_def)
  then have "0 < v + word_of_int n * PAGE_SIZE" using n(1) by (simp add: word_less_nat_alt)
  then show "unat (v + word_of_int n * PAGE_SIZE - 1) = unat v + 4096 * nat n - 1"
    using b n(1) by (subst unat_sub) (auto simp: word_le_nat_alt)
qed

lemma insert_ok:
  assumes inv: "tree_inv t" and pg: "pages_ok v n" and new: "pages v n \<inter> covered t = {}"
  shows "\<exists>t'. insert_vmem_interval True v n t = Some (0, t') \<and> tree_inv t' \<and> covered t' = covered t \<union> pages v n"
proof -
  let ?b = "v + word_of_int n * PAGE_SIZE"
  note b = unat_behind [OF pg]
  have n: "0 < n" and va: "page_aligned (unat v)" using pg by (simp_all add: pages_ok_def)
  have ba: "page_aligned (unat ?b)" using va b(1) by (simp add: page_aligned_def)
  obtain xs ys where t: "t = xs @ ys" and xs: "\<forall>i \<in> set xs. unat (snd i) < unat v" and ys: "\<forall>j \<in> set ys. unat ?b \<le> unat (fst j)"
    using tree_split [of 0 t "unat v" "unat ?b"] inv new n b(1) by (auto simp: tree_inv_def pages_def)
  have ok: "ivls_ok 0 (xs @ ys)" using inv t by (simp add: tree_inv_def)
  have dist: "distinct t" using ivls_ok_distinct ok t by blast
  have vb: "unat v < unat ?b" using b(1) n by simp
  have ys': "\<forall>j \<in> set ys. unat v < unat (fst j)" using ys vb by (meson less_le_trans)
  have xs': "\<forall>i \<in> set xs. unat (snd i) < unat ?b" using xs vb by (meson less_trans)
  define p where "p = (if v > 0 then iter_first t (v - PAGE_SIZE) (v - 1) else None)"
  define q where "q = iter_first t ?b ?b"
  define ns where "ns = (case p of Some i \<Rightarrow> fst i | None \<Rightarrow> v)"
  define nl where "nl = (case q of Some j \<Rightarrow> snd j | None \<Rightarrow> ?b - 1)"
  have P: "(\<exists>xs' i. xs = xs' @ [i] \<and> Suc (unat (snd i)) = unat v \<and> p = Some i) \<or> (end_of 0 xs \<le> unat v \<and> p = None)"
    using predecessor_cases [OF ok va xs ys'] unfolding p_def t .
  have Q: "(\<exists>j ys'. ys = j # ys' \<and> fst j = ?b \<and> q = Some j) \<or> (ivls_ok (Suc (unat ?b)) ys \<and> q = None)"
    using successor_cases [OF ok ba xs' ys] unfolding q_def t .
  obtain xs' where X: "(case p of Some i \<Rightarrow> remove1 i t | None \<Rightarrow> t) = xs' @ ys" "ivls_ok 0 xs'" "end_of 0 xs' \<le> unat ns"
    "unat ns \<le> unat v" "page_aligned (unat ns)" "covered xs' \<union> {unat ns..<unat v} = covered xs" "set xs' \<subseteq> set xs"
    "\<And>i. p = Some i \<Longrightarrow> i \<in> set xs"
    using P
  proof
    assume "\<exists>xs' i. xs = xs' @ [i] \<and> Suc (unat (snd i)) = unat v \<and> p = Some i"
    then obtain xs' i where i: "xs = xs' @ [i]" "Suc (unat (snd i)) = unat v" "p = Some i" by blast
    obtain s l where il: "i = (s, l)" by (cases i)
    have o: "ivls_ok 0 xs'" "end_of 0 xs' \<le> unat s" "unat s \<le> unat l" "page_aligned (unat s)"
      using ok i(1) by (simp_all add: il word_le_nat_alt)
    have "remove1 i t = xs' @ ys" using dist i(1) t remove1_mid [of i xs' ys] by simp
    moreover have "cov1 i = {unat s..<unat v}" using i(2) by (auto simp: cov1_def il)
    moreover have "ns = s" by (simp add: ns_def i(3) il)
    ultimately show thesis using o i by (intro that [of xs']) (auto simp: il)
  next
    assume "end_of 0 xs \<le> unat v \<and> p = None"
    then show thesis using ok va by (intro that [of xs]) (auto simp: ns_def t)
  qed
  obtain ys' where Y: "(case q of Some j \<Rightarrow> remove1 j (xs' @ ys) | None \<Rightarrow> xs' @ ys) = xs' @ ys'"
    "ivls_ok (Suc (Suc (unat nl))) ys'" "unat v < Suc (unat nl)" "page_aligned (Suc (unat nl))" "Suc (unat nl) < 2 ^ 64"
    "{unat ?b..<Suc (unat nl)} \<union> covered ys' = covered ys" "unat ?b \<le> Suc (unat nl)" "set ys' \<subseteq> set ys" "\<And>j. q = Some j \<Longrightarrow> j \<in> set ys"
    using Q
  proof
    assume "\<exists>j ys'. ys = j # ys' \<and> fst j = ?b \<and> q = Some j"
    then obtain j ys' where j: "ys = j # ys'" "fst j = ?b" "q = Some j" by blast
    obtain l where jl: "j = (?b, l)" using j(2) by (cases j) auto
    have o: "unat ?b \<le> unat l" "page_aligned (Suc (unat l))" "Suc (unat l) < 2 ^ 64" "ivls_ok (Suc (Suc (unat l))) ys'"
      using ok j(1) by (simp_all add: jl word_le_nat_alt)
    have "j \<notin> set xs'" using X(7) dist t j(1) by auto
    then have "remove1 j (xs' @ ys) = xs' @ ys'" using j(1) remove1_mid by simp
    moreover have "cov1 j = {unat ?b..<Suc (unat l)}" by (auto simp: cov1_def jl)
    moreover have "nl = l" by (simp add: nl_def j(3) jl)
    ultimately show thesis using o j vb by (intro that [of ys']) (auto simp: jl)
  next
    assume a: "ivls_ok (Suc (unat ?b)) ys \<and> q = None"
    then have "Suc (unat nl) = unat ?b" using b vb by (simp add: nl_def)
    then show thesis using a ba vb pg by (intro that [of ys]) (auto simp: b(1) pages_ok_def)
  qed
  have pq: "p \<noteq> q \<or> p = None"
  proof (cases p)
    case (Some i)
    then have "i \<in> set xs" using X(8) by simp
    then have "i \<notin> set ys" using dist t by auto
    then show ?thesis using Y(9) [of i] Some by blast
  qed simp
  have before: "fst i < ns" if "i \<in> set xs'" for i
  proof -
    have "Suc (Suc (unat (snd i))) \<le> unat ns" using ivls_ok_upper [OF X(2), of "fst i" "snd i"] that X(3) by auto
    moreover have "unat (fst i) \<le> unat (snd i)" using ivls_ok_lower [OF X(2), of "fst i" "snd i"] that by (simp add: word_le_nat_alt)
    ultimately show ?thesis by (simp add: word_less_nat_alt)
  qed
  have behind: "ns \<le> fst j" if "j \<in> set ys'" for j
    using ys Y(8) that vb X(4) by (fastforce simp: word_le_nat_alt)
  have ins: "tree_insert (ns, nl) (xs' @ ys') = xs' @ (ns, nl) # ys'" by (rule insort_mid) (auto simp: before behind)
  have "insert_vmem_interval True v n t = Some (0, xs' @ (ns, nl) # ys')"
    using X(1) Y(1) ins pq unfolding insert_vmem_interval_def p_def [symmetric] Let_def q_def [symmetric]
    by (cases p; cases q) (auto simp: ns_def nl_def)
  moreover have "tree_inv (xs' @ (ns, nl) # ys')"
    using X(2-5) Y(2-5) by (simp add: tree_inv_def word_le_nat_alt)
  moreover have "covered (xs' @ (ns, nl) # ys') = covered t \<union> pages v n"
  proof -
    have "cov1 (ns, nl) = {unat ns..<unat v} \<union> pages v n \<union> {unat ?b..<Suc (unat nl)}"
      using X(4) Y(7) vb by (auto simp: cov1_def pages_def b(1))
    then show ?thesis using X(6) Y(6) by (auto simp: t)
  qed
  ultimately show ?thesis by blast
qed

section \<open>Removal\<close>

lemma tree_mid:
  assumes "ivls_ok lo (xs @ (s, l) # ys)"
  shows "\<And>i. i \<in> set xs \<Longrightarrow> fst i < s \<and> snd i < s" "\<And>j. j \<in> set ys \<Longrightarrow> l < fst j" "s \<le> l"
    "Suc (unat l) < 2 ^ 64" "page_aligned (unat s)" "page_aligned (Suc (unat l))" "(s, l) \<notin> set xs"
proof -
  show x: "fst i < s \<and> snd i < s" if "i \<in> set xs" for i using tree_split_fst [OF assms that, of "(s, l)"] by simp
  show "l < fst j" if "j \<in> set ys" for j
    using tree_split_fst [of lo "xs @ [(s, l)]" ys "(s, l)" j] assms that by simp
  show "s \<le> l" "Suc (unat l) < 2 ^ 64" "page_aligned (unat s)" "page_aligned (Suc (unat l))" using assms by simp_all
  show "(s, l) \<notin> set xs" using x [of "(s, l)"] by auto
qed

lemma split_range:
  fixes a b n l :: nat
  assumes "a \<le> b" "0 < n" "b + n \<le> Suc l"
  shows "{a..l} - {b..<b + n} = (if a \<noteq> b then {a..b - 1} else {}) \<union> (if b + n - 1 < l then {b + n..l} else {})"
  using assms by auto

lemma remove_ok:
  assumes inv: "tree_inv t" and t: "t = xs @ (s, l) # ys" and pg: "pages_ok v n" and sub: "pages v n \<subseteq> cov1 (s, l)"
  shows "\<exists>t'. remove_vmem_interval True v n t = Some t' \<and> tree_inv t' \<and> covered t' = covered t - pages v n
    \<and> set xs \<union> set ys \<subseteq> set t'"
proof -
  let ?en = "v + word_of_int n * PAGE_SIZE - 1"
  note b = unat_behind [OF pg]
  have n: "0 < n" and va: "page_aligned (unat v)" using pg by (simp_all add: pages_ok_def)
  have ok: "ivls_ok 0 (xs @ (s, l) # ys)" using inv t by (simp add: tree_inv_def)
  note mid = tree_mid [OF ok]
  have sv: "unat s \<le> unat v" "unat v + 4096 * nat n \<le> Suc (unat l)"
    using sub n by (auto simp: pages_def cov1_def subset_iff dest: spec [of _ "unat v"] spec [of _ "unat v + 4096 * nat n - 1"])
  have ven: "unat v \<le> unat ?en" "unat ?en \<le> unat l" using b(2) n sv by simp_all
  have en1: "unat (?en + 1) = unat v + 4096 * nat n" using b(1) by simp
  have first: "iter_first t v ?en = Some (s, l)"
  proof -
    have "find (overlaps v ?en) xs = None"
      using mid(1) sv(1) by (intro find_none) (fastforce simp: overlaps_def word_le_nat_alt word_less_nat_alt)
    moreover have "overlaps v ?en (s, l)" using sv ven by (simp add: overlaps_def word_le_nat_alt)
    ultimately show ?thesis by (simp add: iter_first_def t find_append)
  qed
  have "find (overlaps v ?en) ys = None"
    using mid(2) ven(2) by (intro find_none) (fastforce simp: overlaps_def word_le_nat_alt word_less_nat_alt)
  then have nxt: "iter_next t (s, l) v ?en = None" using iter_next_mid [OF mid(7)] by (simp add: t)
  have rem: "remove1 (s, l) t = xs @ ys" using remove1_mid [OF mid(7)] t by simp
  have right: "tree_insert (?en + 1, l) (xs @ ys) = xs @ (?en + 1, l) # ys" if "unat ?en < unat l"
  proof (rule insort_mid)
    show "fst i < fst (?en + 1, l)" if "i \<in> set xs" for i using mid(1) [OF that] sv n en1 by (simp add: word_less_nat_alt)
    show "fst (?en + 1, l) \<le> fst j" if "j \<in> set ys" for j using mid(2) [OF that] sv en1 by (simp add: word_le_nat_alt word_less_nat_alt)
  qed
  have left: "tree_insert (s, v - 1) (xs @ zs) = xs @ (s, v - 1) # zs" if "\<And>j. j \<in> set zs \<Longrightarrow> s \<le> fst j" for zs
    using mid(1) that by (intro insort_mid) auto
  have ysl: "s \<le> fst j" if "j \<in> set ys" for j using mid(2) [OF that] mid(3) by simp
  have sen: "s \<le> ?en + 1" using sv en1 by (simp add: word_le_nat_alt)
  define t' where "t' = xs @ (if s \<noteq> v then [(s, v - 1)] else []) @ (if unat ?en < unat l then [(?en + 1, l)] else []) @ ys"
  have l1: "tree_insert (s, v - 1) (xs @ ys) = xs @ (s, v - 1) # ys" by (rule left) (rule ysl)
  have l2: "tree_insert (s, v - 1) (xs @ (?en + 1, l) # ys) = xs @ (s, v - 1) # (?en + 1, l) # ys"
  proof (rule left)
    show "s \<le> fst j" if "j \<in> set ((?en + 1, l) # ys)" for j using that sen ysl [of j] by (cases "j = (?en + 1, l)") simp_all
  qed
  have run: "remove_vmem_interval True v n t = Some t'"
    using first nxt rem right l1 l2
    by (auto simp: remove_vmem_interval_def Let_def t t'_def word_less_nat_alt)
  have v1: "unat (v - 1) = unat v - 1" "unat s \<le> unat v - 1" "0 < unat v" if "s \<noteq> v"
  proof -
    have "unat s < unat v" using that sv(1) by (metis le_neq_implies_less word_unat_eq_iff)
    then show "unat (v - 1) = unat v - 1" "unat s \<le> unat v - 1" "0 < unat v" by (auto simp: unat_sub word_le_nat_alt)
  qed
  have oky: "ivls_ok (Suc (Suc (unat l))) ys" "ivls_ok 0 xs" "end_of 0 xs \<le> unat s" using ok by simp_all
  have gap: "Suc (Suc (unat (v - 1))) \<le> unat (?en + 1)" if "s \<noteq> v" using v1 [OF that] en1 n by simp
  have enl: "unat (?en + 1) \<le> unat l" if "unat ?en < unat l" using that en1 b(2) by linarith
  have ena: "page_aligned (unat (?en + 1))" using va en1 by (simp add: page_aligned_def)
  have "tree_inv t'"
  proof -
    have r: "ivls_ok lo ((if unat ?en < unat l then [(?en + 1, l)] else []) @ ys)" if "lo \<le> unat (?en + 1)" for lo
      using that oky(1) mid(4,6) ena enl ivls_ok_mono [OF oky(1), of lo] sv en1 by (auto simp: word_le_nat_alt)
    show ?thesis
    proof (cases "s = v")
      case True
      then show ?thesis using r [of "end_of 0 xs"] oky sv(1) en1 by (simp add: tree_inv_def t'_def)
    next
      case False
      have "page_aligned (Suc (unat (v - 1)))" "Suc (unat (v - 1)) < 2 ^ 64" using va v1 [OF False] by (auto simp: page_aligned_def)
      then show ?thesis using r [OF gap [OF False]] oky False v1 [OF False] mid(5)
        by (simp add: tree_inv_def t'_def word_le_nat_alt)
    qed
  qed
  moreover have "covered t' = covered t - pages v n"
  proof -
    have out: "pages v n \<inter> covered xs = {}" "pages v n \<inter> covered ys = {}"
      using sub covered_bounds [OF oky(2)] covered_bounds [OF oky(1)] oky(3) by (fastforce simp: cov1_def)+
    have "cov1 (s, l) - pages v n = (if s \<noteq> v then cov1 (s, v - 1) else {}) \<union> (if unat ?en < unat l then cov1 (?en + 1, l) else {})"
      using split_range [OF sv(1) _ sv(2)] n v1(1) en1 b(2) by (auto simp: cov1_def pages_def word_unat_eq_iff)
    then show ?thesis using out by (auto simp: t'_def t)
  qed
  moreover have "set xs \<union> set ys \<subseteq> set t'" by (auto simp: t'_def)
  ultimately show ?thesis using run by blast
qed

section \<open>Search\<close>

lemma search_loop_ok:
  assumes ok: "ivls_ok 0 (xs @ ys)" and all: "\<And>k. oks k" and n: "length ys \<le> n"
  shows "search_loop oks n e (find (overlaps a e) ys) (xs @ ys) acc = Some (0, acc @ filter (overlaps a e) ys)"
  using ok n
proof (induction ys arbitrary: xs a n acc)
  case (Cons i ys)
  obtain s l where i: "i = (s, l)" by (cases i)
  show ?case
  proof (cases "overlaps a e i")
    case False
    then show ?thesis using Cons.IH [of "xs @ [i]" n a acc] Cons.prems by simp
  next
    case True
    obtain m where m: "n = Suc m" using Cons.prems(2) by (cases n) auto
    note mid = tree_mid [OF Cons.prems(1) [unfolded i]]
    have nxt: "iter_next (xs @ i # ys) i (min (l + 1) e) e = find (overlaps (min (l + 1) e) e) ys"
      using iter_next_mid [OF mid(7)] by (simp add: i)
    have l1: "unat (l + 1) = Suc (unat l)" using mid(4) by simp
    have later: "min (l + 1) e \<le> snd j" if "j \<in> set ys" for j
    proof -
      have "l < fst j" "fst j \<le> snd j"
        using mid(2) [OF that] Cons.prems(1) ivls_ok_lower [of "Suc (Suc (unat l))" ys "fst j" "snd j"] that by (auto simp: i)
      then have "l + 1 \<le> snd j" using l1 by (simp add: word_le_nat_alt word_less_nat_alt)
      then show ?thesis by (rule min.coboundedI1)
    qed
    have same: "overlaps (min (l + 1) e) e j = overlaps a e j" if "j \<in> set ys" for j
    proof -
      have "a \<le> l" "l < snd j" using True mid(2) [OF that] Cons.prems(1) that ivls_ok_lower [of "Suc (Suc (unat l))" ys "fst j" "snd j"]
        by (auto simp: i overlaps_def)
      then have "a \<le> snd j" by (meson le_less_trans less_imp_le)
      then show ?thesis using later [OF that] by (simp add: overlaps_def)
    qed
    have "search_loop oks m e (find (overlaps (min (l + 1) e) e) ys) ((xs @ [i]) @ ys) (acc @ [i])
        = Some (0, (acc @ [i]) @ filter (overlaps (min (l + 1) e) e) ys)"
      using Cons.prems later m by (intro Cons.IH) auto
    moreover have "filter (overlaps (min (l + 1) e) e) ys = filter (overlaps a e) ys" using same by (simp cong: filter_cong)
    ultimately show ?thesis using True m nxt all [of "length acc"] by (simp add: i)
  qed
qed simp

lemma search_ok:
  assumes "tree_inv t" "\<And>k. oks k"
  shows "search_vmem_intervals oks v n t = Some (0, filter (overlaps v (v + word_of_int n * PAGE_SIZE - 1)) t)"
  using search_loop_ok [of "[]" t oks "length t" _ v "[]", OF _ assms(2)] assms(1)
  by (simp add: search_vmem_intervals_def iter_first_def tree_inv_def Let_def)

section \<open>Invalidation of a range\<close>

lemma to_int_pages:
  assumes "unat w < 4096 * 2 ^ 31"
  shows "to_int (drop_bit PAGE_SHIFT w) = int (unat w div 4096)"
proof -
  have d: "unat (drop_bit 12 w) = unat w div 4096" by (simp add: drop_bit_eq_div unat_div_distrib)
  have lt: "unat w div 4096 < 2 ^ 31" using assms by (simp add: less_mult_imp_div_less mult.commute)
  have "unat (ucast (drop_bit 12 w) :: u32) = unat w div 4096"
    using d lt by (simp add: unsigned_ucast_eq take_bit_eq_mod)
  then have "uint (ucast (drop_bit 12 w) :: u32) = int (unat w div 4096)" by (metis uint_nat)
  then have "sint (ucast (drop_bit 12 w) :: u32) = int (unat w div 4096)"
    using lt by (simp add: sint_uint signed_take_bit_int_eq_self)
  then show ?thesis by (simp add: to_int_def PAGE_SHIFT_def)
qed

text \<open>The part of one interval that lies in the range.\<close>

lemma interval_part:
  assumes i: "(s, l) \<in> set t" and inv: "tree_inv t" and st: "page_aligned (unat st)" "page_aligned (unat en)" "st < en"
    and small: "unat en - unat st < 4096 * 2 ^ 31" and ov: "overlaps st (en - 1) (s, l)"
  defines "a \<equiv> max s st" and "k \<equiv> to_int (drop_bit PAGE_SHIFT (min (l + 1) en - max s st))"
  shows "pages_ok a k" "pages a k = cov1 (s, l) \<inter> {unat st..<unat en}"
proof -
  have pg: "page_aligned (unat s)" "page_aligned (Suc (unat l))" "Suc (unat l) < 2 ^ 64" "s \<le> l"
    using ivls_ok_page [of 0 t s l] ivls_ok_lower [of 0 t s l] i inv by (simp_all add: tree_inv_def)
  have en1: "unat (en - 1) = unat en - 1" "0 < unat en" using st(3) by (auto simp: unat_sub word_le_nat_alt word_less_nat_alt)
  have o: "unat s < unat en" "unat st \<le> unat l" using ov en1 by (auto simp: overlaps_def word_le_nat_alt)
  have l1: "unat (l + 1) = Suc (unat l)" using pg(3) by simp
  define A where "A = max (unat s) (unat st)"
  define B where "B = min (Suc (unat l)) (unat en)"
  have a: "unat a = A" by (auto simp: a_def A_def max_def word_le_nat_alt)
  have b: "unat (min (l + 1) en) = B" using l1 by (auto simp: B_def min_def word_le_nat_alt)
  have AB: "A < B" using o pg(4) st(3) by (auto simp: A_def B_def word_le_nat_alt word_less_nat_alt)
  have al: "page_aligned A" "page_aligned B" using pg st by (auto simp: A_def B_def max_def min_def)
  have sub: "unat (min (l + 1) en - max s st) = B - A" using a b AB by (simp add: a_def unat_sub word_le_nat_alt)
  have le: "B - A < 4096 * 2 ^ 31" using small by (auto simp: A_def B_def)
  have k: "k = int ((B - A) div 4096)" using to_int_pages [of "min (l + 1) en - max s st"] le sub by (simp add: k_def)
  have "4096 dvd B - A" using al by (simp add: page_aligned_def)
  then have m: "4096 * nat k = B - A" using k by simp
  have "B < 2 ^ 64" using pg(3) by (auto simp: B_def)
  then show "pages_ok a k" using a al(1) m AB by (auto simp: pages_ok_def)
  show "pages a k = cov1 (s, l) \<inter> {unat st..<unat en}"
    using a m AB by (auto simp: pages_def cov1_def A_def B_def)
qed

lemma invalidate_loop_ok:
  assumes st: "page_aligned (unat st)" "page_aligned (unat en)" "st < en" "unat en - unat st < 4096 * 2 ^ 31"
  shows "tree_inv t \<Longrightarrow> distinct is \<Longrightarrow> set is \<subseteq> set t \<Longrightarrow> (\<And>i. i \<in> set is \<Longrightarrow> overlaps st (en - 1) i) \<Longrightarrow>
    \<exists>cs t'. invalidate_loop True st en is t = Some (cs, t') \<and> tree_inv t'
      \<and> covered t' = covered t - (covered is \<inter> {unat st..<unat en})
      \<and> (\<Union>(a, k) \<in> set cs. pages a k) = covered is \<inter> {unat st..<unat en}"
proof (induction "is" arbitrary: t)
  case (Cons i "is")
  obtain s l where i: "i = (s, l)" by (cases i)
  have mem: "(s, l) \<in> set t" and ov: "overlaps st (en - 1) (s, l)" using Cons.prems(3,4) by (auto simp: i)
  note part = interval_part [OF mem Cons.prems(1) st ov]
  obtain xs ys where t: "t = xs @ (s, l) # ys" using mem by (meson split_list)
  define a where "a = max s st"
  define k where "k = to_int (drop_bit PAGE_SHIFT (min (l + 1) en - max s st))"
  have pg: "pages_ok a k" and pe: "pages a k = cov1 (s, l) \<inter> {unat st..<unat en}" using part unfolding a_def k_def .
  have sub: "pages a k \<subseteq> cov1 (s, l)" using pe by simp
  obtain t1 where r: "remove_vmem_interval True a k t = Some t1" "tree_inv t1" "covered t1 = covered t - pages a k"
    "set xs \<union> set ys \<subseteq> set t1"
    using remove_ok [OF Cons.prems(1) t pg] sub by blast
  have "set is \<subseteq> set t1" using Cons.prems(2,3) r(4) by (auto simp: t i)
  then obtain cs t' where l: "invalidate_loop True st en is t1 = Some (cs, t')" "tree_inv t'"
    "covered t' = covered t1 - (covered is \<inter> {unat st..<unat en})" "(\<Union>(a, k) \<in> set cs. pages a k) = covered is \<inter> {unat st..<unat en}"
    using Cons.IH [OF r(2)] Cons.prems(2,4) by auto
  have "invalidate_loop True st en (i # is) t = Some ((a, k) # cs, t')"
    using r(1) l(1) unfolding a_def k_def by (simp add: i Let_def)
  moreover have "covered t' = covered t - (covered (i # is) \<inter> {unat st..<unat en})" using l(3) r(3) pe by (auto simp: i)
  moreover have "(\<Union>(a, k) \<in> set ((a, k) # cs). pages a k) = covered (i # is) \<inter> {unat st..<unat en}" using l(4) pe by (auto simp: i)
  ultimately show ?case using l(2) by blast
qed simp





text \<open>When the pages to be removed begin before the range they meet, the range is put back with its end
  in front of its beginning.\<close>

lemma remove_inverts_interval:
  "remove_vmem_interval True 0x2000 2 [(0x3000, 0x3FFF)] = Some [(0x3000, 0x1FFF)]"
  by code_simp

text \<open>When the middle of a range is removed and no memory is available, the rest of the range is lost.\<close>

lemma remove_loses_rest:
  "remove_vmem_interval False 0x2000 1 [(0x1000, 0x3FFF)] = Some [(0x1000, 0x1FFF)]"
  by code_simp

end
