(* ===== verification/Svm_Arrays.thy ===== *)
theory Svm_Arrays
  imports Svm_Intervals
begin

text \<open>
  The page faults of the IOMMU on the device, \<^verbatim>\<open>pcie/pcie_svm.c\<close>. The array of faulting addresses is
  sorted and compacted in place; an array is a list and the part in use its first \<open>size\<close> entries.
\<close>

section \<open>Arrays of addresses\<close>

definition VADDR_MASK :: u64 where
  [tlkm_const]: "VADDR_MASK = 0xFFFFFFFFFFFF"

definition svm_cmp_addr :: "u64 \<Rightarrow> u64 \<Rightarrow> int" where
  "svm_cmp_addr p1 p2 = (let addr_1 = p1 AND VADDR_MASK; addr_2 = p2 AND VADDR_MASK
     in of_bool (addr_1 > addr_2) - of_bool (addr_1 < addr_2))"

text \<open>The loops that move the entries behind a gap: \<^verbatim>\<open>for (; j < n; ++j) array[j] = array[j + gap]\<close>.\<close>

function move_down :: "nat \<Rightarrow> nat \<Rightarrow> nat \<Rightarrow> u64 list \<Rightarrow> u64 list" where
  "move_down j n gap a = (if j < n then move_down (j + 1) n gap (a[j := a ! (j + gap)]) else a)"
  by pat_completeness auto
termination by (relation "measure (\<lambda>(j, n, gap, a). n - j)") auto

declare move_down.simps [simp del]

function duplicates_loop :: "nat \<Rightarrow> u64 list \<Rightarrow> nat \<Rightarrow> nat \<times> u64 list" where
  "duplicates_loop i a sz =
     (if i < sz
      then if a ! i AND VADDR_MASK = a ! (i - 1) AND VADDR_MASK
           then duplicates_loop i (move_down i (sz - 1) 1 a) (sz - 1)
           else duplicates_loop (i + 1) a sz
      else (sz, a))"
  by pat_completeness auto
termination by (relation "measure (\<lambda>(i, a, n). n - i)") auto

declare duplicates_loop.simps [simp del]

definition remove_duplicates :: "u64 list \<Rightarrow> nat \<Rightarrow> nat \<times> u64 list" where
  "remove_duplicates a sz = duplicates_loop 1 a sz"

function gap_loop :: "u64 list \<Rightarrow> nat \<Rightarrow> nat \<Rightarrow> nat \<Rightarrow> nat" where
  "gap_loop a sz idx gap = (if idx + gap < sz \<and> a ! (idx + gap) = 0 then gap_loop a sz idx (gap + 1) else gap)"
  by pat_completeness auto
termination by (relation "measure (\<lambda>(a, sz, idx, gap). sz - (idx + gap))") auto

declare gap_loop.simps [simp del]

function pack_loop :: "nat \<Rightarrow> u64 list \<Rightarrow> nat \<Rightarrow> nat \<times> u64 list" where
  "pack_loop idx a sz =
     (if idx < sz
      then if a ! idx = 0
           then let gap = gap_loop a sz idx 1
                in pack_loop (idx + 1) (move_down idx (sz - gap) gap a) (sz - gap)
           else pack_loop (idx + 1) a sz
      else (sz, a))"
  by pat_completeness auto
termination by (relation "measure (\<lambda>(i, a, n). n - i)") auto

declare pack_loop.simps [simp del]

definition pack_array :: "u64 list \<Rightarrow> nat \<Rightarrow> nat \<times> u64 list" where
  "pack_array a sz = pack_loop 0 a sz"

text \<open>The part of the array in use.\<close>

definition used :: "nat \<times> u64 list \<Rightarrow> u64 list" where
  "used r = take (fst r) (snd r)"

section \<open>The loops are the list functions\<close>

lemma take_drop_Cons:
  assumes "i < length a" "0 < n"
  shows "take n (drop i a) = a ! i # take (n - 1) (drop (i + 1) a)"
  using assms Cons_nth_drop_Suc [of i a] by (cases n) (simp_all flip: Cons_nth_drop_Suc)

lemma move_down_eq:
  "j \<le> n \<Longrightarrow> n + gap \<le> length a \<Longrightarrow> 0 < gap \<Longrightarrow> move_down j n gap a = take j a @ take (n - j) (drop (j + gap) a) @ drop n a"
proof (induction j n gap a rule: move_down.induct)
  case (1 j n gap a)
  show ?case
  proof (cases "j < n")
    case True
    let ?a = "a[j := a ! (j + gap)]"
    have "move_down j n gap a = move_down (j + 1) n gap ?a" using True by (simp add: move_down.simps)
    also have "\<dots> = take (j + 1) ?a @ take (n - (j + 1)) (drop (j + 1 + gap) ?a) @ drop n ?a"
      using 1 True by simp
    also have "take (j + 1) ?a = take j a @ [a ! (j + gap)]"
      using 1 True by (simp add: take_Suc_conv_app_nth)
    also have "drop (j + 1 + gap) ?a = drop (j + 1 + gap) a" by simp
    also have "drop n ?a = drop n a" using True by simp
    also have "(take j a @ [a ! (j + gap)]) @ take (n - (j + 1)) (drop (j + 1 + gap) a) @ drop n a
        = take j a @ take (n - j) (drop (j + gap) a) @ drop n a"
      using take_drop_Cons [of "j + gap" a "n - j"] "1.prems" True by simp
    finally show ?thesis .
  next
    case False
    then have "j = n" using 1 by simp
    then show ?thesis by (simp add: move_down.simps)
  qed
qed

lemma move_down_used:
  assumes "j \<le> n" "n + gap \<le> length a" "0 < gap"
  shows "take n (move_down j n gap a) = take j a @ take (n - j) (drop (j + gap) a)" "length (move_down j n gap a) = length a"
  using assms by (auto simp: move_down_eq)

text \<open>What stands in front stays.\<close>

lemma gap_loop_zeros:
  "idx + gap \<le> sz \<Longrightarrow> sz \<le> length a \<Longrightarrow>
    take (sz - idx - gap) (drop (idx + gap) a) =
      replicate (gap_loop a sz idx gap - gap) 0 @ take (sz - idx - gap_loop a sz idx gap) (drop (idx + gap_loop a sz idx gap) a)
    \<and> gap \<le> gap_loop a sz idx gap \<and> idx + gap_loop a sz idx gap \<le> sz
    \<and> (idx + gap_loop a sz idx gap < sz \<longrightarrow> a ! (idx + gap_loop a sz idx gap) \<noteq> 0)"
proof (induction a sz idx gap rule: gap_loop.induct)
  case (1 a sz idx gap)
  let ?g = "gap_loop a sz idx gap"
  show ?case
  proof (cases "idx + gap < sz \<and> a ! (idx + gap) = 0")
    case True
    then have g: "?g = gap_loop a sz idx (gap + 1)" by (simp add: gap_loop.simps [of a sz idx gap])
    have le: "idx + (gap + 1) \<le> sz" using True by simp
    note ih = "1.IH" [OF True le "1.prems"(2), folded g]
    have "drop (idx + gap) a = 0 # drop (idx + (gap + 1)) a"
      using True "1.prems" Cons_nth_drop_Suc [of "idx + gap" a] by simp
    moreover have "sz - idx - gap = Suc (sz - idx - (gap + 1))" using True by linarith
    moreover have "?g - gap = Suc (?g - (gap + 1))" using ih by linarith
    ultimately show ?thesis using ih by simp
  next
    case False
    then have "?g = gap" by (auto simp: gap_loop.simps [of a sz idx gap])
    then show ?thesis using False "1.prems" by auto
  qed
qed

lemma pack_loop_filter:
  "sz \<le> length a \<Longrightarrow> idx \<le> sz \<Longrightarrow> pack_loop idx a sz = r \<Longrightarrow>
    used r = take idx a @ filter (\<lambda>x. x \<noteq> 0) (take (sz - idx) (drop idx a)) \<and> length (snd r) = length a \<and> fst r \<le> sz"
proof (induction idx a sz arbitrary: r rule: pack_loop.induct)
  case (1 idx a sz)
  show ?case
  proof (cases "idx < sz")
    case True
    have d: "take (sz - idx) (drop idx a) = a ! idx # take (sz - idx - 1) (drop (idx + 1) a)"
      using take_drop_Cons [of idx a "sz - idx"] True "1.prems" by simp
    show ?thesis
    proof (cases "a ! idx = 0")
      case False
      have "pack_loop (idx + 1) a sz = r" using "1.prems"(3) True False by (simp add: pack_loop.simps [of idx])
      from "1.IH"(2) [OF True False "1.prems"(1) _ this] True
      have "used r = take (idx + 1) a @ filter (\<lambda>x. x \<noteq> 0) (take (sz - (idx + 1)) (drop (idx + 1) a))
          \<and> length (snd r) = length a \<and> fst r \<le> sz" by simp
      then show ?thesis using True False 1(3) unfolding d by (simp add: take_Suc_conv_app_nth)
    next
      case z: True
      define g where "g = gap_loop a sz idx 1"
      define b where "b = move_down idx (sz - g) g a"
      have gz: "take (sz - idx - 1) (drop (idx + 1) a) = replicate (g - 1) 0 @ take (sz - idx - g) (drop (idx + g) a)"
        "1 \<le> g" "idx + g \<le> sz" "idx + g < sz \<Longrightarrow> a ! (idx + g) \<noteq> 0"
        using gap_loop_zeros [of idx 1 sz a] True "1.prems" by (auto simp: g_def)
      have b: "take (sz - g) b = take idx a @ take (sz - g - idx) (drop (idx + g) a)" "length b = length a"
        using move_down_used [of idx "sz - g" g a] gz "1.prems" by (auto simp: b_def)
      have rest: "filter (\<lambda>x. x \<noteq> 0) (take (sz - idx) (drop idx a)) = filter (\<lambda>x. x \<noteq> 0) (take (sz - g - idx) (drop (idx + g) a))"
        unfolding d gz(1) using z by (simp add: diff_diff_left add.commute)
      have rb: "pack_loop (idx + 1) b (sz - g) = r"
        using "1.prems"(3) True z by (simp add: pack_loop.simps [of idx] Let_def g_def b_def)
      show ?thesis
      proof (cases "idx + g < sz")
        case less: True
        have bl: "take (idx + 1) b = take idx a @ [a ! (idx + g)]" "take (sz - g - (idx + 1)) (drop (idx + 1) b) = take (sz - g - (idx + 1)) (drop (idx + g + 1) a)"
        proof -
          have h: "take (sz - g - idx) (drop (idx + g) a) = a ! (idx + g) # take (sz - g - (idx + 1)) (drop (idx + g + 1) a)"
            using take_drop_Cons [of "idx + g" a "sz - g - idx"] less "1.prems" by simp
          have "idx + 1 \<le> sz - g" using less by linarith
          then have "take (idx + 1) b = take (idx + 1) (take (sz - g) b)" by (simp only: take_take min_absorb1)
          then show "take (idx + 1) b = take idx a @ [a ! (idx + g)]" unfolding b h using less "1.prems" by simp
          have "take (sz - g - (idx + 1)) (drop (idx + 1) b) = drop (idx + 1) (take (sz - g) b)" by (simp add: drop_take)
          then show "take (sz - g - (idx + 1)) (drop (idx + 1) b) = take (sz - g - (idx + 1)) (drop (idx + g + 1) a)"
            unfolding b h using less "1.prems" by simp
        qed
        have "used r = take (idx + 1) b @ filter (\<lambda>x. x \<noteq> 0) (take (sz - g - (idx + 1)) (drop (idx + 1) b))
            \<and> length (snd r) = length b \<and> fst r \<le> sz - g"
          using "1.IH"(1) [OF True z g_def _ _ rb [unfolded b_def]] less b(2) "1.prems" unfolding b_def [symmetric] by simp
        moreover have "take (sz - g - idx) (drop (idx + g) a) = a ! (idx + g) # take (sz - g - (idx + 1)) (drop (idx + g + 1) a)"
          using take_drop_Cons [of "idx + g" a "sz - g - idx"] less "1.prems" by simp
        ultimately show ?thesis using bl rest gz(4) [OF less] b(2) by auto
      next
        case False
        then have e: "sz - g = idx" using gz by simp
        have "r = (sz - g, b)" using rb e by (simp add: pack_loop.simps [of "Suc idx"])
        then show ?thesis using b rest e by (simp add: used_def)
      qed
    qed
  next
    case False
    then have i: "idx = sz" using "1.prems" by simp
    then have "r = (sz, a)" using "1.prems" by (simp add: pack_loop.simps [of sz])
    then show ?thesis using "1.prems" by (simp add: used_def i)
  qed
qed

text \<open>The reference: of neighbours that are the same address the first is kept.\<close>

fun dedup :: "u64 list \<Rightarrow> u64 list" where
  "dedup (x # y # xs) = (if x AND VADDR_MASK = y AND VADDR_MASK then dedup (x # xs) else x # dedup (y # xs))"
| "dedup xs = xs"

lemma duplicates_loop_dedup:
  "0 < i \<Longrightarrow> i \<le> sz \<Longrightarrow> sz \<le> length a \<Longrightarrow> duplicates_loop i a sz = r \<Longrightarrow>
    used r = take (i - 1) a @ dedup (take (sz - (i - 1)) (drop (i - 1) a)) \<and> length (snd r) = length a \<and> fst r \<le> sz"
proof (induction i a sz arbitrary: r rule: duplicates_loop.induct)
  case (1 i a sz)
  have prev: "take (sz - (i - 1)) (drop (i - 1) a) = a ! (i - 1) # take (sz - i) (drop i a)"
    using take_drop_Cons [of "i - 1" a "sz - (i - 1)"] "1.prems" by simp
  show ?case
  proof (cases "i < sz")
    case less: True
    have here: "take (sz - i) (drop i a) = a ! i # take (sz - i - 1) (drop (i + 1) a)"
      using take_drop_Cons [of i a "sz - i"] "1.prems" less by simp
    show ?thesis
    proof (cases "a ! i AND VADDR_MASK = a ! (i - 1) AND VADDR_MASK")
      case same: True
      define b where "b = move_down i (sz - 1) 1 a"
      have b: "take (sz - 1) b = take i a @ take (sz - 1 - i) (drop (i + 1) a)" "length b = length a"
        using move_down_used [of i "sz - 1" 1 a] "1.prems" less by (simp_all add: b_def)
      have rb: "duplicates_loop i b (sz - 1) = r"
        using "1.prems"(4) less same by (simp add: duplicates_loop.simps [of i a] b_def)
      have "take (sz - 1 - (i - 1)) (drop (i - 1) b) = drop (i - 1) (take (sz - 1) b)" by (simp add: drop_take)
      also have "\<dots> = a ! (i - 1) # take (sz - 1 - i) (drop (i + 1) a)"
        unfolding b(1) using take_drop_Cons [of "i - 1" a 1] "1.prems" less by (simp add: drop_take)
      finally have tail: "take (sz - 1 - (i - 1)) (drop (i - 1) b) = a ! (i - 1) # take (sz - 1 - i) (drop (i + 1) a)" .
      have "i - 1 \<le> sz - 1" using less by simp
      then have front: "take (i - 1) b = take (i - 1) a"
        using arg_cong [OF b(1), of "take (i - 1)"] "1.prems" by (simp add: min_absorb1)
      have "i \<le> sz - 1" "sz - 1 \<le> length b" using less "1.prems" b(2) by simp_all
      from "1.IH"(1) [OF less same "1.prems"(1) this [unfolded b_def] rb [unfolded b_def]]
      have "used r = take (i - 1) b @ dedup (take (sz - 1 - (i - 1)) (drop (i - 1) b)) \<and> length (snd r) = length b \<and> fst r \<le> sz - 1"
        by (simp add: b_def)
      then show ?thesis using b(2) same unfolding tail front prev here by (auto simp: diff_right_commute)
    next
      case differ: False
      have "duplicates_loop (i + 1) a sz = r" using "1.prems"(4) less differ by (simp add: duplicates_loop.simps [of i a])
      with "1.IH"(2) [OF less differ _ _ "1.prems"(3)] less
      have "used r = take i a @ dedup (take (sz - i) (drop i a)) \<and> length (snd r) = length a \<and> fst r \<le> sz" by simp
      moreover have "take i a = take (i - 1) a @ [a ! (i - 1)]"
        using "1.prems" take_Suc_conv_app_nth [of "i - 1" a] by simp
      ultimately show ?thesis using differ unfolding prev here by simp
    qed
  next
    case False
    then have i: "i = sz" using "1.prems" by simp
    have "take sz a = take (sz - 1) a @ [a ! (sz - 1)]"
      using "1.prems" take_Suc_conv_app_nth [of "sz - 1" a] by (simp add: i)
    moreover have "r = (sz, a)" using "1.prems" by (simp add: duplicates_loop.simps [of sz] i)
    ultimately show ?thesis using prev by (simp add: used_def i)
  qed
qed

lemma dedup_remdups_adj: "(\<And>x. x \<in> set xs \<Longrightarrow> x AND VADDR_MASK = x) \<Longrightarrow> dedup xs = remdups_adj xs"
  by (induction xs rule: dedup.induct) auto

text \<open>\<^verbatim>\<open>sort\<close> of the kernel with \<^const>\<open>svm_cmp_addr\<close>: ascending by address.\<close>

definition sort_addrs :: "u64 list \<Rightarrow> nat \<Rightarrow> u64 list" where
  "sort_addrs a sz = sort_key (\<lambda>x. x AND VADDR_MASK) (take sz a) @ drop sz a"

lemma svm_cmp_addr_le: "svm_cmp_addr x y \<le> 0 \<longleftrightarrow> x AND VADDR_MASK \<le> y AND VADDR_MASK"
  by (cases "x AND VADDR_MASK \<le> y AND VADDR_MASK") (auto simp: svm_cmp_addr_def Let_def not_le)

lemma sorted_remdups_adj_eq:
  assumes "sorted xs"
  shows "remdups_adj xs = sorted_list_of_set (set xs)"
proof -
  have "distinct (remdups_adj xs)" using assms by (induction xs rule: remdups_adj.induct) fastforce+
  then have "sorted_list_of_set (set (remdups_adj xs)) = remdups_adj xs"
    by (rule sorted_list_of_set.idem_if_sorted_distinct [OF sorted_remdups_adj [OF assms]])
  then show ?thesis by simp
qed

text \<open>C40: The in-place array routines are the list functions they stand for. \<^verbatim>\<open>pack_array\<close> keeps exactly the
  non-zero entries in their order; \<^verbatim>\<open>remove_duplicates\<close> keeps the first of neighbours that
  are the same address; sorting a batch of faults and removing the duplicates gives the
  faulting addresses in ascending order, each once. Nothing is written behind the array.\<close>

theorem svm_fault_arrays_equiv:
  assumes "n \<le> length a"
  shows "used (pack_array a n) = filter (\<lambda>x. x \<noteq> 0) (take n a) \<and> length (snd (pack_array a n)) = length a
    \<and> used (remove_duplicates a n) = dedup (take n a) \<and> length (snd (remove_duplicates a n)) = length a
    \<and> ((\<forall>x \<in> set (take n a). x AND VADDR_MASK = x) \<longrightarrow>
        used (remove_duplicates (sort_addrs a n) n) = sorted_list_of_set (set (take n a)))"
proof -
  have dup: "used (remove_duplicates b n) = dedup (take n b) \<and> length (snd (remove_duplicates b n)) = length b" if "n \<le> length b" for b
  proof (cases "n = 0")
    case True
    then show ?thesis by (simp add: remove_duplicates_def duplicates_loop.simps [of "Suc 0" b] used_def)
  next
    case False
    then show ?thesis using duplicates_loop_dedup [of 1 n b] that by (simp add: remove_duplicates_def)
  qed
  have "used (remove_duplicates (sort_addrs a n) n) = sorted_list_of_set (set (take n a))"
    if m: "\<And>x. x \<in> set (take n a) \<Longrightarrow> x AND VADDR_MASK = x"
  proof -
    let ?s = "sort_key (\<lambda>x. x AND VADDR_MASK) (take n a)"
    have "map (\<lambda>x. x AND VADDR_MASK) ?s = map (\<lambda>x. x) ?s" using m by (intro map_cong) auto
    then have "sorted ?s" using sorted_sort_key [of "\<lambda>x. x AND VADDR_MASK" "take n a"] by simp
    moreover have "dedup ?s = remdups_adj ?s" using m by (intro dedup_remdups_adj) simp
    moreover have "take n (sort_addrs a n) = ?s" "n \<le> length (sort_addrs a n)" using assms by (simp_all add: sort_addrs_def)
    ultimately show ?thesis using dup [of "sort_addrs a n"] sorted_remdups_adj_eq [of ?s] by simp
  qed
  moreover have "used (pack_array a n) = filter (\<lambda>x. x \<noteq> 0) (take n a) \<and> length (snd (pack_array a n)) = length a"
    using pack_loop_filter [of n a 0] assms by (simp add: pack_array_def)
  ultimately show ?thesis using dup [OF assms] by blast
qed

theorem svm_fault_arrays_equiv_witness:
  "used (pack_array [0, 0x3000, 0, 0, 0x1000, 7] 5) = [0x3000, 0x1000]
    \<and> used (remove_duplicates (sort_addrs [0x3000, 0x1000, 0x3000, 7] 3) 3) = [0x1000, 0x3000]"
proof -
  let ?a = "[0, 0x3000, 0, 0, 0x1000, 7] :: u64 list" and ?b = "[0x3000, 0x1000, 0x3000, 7] :: u64 list"
  have le: "5 \<le> length ?a" "3 \<le> length ?b" by simp_all
  have m: "\<forall>x \<in> set (take 3 ?b). x AND VADDR_MASK = x" by (simp add: VADDR_MASK_def)
  have "used (remove_duplicates (sort_addrs ?b 3) 3) = sorted_list_of_set (set (take 3 ?b))"
    using svm_fault_arrays_equiv [OF le(2)] m by blast
  also have "\<dots> = [0x1000, 0x3000]" unfolding sorted_list_of_set_sort_remdups by simp
  finally show ?thesis using svm_fault_arrays_equiv [OF le(1)] by simp
qed

end
