(* ===== verification/Svm_Regs.thy ===== *)
theory Svm_Regs
  imports Svm_Arrays Kernel_Env
begin

text \<open>
  The registers of the IOMMU and of the PageDMA core on a device with shared virtual memory,
  \<^verbatim>\<open>pcie/pcie_svm.h\<close>, and the operations of \<^verbatim>\<open>pcie/pcie_svm.c\<close> that program them. Several devices may take
  part in a migration; a device is named by a number. All calls of the migration code into the
  kernel are listed here too, so that the theories on migration share one trace.
\<close>

unbundle bit_operations_syntax

section \<open>Registers\<close>

datatype svm_reg =
    Mmu_cmd | Mmu_vaddr | Mmu_paddr | Mmu_faulted_vaddr | Mmu_intr_enable | Mmu_status
  | C2h_status_ctrl | C2h_src_addr | C2h_dst_addr | C2h_start_len | C2h_cmd_cnt
  | H2c_status_ctrl | H2c_src_addr | H2c_dst_addr | H2c_start_len | H2c_cmd_cnt
  | Dma_id | Own_mac | Dst_mac

definition MMU_INVALIDATE_ENTRY :: u64 where [tlkm_const]: "MMU_INVALIDATE_ENTRY = 0x2"
definition MMU_ADD_ENTRY :: u64 where [tlkm_const]: "MMU_ADD_ENTRY = 0x4"
definition MMU_ADD_AL_ENTRY :: u64 where [tlkm_const]: "MMU_ADD_AL_ENTRY = 0x6"
definition MMU_ACTIVATE :: u64 where [tlkm_const]: "MMU_ACTIVATE = 0x8"
definition MMU_DEACTIVATE :: u64 where [tlkm_const]: "MMU_DEACTIVATE = 0x9"
definition MMU_FAULT_REPLAY :: u64 where [tlkm_const]: "MMU_FAULT_REPLAY = 0xA"
definition MMU_MAX_MAPPING_LENGTH :: nat where [tlkm_const]: "MMU_MAX_MAPPING_LENGTH = 32768"
definition MMU_AL_LENGTH_SHIFT :: nat where [tlkm_const]: "MMU_AL_LENGTH_SHIFT = 48"
definition MMU_INVALIDATE_LENGTH_SHIFT :: nat where [tlkm_const]: "MMU_INVALIDATE_LENGTH_SHIFT = 48"
definition MMU_STATUS_MEM_ACCESS_ACTIVE :: u64 where [tlkm_const]: "MMU_STATUS_MEM_ACCESS_ACTIVE = 1"
definition MMU_STATUS_ANY_MEM_ACCESS :: u64 where [tlkm_const]: "MMU_STATUS_ANY_MEM_ACCESS = 2"
definition MMU_INTR_ENABLE :: u64 where [tlkm_const]: "MMU_INTR_ENABLE = 1"
definition MMU_ISSUE_FAULT_ENABLE :: u64 where [tlkm_const]: "MMU_ISSUE_FAULT_ENABLE = 2"

definition NETWORK_PAGE_DMA_ID :: u64 where [tlkm_const]: "NETWORK_PAGE_DMA_ID = 0x5A6ED4AE"
definition PAGE_DMA_STAT_BUSY :: u64 where [tlkm_const]: "PAGE_DMA_STAT_BUSY = 1"
definition PAGE_DMA_STAT_ERROR_FLAGS :: u64 where [tlkm_const]: "PAGE_DMA_STAT_ERROR_FLAGS = 0xC"
definition PAGE_DMA_CTRL_RESET_INTR :: u64 where [tlkm_const]: "PAGE_DMA_CTRL_RESET_INTR = 0x2"
definition PAGE_DMA_CTRL_INTR_ENABLE :: u64 where [tlkm_const]: "PAGE_DMA_CTRL_INTR_ENABLE = 0x20"
definition PAGE_DMA_CTRL_INTR_DISABLE :: u64 where [tlkm_const]: "PAGE_DMA_CTRL_INTR_DISABLE = 0x40"
definition PAGE_DMA_CMD_START :: u64 where [tlkm_const]: "PAGE_DMA_CMD_START = 0x8000000000000000"
definition PAGE_DMA_CMD_CLEAR :: u64 where [tlkm_const]: "PAGE_DMA_CMD_CLEAR = 0x4000000000000000"
definition PAGE_DMA_CMD_NETWORK :: u64 where [tlkm_const]: "PAGE_DMA_CMD_NETWORK = 0x1000000000000000"
definition PAGE_DMA_POLL_LIMIT :: nat where [tlkm_const]: "PAGE_DMA_POLL_LIMIT = 128"
definition PAGE_DMA_MAX_NPAGES :: nat where [tlkm_const]: "PAGE_DMA_MAX_NPAGES = 4096"
definition DEV_TO_DEV_DMA_MAX_NPAGES :: nat where [tlkm_const]: "DEV_TO_DEV_DMA_MAX_NPAGES = 1024"
definition PAGE_DMA_TIMEOUT_MSECS :: int where [tlkm_const]: "PAGE_DMA_TIMEOUT_MSECS = 1000"
definition DMA_TIMEOUT_ERROR :: u32 where [tlkm_const]: "DMA_TIMEOUT_ERROR = 1"
definition MMU_DEACTIVATED_ERROR :: u32 where [tlkm_const]: "MMU_DEACTIVATED_ERROR = 2"

section \<open>State and calls\<close>

text \<open>\<^verbatim>\<open>struct tlkm_pcie_svm_data\<close>: what the migration code reads and writes. The state holds these data
  for every device.\<close>

record svm_data =
  base_pfn :: u64
  free_mem_blocks :: "device_memory_block list"
  vmem_intervals :: "ivl list"
  error_state :: u32
  network_dma_enabled :: bool
  mac_addr :: u64
  rdma_bar :: u64

datatype dma_dir = DMA_TO_DEVICE | DMA_FROM_DEVICE

text \<open>\<open>Src_page\<close>, \<open>Cpages\<close> and \<open>Src_migrate\<close> read the results the kernel has stored in the structure
  \<^verbatim>\<open>migrate_vma\<close>: the page of an entry (0 for none), the number of pages collected, and whether
  the flag \<^verbatim>\<open>MIGRATE_PFN_MIGRATE\<close> of an entry is set. \<open>Kmalloc_node\<close> asks whether memory for a node of the
  interval tree is available. \<open>Undefined_behaviour\<close> marks the place where the code would free a node twice.\<close>

datatype svm_call =
    Writeq nat u64 svm_reg | Readq nat svm_reg
  | Ktime_get_ms | Wait_event_timeout nat bool \<comment> \<open>device; card-to-host or host-to-card\<close>
  | Kcalloc nat | Kfree int | Kmalloc_node
  | Kmalloc_buf nat | Dma_map_single nat int nat | Dma_unmap_single nat int nat
  | Find_vma_intersection u64 u64
  | Migrate_vma_setup nat bool u64 u64 \<comment> \<open>owner, select device private, start, end\<close>
  | Migrate_vma_pages | Migrate_vma_finalize | Cpages | Src_page nat | Src_migrate nat
  | Get_device_page u64 | Unlock_page u64 | Put_page u64
  | Alloc_page_vma u64 | Lock_page u64 | Free_page u64
  | Dma_map_page nat u64 dma_dir | Dma_unmap_page nat u64 dma_dir
  | Set_zone_device_data u64 nat | Clear_zone_device_data u64
  | Kmalloc_env | Queue_pages_free nat int "u64 list"
  | Undefined_behaviour

type_synonym 'r svm_m = "(svm_call, nat \<Rightarrow> svm_data, 'r) km"
type_synonym svm_st = "(svm_call, nat \<Rightarrow> svm_data) kst"

abbreviation writeq :: "svm_call kenv \<Rightarrow> nat \<Rightarrow> u64 \<Rightarrow> svm_reg \<Rightarrow> (svm_call, 'd, unit) km" where
  "writeq K d v r \<equiv> kdo K (Writeq d v r)"

definition readq :: "svm_call kenv \<Rightarrow> nat \<Rightarrow> svm_reg \<Rightarrow> (svm_call, 'd, u64) km" where
  "readq K d r = do { v \<leftarrow> kcall K (Readq d r); State_Monad.return (word_of_int v) }"

text \<open>A computation without result.\<close>

lemma unit_run:
  obtains s' where "run_state m s = ((), s')"
  by (cases "run_state m s") auto

lemma upt_split: "i \<le> j \<Longrightarrow> j \<le> k \<Longrightarrow> [i..<k] = [i..<j] @ [j..<k]"
  using upt_add_eq_append [of i j "k - j"] by simp

section \<open>The TLB\<close>

definition add_tlb_entry :: "svm_call kenv \<Rightarrow> nat \<Rightarrow> u64 \<Rightarrow> u64 \<Rightarrow> (svm_call, 'd, unit) km" where
  "add_tlb_entry K d vaddr paddr = do {
     writeq K d vaddr Mmu_vaddr;
     writeq K d paddr Mmu_paddr;
     writeq K d MMU_ADD_ENTRY Mmu_cmd
   }"

definition add_al_tlb_entry :: "svm_call kenv \<Rightarrow> nat \<Rightarrow> u64 \<Rightarrow> u64 \<Rightarrow> nat \<Rightarrow> (svm_call, 'd, unit) km" where
  "add_al_tlb_entry K d vaddr paddr npages = do {
     writeq K d vaddr Mmu_vaddr;
     writeq K d paddr Mmu_paddr;
     writeq K d (MMU_ADD_AL_ENTRY OR push_bit MMU_AL_LENGTH_SHIFT (word_of_nat npages)) Mmu_cmd
   }"

definition invalidate_tlb_entry :: "svm_call kenv \<Rightarrow> nat \<Rightarrow> u64 \<Rightarrow> (svm_call, 'd, unit) km" where
  "invalidate_tlb_entry K d vaddr = do {
     writeq K d vaddr Mmu_vaddr;
     writeq K d MMU_INVALIDATE_ENTRY Mmu_cmd
   }"

definition invalidate_tlb_range :: "svm_call kenv \<Rightarrow> nat \<Rightarrow> u64 \<Rightarrow> nat \<Rightarrow> (svm_call, 'd, unit) km" where
  "invalidate_tlb_range K d base npages = do {
     writeq K d base Mmu_vaddr;
     writeq K d (push_bit MMU_INVALIDATE_LENGTH_SHIFT (word_of_nat npages) OR MMU_INVALIDATE_ENTRY) Mmu_cmd
   }"

definition start_fault_replay :: "svm_call kenv \<Rightarrow> nat \<Rightarrow> (svm_call, 'd, unit) km" where
  "start_fault_replay K d = writeq K d MMU_FAULT_REPLAY Mmu_cmd"

text \<open>The translations of a migrated range: the first and the last page on their own, long stretches
  between them in entries of variable length.\<close>

fun tlb_entries :: "svm_call kenv \<Rightarrow> nat \<Rightarrow> u64 \<Rightarrow> u64 \<Rightarrow> u64 \<Rightarrow> nat list \<Rightarrow> (svm_call, 'd, unit) km" where
  "tlb_entries K d bpfn vaddr pfn [] = State_Monad.return ()"
| "tlb_entries K d bpfn vaddr pfn (j # js) = do {
     add_tlb_entry K d (vaddr + word_of_nat j * PAGE_SIZE) (pfn_to_dev_addr bpfn (pfn + word_of_nat j));
     tlb_entries K d bpfn vaddr pfn js
   }"

function tlb_fill_loop :: "svm_call kenv \<Rightarrow> nat \<Rightarrow> u64 \<Rightarrow> u64 \<Rightarrow> u64 \<Rightarrow> nat \<Rightarrow> nat \<Rightarrow> (svm_call, 'd, nat) km" where
  "tlb_fill_loop K d bpfn vaddr pfn npages i =
     (if i < npages - 1
      then let n = min (npages - 1 - i) MMU_MAX_MAPPING_LENGTH in do {
        (if n \<ge> 64
         then add_al_tlb_entry K d (vaddr + word_of_nat i * PAGE_SIZE) (pfn_to_dev_addr bpfn (pfn + word_of_nat i)) n
         else tlb_entries K d bpfn vaddr pfn [i..<i + n]);
        tlb_fill_loop K d bpfn vaddr pfn npages (i + n) }
      else State_Monad.return i)"
  by pat_completeness auto
termination by (relation "measure (\<lambda>(K, d, b, v, p, npages, i). npages - i)") (auto simp: MMU_MAX_MAPPING_LENGTH_def)

declare tlb_fill_loop.simps [simp del]

definition add_tlb_entries :: "svm_call kenv \<Rightarrow> nat \<Rightarrow> u64 \<Rightarrow> u64 \<Rightarrow> u64 \<Rightarrow> nat \<Rightarrow> (svm_call, 'd, unit) km" where
  "add_tlb_entries K d bpfn vaddr pfn npages = do {
     add_tlb_entry K d vaddr (pfn_to_dev_addr bpfn pfn);
     i \<leftarrow> tlb_fill_loop K d bpfn vaddr pfn npages 1;
     if i < npages
     then add_tlb_entry K d (vaddr + word_of_nat i * PAGE_SIZE) (pfn_to_dev_addr bpfn (pfn + word_of_nat i))
     else State_Monad.return ()
   }"

section \<open>The PageDMA core\<close>

text \<open>The loops over commands of at most \<^const>\<open>PAGE_DMA_MAX_NPAGES\<close> pages; the addresses are the same
  for every command.\<close>

definition cmd_pages :: "nat \<Rightarrow> nat" where
  "cmd_pages npages = (if npages > PAGE_DMA_MAX_NPAGES then PAGE_DMA_MAX_NPAGES else npages)"

function init_c2h_dma :: "svm_call kenv \<Rightarrow> nat \<Rightarrow> u64 \<Rightarrow> u64 \<Rightarrow> nat \<Rightarrow> bool \<Rightarrow> (svm_call, 'd, unit) km" where
  "init_c2h_dma K d host_addr dev_addr npages network =
     (if npages = 0 then State_Monad.return ()
      else do {
        writeq K d dev_addr C2h_src_addr;
        (if \<not> network then writeq K d host_addr C2h_dst_addr else State_Monad.return ());
        let wval = word_of_nat (cmd_pages npages) OR PAGE_DMA_CMD_START;
        writeq K d (if network then wval OR PAGE_DMA_CMD_NETWORK else wval) C2h_start_len;
        init_c2h_dma K d host_addr dev_addr (npages - cmd_pages npages) network })"
  by pat_completeness auto
termination by (relation "measure (\<lambda>(K, d, h, v, npages, n). npages)") (auto simp: cmd_pages_def PAGE_DMA_MAX_NPAGES_def)

function init_h2c_dma :: "svm_call kenv \<Rightarrow> nat \<Rightarrow> u64 \<Rightarrow> u64 \<Rightarrow> nat \<Rightarrow> bool \<Rightarrow> bool \<Rightarrow> (svm_call, 'd, unit) km" where
  "init_h2c_dma K d host_addr dev_addr npages clear network =
     (if npages = 0 then State_Monad.return ()
      else do {
        let wval0 = word_of_nat (cmd_pages npages) OR PAGE_DMA_CMD_START;
        let wval1 = (if clear then wval0 OR PAGE_DMA_CMD_CLEAR else wval0);
        let wval = (if network then wval1 OR PAGE_DMA_CMD_NETWORK else wval1);
        (if \<not> network \<and> \<not> clear then writeq K d host_addr H2c_src_addr else State_Monad.return ());
        writeq K d dev_addr H2c_dst_addr;
        writeq K d wval H2c_start_len;
        init_h2c_dma K d host_addr dev_addr (npages - cmd_pages npages) clear network })"
  by pat_completeness auto
termination by (relation "measure (\<lambda>(K, d, h, v, npages, c, n). npages)") (auto simp: cmd_pages_def PAGE_DMA_MAX_NPAGES_def)

declare init_c2h_dma.simps [simp del] init_h2c_dma.simps [simp del]

text \<open>Waiting for the core. \<open>polls\<close> bounds the number of readings of a status register: after so many
  readings the clock has passed the time-out, or the accesses a loop without time-out waits for
  have ended.\<close>

fun poll_dma :: "svm_call kenv \<Rightarrow> nat \<Rightarrow> nat \<Rightarrow> svm_reg \<Rightarrow> int \<Rightarrow> (svm_call, 'd, u64 \<times> bool) km" where
  "poll_dma K polls d r start = do {
     rval \<leftarrow> readq K d r;
     now \<leftarrow> kcall K Ktime_get_ms;
     let late = (polls = 0 \<or> now - start \<ge> PAGE_DMA_TIMEOUT_MSECS);
     if rval AND PAGE_DMA_STAT_BUSY \<noteq> 0 \<and> \<not> late
     then (case polls of 0 \<Rightarrow> State_Monad.return (rval, late) | Suc n \<Rightarrow> poll_dma K n d r start)
     else State_Monad.return (rval, late)
   }"

declare poll_dma.simps [simp del]

definition wait_for_intr :: "svm_call kenv \<Rightarrow> nat \<Rightarrow> nat \<Rightarrow> bool \<Rightarrow> svm_reg \<Rightarrow> bool \<Rightarrow> int svm_m" where
  "wait_for_intr K polls d c2h r poll =
     (if poll then do {
        start \<leftarrow> kcall K Ktime_get_ms;
        (rval, late) \<leftarrow> poll_dma K polls d r start;
        if rval AND PAGE_DMA_STAT_ERROR_FLAGS \<noteq> 0 then State_Monad.return (- EFAULT)
        else if late then do {
          modd (\<lambda>s. s(d := (s d)\<lparr>error_state := error_state (s d) OR DMA_TIMEOUT_ERROR\<rparr>));
          State_Monad.return (- ETIME) }
        else State_Monad.return 0 }
      else do {
        writeq K d PAGE_DMA_CTRL_INTR_ENABLE r;
        t \<leftarrow> kcall K (Wait_event_timeout d c2h);
        res \<leftarrow> (if t = 0 then do {
                  modd (\<lambda>s. s(d := (s d)\<lparr>error_state := error_state (s d) OR DMA_TIMEOUT_ERROR\<rparr>));
                  State_Monad.return (- ETIME) }
                else State_Monad.return (if t < 0 then - EINTR else 0));
        writeq K d (PAGE_DMA_CTRL_INTR_DISABLE OR PAGE_DMA_CTRL_RESET_INTR) r;
        State_Monad.return res })"

definition wait_for_c2h_intr :: "svm_call kenv \<Rightarrow> nat \<Rightarrow> nat \<Rightarrow> bool \<Rightarrow> int svm_m" where
  "wait_for_c2h_intr K polls d poll = wait_for_intr K polls d True C2h_status_ctrl poll"

definition wait_for_h2c_intr :: "svm_call kenv \<Rightarrow> nat \<Rightarrow> nat \<Rightarrow> bool \<Rightarrow> int svm_m" where
  "wait_for_h2c_intr K polls d poll = wait_for_intr K polls d False H2c_status_ctrl poll"

section \<open>What the hardware sees\<close>

text \<open>The cores take over the contents of their registers when a command is written. From a trace:
  the contents of the registers of device \<open>d\<close>, and for every write to the command register \<open>cr\<close> the
  value written together with the registers at that time.\<close>

definition hw_step :: "nat \<Rightarrow> svm_reg \<Rightarrow> (svm_reg \<Rightarrow> u64) \<times> (u64 \<times> (svm_reg \<Rightarrow> u64)) list \<Rightarrow> svm_call \<times> int
    \<Rightarrow> (svm_reg \<Rightarrow> u64) \<times> (u64 \<times> (svm_reg \<Rightarrow> u64)) list" where
  "hw_step d cr h e = (case fst e of
     Writeq d' v r \<Rightarrow> if d' = d then ((fst h)(r := v), if r = cr then snd h @ [(v, fst h)] else snd h) else h
   | _ \<Rightarrow> h)"

definition hw :: "nat \<Rightarrow> svm_reg \<Rightarrow> (svm_call \<times> int) list \<Rightarrow> (svm_reg \<Rightarrow> u64) \<times> (u64 \<times> (svm_reg \<Rightarrow> u64)) list" where
  "hw d cr tr = foldl (hw_step d cr) (\<lambda>_. 0, []) tr"

lemma hw_append [simp]: "hw d cr (tr @ es) = foldl (hw_step d cr) (hw d cr tr) es"
  by (simp add: hw_def)

lemma hw_step_simps [simp]:
  "hw_step d cr h (Writeq d' v r, x) =
     (if d' = d then ((fst h)(r := v), if r = cr then snd h @ [(v, fst h)] else snd h) else h)"
  "hw_step d cr h (Readq d' r, x) = h"
  "hw_step d cr h (Ktime_get_ms, x) = h"
  "hw_step d cr h (Wait_event_timeout d' c, x) = h"
  by (simp_all add: hw_step_def)

text \<open>The translations an IOMMU is given, page by page.\<close>

definition tlb_pages :: "u64 \<times> (svm_reg \<Rightarrow> u64) \<Rightarrow> (u64 \<times> u64) list" where
  "tlb_pages c = (case c of (v, L) \<Rightarrow>
     if v = MMU_ADD_ENTRY then [(L Mmu_vaddr, L Mmu_paddr)]
     else if take_bit 48 v = MMU_ADD_AL_ENTRY
     then map (\<lambda>j. (L Mmu_vaddr + word_of_nat j * PAGE_SIZE, L Mmu_paddr + word_of_nat j * PAGE_SIZE))
            [0..<unat (drop_bit MMU_AL_LENGTH_SHIFT v)]
     else [])"

definition tlb :: "nat \<Rightarrow> (svm_call \<times> int) list \<Rightarrow> (u64 \<times> u64) list" where
  "tlb d tr = concat (map tlb_pages (snd (hw d Mmu_cmd tr)))"

text \<open>The pages the PageDMA core copies, clears, receives or sends.\<close>

datatype page_op = Copy u64 u64 | Clear u64 | Receive u64 | Send u64

definition h2c_pages :: "u64 \<times> (svm_reg \<Rightarrow> u64) \<Rightarrow> page_op list" where
  "h2c_pages c = (case c of (v, L) \<Rightarrow> map (\<lambda>j.
     let dst = L H2c_dst_addr + word_of_nat j * PAGE_SIZE
     in if v AND PAGE_DMA_CMD_CLEAR \<noteq> 0 then Clear dst
        else if v AND PAGE_DMA_CMD_NETWORK \<noteq> 0 then Receive dst
        else Copy (L H2c_src_addr + word_of_nat j * PAGE_SIZE) dst) [0..<unat (take_bit 32 v)])"

definition c2h_pages :: "u64 \<times> (svm_reg \<Rightarrow> u64) \<Rightarrow> page_op list" where
  "c2h_pages c = (case c of (v, L) \<Rightarrow> map (\<lambda>j.
     let src = L C2h_src_addr + word_of_nat j * PAGE_SIZE
     in if v AND PAGE_DMA_CMD_NETWORK \<noteq> 0 then Send src
        else Copy src (L C2h_dst_addr + word_of_nat j * PAGE_SIZE)) [0..<unat (take_bit 32 v)])"

definition h2c :: "nat \<Rightarrow> (svm_call \<times> int) list \<Rightarrow> page_op list" where
  "h2c d tr = concat (map h2c_pages (snd (hw d H2c_start_len tr)))"

definition c2h :: "nat \<Rightarrow> (svm_call \<times> int) list \<Rightarrow> page_op list" where
  "c2h d tr = concat (map c2h_pages (snd (hw d C2h_start_len tr)))"

subsection \<open>Translations\<close>

lemma add_tlb_entry_tlb:
  "run_state (add_tlb_entry K d v p) s = (u, s') \<Longrightarrow> tlb d (trace s') = tlb d (trace s) @ [(v, p)]"
  by (auto simp: add_tlb_entry_def tlb_def tlb_pages_def Let_def)

lemma drop_push_64: "drop_bit 48 (push_bit 48 x) = take_bit 16 (x :: u64)"
  by (rule bit_eqI) (auto simp: bit_simps)

lemma take_bit_small: "n < 2 ^ m \<Longrightarrow> take_bit m (word_of_nat n :: u64) = word_of_nat n"
  by (simp add: take_bit_of_nat take_bit_nat_eq_self flip: of_nat_take_bit)

lemma al_command:
  assumes "n < 2 ^ 16"
  shows "take_bit 48 (MMU_ADD_AL_ENTRY OR push_bit 48 (word_of_nat n :: u64)) = MMU_ADD_AL_ENTRY"
    and "drop_bit 48 (MMU_ADD_AL_ENTRY OR push_bit 48 (word_of_nat n :: u64)) = word_of_nat n"
    and "MMU_ADD_AL_ENTRY OR push_bit 48 (word_of_nat n :: u64) \<noteq> MMU_ADD_ENTRY"
proof -
  show t: "take_bit 48 (MMU_ADD_AL_ENTRY OR push_bit 48 (word_of_nat n :: u64)) = MMU_ADD_AL_ENTRY"
    by (simp add: MMU_ADD_AL_ENTRY_def take_bit_push_bit)
  show "drop_bit 48 (MMU_ADD_AL_ENTRY OR push_bit 48 (word_of_nat n :: u64)) = word_of_nat n"
    using take_bit_small [OF assms] by (simp add: MMU_ADD_AL_ENTRY_def drop_push_64)
  show "MMU_ADD_AL_ENTRY OR push_bit 48 (word_of_nat n :: u64) \<noteq> MMU_ADD_ENTRY"
  proof
    assume "MMU_ADD_AL_ENTRY OR push_bit 48 (word_of_nat n :: u64) = MMU_ADD_ENTRY"
    then show False using t by (simp only:) (simp add: MMU_ADD_AL_ENTRY_def MMU_ADD_ENTRY_def)
  qed
qed

lemma unat_small: "n < 2 ^ 16 \<Longrightarrow> unat (word_of_nat n :: u64) = n"
  by (simp add: unsigned_of_nat take_bit_nat_eq_self)

lemma add_al_tlb_entry_tlb:
  assumes "n < 2 ^ 16" "run_state (add_al_tlb_entry K d v p n) s = (u, s')"
  shows "tlb d (trace s') = tlb d (trace s) @ map (\<lambda>j. (v + word_of_nat j * PAGE_SIZE, p + word_of_nat j * PAGE_SIZE)) [0..<n]"
  using assms(2) al_command [OF assms(1)] unat_small [OF assms(1)]
  by (auto simp: add_al_tlb_entry_def tlb_def tlb_pages_def Let_def MMU_AL_LENGTH_SHIFT_def)

text \<open>Page \<open>i\<close> of the range, with its place on the device.\<close>

definition page_at :: "u64 \<Rightarrow> u64 \<Rightarrow> u64 \<Rightarrow> nat \<Rightarrow> u64 \<times> u64" where
  "page_at bpfn vaddr pfn i = (vaddr + word_of_nat i * PAGE_SIZE, pfn_to_dev_addr bpfn (pfn + word_of_nat i))"

lemma pfn_to_dev_addr_add: "pfn_to_dev_addr b (p + word_of_nat i) = pfn_to_dev_addr b p + word_of_nat i * PAGE_SIZE"
  by (simp add: pfn_to_dev_addr_def PAGE_SHIFT_def PAGE_SIZE_def push_bit_eq_mult algebra_simps)

lemma page_at_add: "(fst (page_at b v p i) + word_of_nat j * PAGE_SIZE, snd (page_at b v p i) + word_of_nat j * PAGE_SIZE) = page_at b v p (i + j)"
  unfolding page_at_def pfn_to_dev_addr_add by (simp add: algebra_simps)

lemma tlb_entries_tlb:
  "run_state (tlb_entries K d b v p js) s = (u, s') \<Longrightarrow> tlb d (trace s') = tlb d (trace s) @ map (page_at b v p) js"
proof (induction js arbitrary: s)
  case (Cons j js)
  obtain s1 where s1: "run_state (add_tlb_entry K d (fst (page_at b v p j)) (snd (page_at b v p j))) s = ((), s1)"
    by (rule unit_run)
  then have "run_state (tlb_entries K d b v p js) s1 = (u, s')" using Cons.prems by (simp add: page_at_def)
  then show ?case using Cons.IH [of s1] add_tlb_entry_tlb [OF s1] by simp
qed simp

lemma map_page_at: "map (page_at b v p) [i..<i + n] = map (\<lambda>j. page_at b v p (i + j)) [0..<n]"
  by (rule nth_equalityI) simp_all

text \<open>Entries of variable length and single entries give the same translations.\<close>

lemma tlb_chunk:
  assumes "n < 2 ^ 16"
    "run_state (if n \<ge> 64 then add_al_tlb_entry K d (vaddr + word_of_nat i * PAGE_SIZE) (pfn_to_dev_addr b (p + word_of_nat i)) n
       else tlb_entries K d b vaddr p [i..<i + n]) s = (u, s')"
  shows "tlb d (trace s') = tlb d (trace s) @ map (page_at b vaddr p) [i..<i + n]"
proof (cases "n \<ge> 64")
  case True
  then show ?thesis using add_al_tlb_entry_tlb [OF assms(1), of K d "fst (page_at b vaddr p i)" "snd (page_at b vaddr p i)" s u s'] assms(2)
    unfolding map_page_at page_at_add by (simp add: page_at_def)
next
  case False
  then show ?thesis using tlb_entries_tlb [of K d b vaddr p "[i..<i + n]" s u s'] assms(2) by simp
qed

lemma tlb_fill_loop_tlb:
  "run_state (tlb_fill_loop K d b v p npages i) s = (r, s') \<Longrightarrow>
    tlb d (trace s') = tlb d (trace s) @ map (page_at b v p) [i..<npages - 1] \<and> r = max i (npages - 1)"
proof (induction K d b v p npages i arbitrary: s rule: tlb_fill_loop.induct)
  case (1 K d b v p npages i)
  show ?case
  proof (cases "i < npages - 1")
    case True
    define n where "n = min (npages - 1 - i) MMU_MAX_MAPPING_LENGTH"
    let ?c = "if n \<ge> 64 then add_al_tlb_entry K d (v + word_of_nat i * PAGE_SIZE) (pfn_to_dev_addr b (p + word_of_nat i)) n
       else tlb_entries K d b v p [i..<i + n]"
    obtain s1 where s1: "run_state ?c s = ((), s1)" by (rule unit_run)
    have n: "n < 2 ^ 16" "i + n \<le> npages - 1" using True by (auto simp: n_def MMU_MAX_MAPPING_LENGTH_def)
    have r: "run_state (tlb_fill_loop K d b v p npages (i + n)) s1 = (r, s')"
      using "1.prems" True s1 unfolding tlb_fill_loop.simps [of K d b v p npages i] Let_def n_def by (simp del: One_nat_def)
    have "[i..<npages - 1] = [i..<i + n] @ [i + n..<npages - 1]"
      using n(2) by (intro upt_split) simp_all
    with "1.IH" [OF True n_def r] tlb_chunk [OF n(1) s1] n(2) show ?thesis by simp
  next
    case False
    then show ?thesis using "1.prems" by (auto simp: tlb_fill_loop.simps [of K d b v p npages i])
  qed
qed

text \<open>The translations given to the IOMMU after a migration are exactly one per page: however the range is
  cut into entries of variable length, the pages are translated in order, each to its own
  place in the device memory, and none twice.\<close>

lemma svm_tlb_entries_exact:
  assumes "0 < npages" and "run_state (add_tlb_entries K d bpfn vaddr pfn npages) s = (u, s')"
  shows "tlb d (trace s') = tlb d (trace s) @
    map (\<lambda>i. (vaddr + word_of_nat i * PAGE_SIZE, pfn_to_dev_addr bpfn (pfn + word_of_nat i))) [0..<npages]"
proof -
  let ?at = "page_at bpfn vaddr pfn"
  obtain s1 where s1: "run_state (add_tlb_entry K d vaddr (pfn_to_dev_addr bpfn pfn)) s = ((), s1)"
    by (rule unit_run)
  obtain i s2 where s2: "run_state (tlb_fill_loop K d bpfn vaddr pfn npages 1) s1 = (i, s2)" by (meson surj_pair)
  have t2: "tlb d (trace s2) = tlb d (trace s) @ ?at 0 # map ?at [1..<npages - 1]" and i: "i = max 1 (npages - 1)"
    using add_tlb_entry_tlb [OF s1] tlb_fill_loop_tlb [OF s2] by (simp_all add: page_at_def)
  have "tlb d (trace s') = tlb d (trace s) @ map ?at [0..<npages]"
  proof (cases "npages = 1")
    case True
    then show ?thesis using assms(2) s1 s2 t2 i by (simp add: add_tlb_entries_def)
  next
    case False
    then obtain m where m: "npages = Suc (Suc m)" using assms(1) by (cases npages; cases "npages - 1") auto
    have "run_state (add_tlb_entry K d (fst (?at i)) (snd (?at i))) s2 = (u, s')"
      using assms(2) s1 s2 i m by (simp add: add_tlb_entries_def page_at_def)
    from add_tlb_entry_tlb [OF this] show ?thesis using t2 i m by (simp add: upt_rec [of 0])
  qed
  then show ?thesis by (simp add: page_at_def [abs_def])
qed

end
