(* ===== verification/Svm_Copy.thy ===== *)
theory Svm_Copy
  imports Svm_Regs
begin

text \<open>
  The transfers of whole pages between host and device or between devices, \<^verbatim>\<open>pcie/pcie_svm.c\<close>: runs of pages
  that are contiguous on both sides are moved with one command of the PageDMA core. What the
  cores are told to move is compared with moving page by page.
\<close>

unbundle bit_operations_syntax

section \<open>Runs\<close>

definition is_contiguous :: "u64 \<Rightarrow> u64 \<Rightarrow> bool" where
  "is_contiguous addr prev \<longleftrightarrow> addr AND VADDR_MASK = (prev AND VADDR_MASK) + PAGE_SIZE"

text \<open>The loops \<^verbatim>\<open>while (n < lim && c(n)) ++n\<close> that look for the end of a run.\<close>

function run_len :: "(nat \<Rightarrow> bool) \<Rightarrow> nat \<Rightarrow> nat \<Rightarrow> nat" where
  "run_len c lim n = (if n < lim \<and> c n then run_len c lim (n + 1) else n)"
  by pat_completeness auto
termination by (relation "measure (\<lambda>(c, lim, n). lim - n)") auto

declare run_len.simps [simp del]

lemma run_len_ge [simp]: "n \<le> run_len c lim n"
  by (induction c lim n rule: run_len.induct) (subst run_len.simps, force)

lemma run_len_pos [simp]: "0 < run_len c lim (Suc 0)"
  using run_len_ge [of "Suc 0" c lim] by linarith

lemma run_len_le: "n \<le> lim \<Longrightarrow> run_len c lim n \<le> lim"
  by (induction c lim n rule: run_len.induct) (subst run_len.simps, force)

lemma run_len_all: "n \<le> k \<Longrightarrow> k < run_len c lim n \<Longrightarrow> c k"
proof (induction c lim n rule: run_len.induct)
  case (1 c lim n)
  show ?case
  proof (cases "n < lim \<and> c n")
    case True
    then have "run_len c lim n = run_len c lim (n + 1)" by (simp add: run_len.simps [of c lim n])
    then show ?thesis using 1 True by (cases "k = n") auto
  next
    case False
    then have "run_len c lim n = n" by (subst run_len.simps) (simp only: if_False)
    then show ?thesis using 1 by simp
  qed
qed

section \<open>Commands of the core, page by page\<close>

lemma cmd_bit:
  assumes "n \<le> 4096"
  shows "\<not> bit (word_of_nat n :: u64) 62" "\<not> bit (word_of_nat n :: u64) 60" "take_bit 32 (word_of_nat n :: u64) = word_of_nat n"
proof -
  have t: "take_bit 13 (word_of_nat n :: u64) = word_of_nat n" using assms by (intro take_bit_small) simp
  show "\<not> bit (word_of_nat n :: u64) 62" "\<not> bit (word_of_nat n :: u64) 60"
    using bit_take_bit_iff [of 13 "word_of_nat n :: u64" 62] bit_take_bit_iff [of 13 "word_of_nat n :: u64" 60] unfolding t by simp_all
  show "take_bit 32 (word_of_nat n :: u64) = word_of_nat n" using assms by (intro take_bit_small) simp
qed

lemma flag_bits: "x AND PAGE_DMA_CMD_CLEAR \<noteq> 0 \<longleftrightarrow> bit x 62" "x AND PAGE_DMA_CMD_NETWORK \<noteq> 0 \<longleftrightarrow> bit x 60"
proof -
  have e: "PAGE_DMA_CMD_CLEAR = 2 ^ 62" "PAGE_DMA_CMD_NETWORK = 2 ^ 60"
    by (simp_all add: PAGE_DMA_CMD_CLEAR_def PAGE_DMA_CMD_NETWORK_def)
  show "x AND PAGE_DMA_CMD_CLEAR \<noteq> 0 \<longleftrightarrow> bit x 62" "x AND PAGE_DMA_CMD_NETWORK \<noteq> 0 \<longleftrightarrow> bit x 60"
    unfolding e by (simp_all only: and_exp_eq_0_iff_not_bit not_not)
qed

definition start_len :: "nat \<Rightarrow> bool \<Rightarrow> bool \<Rightarrow> u64" where
  "start_len n clear network = (let wval0 = word_of_nat n OR PAGE_DMA_CMD_START;
     wval1 = (if clear then wval0 OR PAGE_DMA_CMD_CLEAR else wval0) in if network then wval1 OR PAGE_DMA_CMD_NETWORK else wval1)"

lemma start_len_fields:
  assumes "n \<le> 4096"
  shows "start_len n clear network AND PAGE_DMA_CMD_CLEAR \<noteq> 0 \<longleftrightarrow> clear"
    "start_len n clear network AND PAGE_DMA_CMD_NETWORK \<noteq> 0 \<longleftrightarrow> network"
    "unat (take_bit 32 (start_len n clear network)) = n"
proof -
  show "start_len n clear network AND PAGE_DMA_CMD_CLEAR \<noteq> 0 \<longleftrightarrow> clear"
    "start_len n clear network AND PAGE_DMA_CMD_NETWORK \<noteq> 0 \<longleftrightarrow> network"
    unfolding flag_bits using cmd_bit [OF assms]
    by (simp_all add: start_len_def Let_def bit_or_iff PAGE_DMA_CMD_CLEAR_def PAGE_DMA_CMD_NETWORK_def PAGE_DMA_CMD_START_def)
  have "take_bit 32 (start_len n clear network) = word_of_nat n"
    using cmd_bit(3) [OF assms] by (simp add: start_len_def Let_def PAGE_DMA_CMD_CLEAR_def PAGE_DMA_CMD_NETWORK_def PAGE_DMA_CMD_START_def)
  then show "unat (take_bit 32 (start_len n clear network)) = n" using assms unat_small [of n] by simp
qed

definition h2c_op :: "u64 \<Rightarrow> u64 \<Rightarrow> bool \<Rightarrow> bool \<Rightarrow> nat \<Rightarrow> page_op" where
  "h2c_op h v clear network j = (let dst = v + word_of_nat j * PAGE_SIZE
     in if clear then Clear dst else if network then Receive dst else Copy (h + word_of_nat j * PAGE_SIZE) dst)"

definition c2h_op :: "u64 \<Rightarrow> u64 \<Rightarrow> bool \<Rightarrow> nat \<Rightarrow> page_op" where
  "c2h_op h v network j = (let src = v + word_of_nat j * PAGE_SIZE
     in if network then Send src else Copy src (h + word_of_nat j * PAGE_SIZE))"

lemma init_h2c_dma_one:
  assumes "0 < n" "n \<le> 4096"
  shows "init_h2c_dma K d h v n clear network = do {
     (if \<not> network \<and> \<not> clear then writeq K d h H2c_src_addr else State_Monad.return ());
     writeq K d v H2c_dst_addr;
     writeq K d (start_len n clear network) H2c_start_len }"
  using assms
  by (subst init_h2c_dma.simps) (simp add: cmd_pages_def PAGE_DMA_MAX_NPAGES_def start_len_def Let_def init_h2c_dma.simps [of _ _ _ _ 0])

lemma init_c2h_dma_one:
  assumes "0 < n" "n \<le> 4096"
  shows "init_c2h_dma K d h v n network = do {
     writeq K d v C2h_src_addr;
     (if \<not> network then writeq K d h C2h_dst_addr else State_Monad.return ());
     writeq K d (start_len n False network) C2h_start_len }"
  using assms
  by (subst init_c2h_dma.simps) (simp add: cmd_pages_def PAGE_DMA_MAX_NPAGES_def start_len_def Let_def init_c2h_dma.simps [of _ _ _ _ 0])

lemma init_h2c_dma_pages:
  assumes "0 < n" "n \<le> 4096" "run_state (init_h2c_dma K d h v n clear network) s = (u, s')"
  shows "h2c d (trace s') = h2c d (trace s) @ map (h2c_op h v clear network) [0..<n]"
    "c2h d' (trace s') = c2h d' (trace s)" "tlb d' (trace s') = tlb d' (trace s)"
    "d' \<noteq> d \<Longrightarrow> h2c d' (trace s') = h2c d' (trace s)" "dat s' = dat s"
  using assms start_len_fields [OF assms(2), of clear network]
  by (auto simp: init_h2c_dma_one h2c_def c2h_def tlb_def h2c_pages_def h2c_op_def Let_def split: if_splits)

lemma init_c2h_dma_pages:
  assumes "0 < n" "n \<le> 4096" "run_state (init_c2h_dma K d h v n network) s = (u, s')"
  shows "c2h d (trace s') = c2h d (trace s) @ map (c2h_op h v network) [0..<n]"
    "h2c d' (trace s') = h2c d' (trace s)" "tlb d' (trace s') = tlb d' (trace s)"
    "d' \<noteq> d \<Longrightarrow> c2h d' (trace s') = c2h d' (trace s)" "dat s' = dat s"
  using assms start_len_fields [OF assms(2), of False network]
  by (auto simp: init_c2h_dma_one h2c_def c2h_def tlb_def c2h_pages_def c2h_op_def Let_def split: if_splits)

section \<open>Operations\<close>

text \<open>Before a further command the number of commands in the queue of the core is checked.\<close>

definition throttle :: "svm_call kenv \<Rightarrow> nat \<Rightarrow> nat \<Rightarrow> bool \<Rightarrow> int \<Rightarrow> (int \<times> int) svm_m" where
  "throttle K polls d is_c2h cmd_cnt =
     (if cmd_cnt \<ge> 64 then do {
        v \<leftarrow> readq K d (if is_c2h then C2h_cmd_cnt else H2c_cmd_cnt);
        let cnt = to_int v;
        if cnt \<ge> 64 then do {
          res \<leftarrow> (if is_c2h then wait_for_c2h_intr K polls d False else wait_for_h2c_intr K polls d False);
          State_Monad.return (res, 0) }
        else State_Monad.return (0, cnt) }
      else State_Monad.return (0, cmd_cnt))"

text \<open>From host to device, \<^verbatim>\<open>svm_migrate_ram_to_dev\<close>: a page without source is cleared.\<close>

definition h2c_run :: "u64 list \<Rightarrow> u64 list \<Rightarrow> nat \<Rightarrow> nat \<Rightarrow> nat" where
  "h2c_run src_pages dma_addrs npages i = (let lim = min (npages - i) PAGE_DMA_MAX_NPAGES
     in if src_pages ! i \<noteq> 0
        then run_len (\<lambda>n. src_pages ! (i + n) \<noteq> 0 \<and> is_contiguous (dma_addrs ! (i + n)) (dma_addrs ! (i + n - 1))) lim 1
        else run_len (\<lambda>n. src_pages ! (i + n) = 0) lim 1)"

lemma h2c_run_pos [simp]: "0 < h2c_run ps as npages i"
  by (simp add: h2c_run_def Let_def)

function h2c_loop :: "svm_call kenv \<Rightarrow> nat \<Rightarrow> nat \<Rightarrow> u64 \<Rightarrow> u64 \<Rightarrow> u64 list \<Rightarrow> u64 list \<Rightarrow> nat \<Rightarrow> nat \<Rightarrow> int \<Rightarrow> int svm_m" where
  "h2c_loop K polls d bpfn pfn src_pages dma_addrs npages i cmd_cnt =
     (if i < npages
      then let n = h2c_run src_pages dma_addrs npages i in do {
        (res, cnt) \<leftarrow> throttle K polls d False cmd_cnt;
        if res \<noteq> 0 then State_Monad.return res
        else do {
          init_h2c_dma K d (dma_addrs ! i) (pfn_to_dev_addr bpfn (pfn + word_of_nat i)) n (src_pages ! i = 0) False;
          h2c_loop K polls d bpfn pfn src_pages dma_addrs npages (i + n) (cnt + 1) } }
      else State_Monad.return 0)"
  by pat_completeness auto
termination
  by (relation "measure (\<lambda>(K, polls, d, b, p, ps, as, npages, i, c). npages - i)") (auto intro: diff_less_mono2)

declare h2c_loop.simps [simp del]

text \<open>From device \<open>d\<close>, the loops of \<^verbatim>\<open>svm_migrate_dev_to_ram\<close>, \<^verbatim>\<open>copy_dev_to_dev_pcie_e2e\<close> and
  \<^verbatim>\<open>copy_dev_to_dev_buffered\<close>: \<open>contig k\<close> says whether page \<open>k\<close> continues the run of page \<open>k - 1\<close>; \<open>host k\<close> and
  \<open>dev k\<close> are the target and the source address of page \<open>k\<close>.\<close>

definition c2h_run :: "(nat \<Rightarrow> bool) \<Rightarrow> nat \<Rightarrow> nat \<Rightarrow> nat" where
  "c2h_run contig npages i = run_len (\<lambda>n. contig (i + n)) (min (npages - i) PAGE_DMA_MAX_NPAGES) 1"

lemma c2h_run_pos [simp]: "0 < c2h_run contig npages i"
  by (simp add: c2h_run_def)

function c2h_loop :: "svm_call kenv \<Rightarrow> nat \<Rightarrow> nat \<Rightarrow> (nat \<Rightarrow> bool) \<Rightarrow> (nat \<Rightarrow> u64) \<Rightarrow> (nat \<Rightarrow> u64) \<Rightarrow> nat \<Rightarrow> nat \<Rightarrow> int \<Rightarrow> int svm_m" where
  "c2h_loop K polls d contig host dev npages i cmd_cnt =
     (if i < npages
      then let n = c2h_run contig npages i in do {
        (res, cnt) \<leftarrow> throttle K polls d True cmd_cnt;
        if res \<noteq> 0 then State_Monad.return res
        else do {
          init_c2h_dma K d (host i) (dev i) n False;
          c2h_loop K polls d contig host dev npages (i + n) (cnt + 1) } }
      else State_Monad.return 0)"
  by pat_completeness auto
termination
  by (relation "measure (\<lambda>(K, polls, d, c, h, v, npages, i, cnt). npages - i)") (auto intro: diff_less_mono2)

declare c2h_loop.simps [simp del]

definition copy_dev_to_dev_pcie_e2e :: "svm_call kenv \<Rightarrow> nat \<Rightarrow> nat \<Rightarrow> nat \<Rightarrow> u64 list \<Rightarrow> u64 list \<Rightarrow> nat \<Rightarrow> int svm_m" where
  "copy_dev_to_dev_pcie_e2e K polls src dst src_pages dst_pages npages = do {
     sb \<leftarrow> getd (\<lambda>s. base_pfn (s src));
     dst_base \<leftarrow> getd (\<lambda>s. rdma_bar (s dst) + pfn_to_dev_addr (base_pfn (s dst)) (dst_pages ! 0));
     res \<leftarrow> c2h_loop K polls src (\<lambda>k. is_contiguous_page (src_pages ! k) (src_pages ! (k - 1)))
       (\<lambda>k. dst_base + word_of_nat k * PAGE_SIZE) (\<lambda>k. pfn_to_dev_addr sb (src_pages ! k)) npages 0 0;
     if res \<noteq> 0 then State_Monad.return res
     else wait_for_c2h_intr K polls src (npages < PAGE_DMA_POLL_LIMIT)
   }"

text \<open>Over the network: the destination is prepared to receive, then the source sends.\<close>

function receive_loop :: "svm_call kenv \<Rightarrow> nat \<Rightarrow> u64 \<Rightarrow> nat \<Rightarrow> nat \<Rightarrow> (svm_call, 'd, unit) km" where
  "receive_loop K d dst_base npages i =
     (if i < npages
      then let n = min (npages - i) PAGE_DMA_MAX_NPAGES in do {
        init_h2c_dma K d 0 (dst_base + word_of_nat i * PAGE_SIZE) n False True;
        receive_loop K d dst_base npages (i + n) }
      else State_Monad.return ())"
  by pat_completeness auto
termination
  by (relation "measure (\<lambda>(K, d, b, npages, i). npages - i)") (auto simp: PAGE_DMA_MAX_NPAGES_def)

function send_loop :: "svm_call kenv \<Rightarrow> nat \<Rightarrow> u64 \<Rightarrow> u64 list \<Rightarrow> nat \<Rightarrow> nat \<Rightarrow> (svm_call, 'd, unit) km" where
  "send_loop K d sb src_pages npages i =
     (if i < npages
      then let n = c2h_run (\<lambda>k. is_contiguous_page (src_pages ! k) (src_pages ! (k - 1))) npages i in do {
        init_c2h_dma K d 0 (pfn_to_dev_addr sb (src_pages ! i)) n True;
        send_loop K d sb src_pages npages (i + n) }
      else State_Monad.return ())"
  by pat_completeness auto
termination
  by (relation "measure (\<lambda>(K, d, b, ps, npages, i). npages - i)") (auto intro: diff_less_mono2)

declare receive_loop.simps [simp del] send_loop.simps [simp del]

definition copy_dev_to_dev_network :: "svm_call kenv \<Rightarrow> nat \<Rightarrow> nat \<Rightarrow> nat \<Rightarrow> u64 list \<Rightarrow> u64 list \<Rightarrow> nat \<Rightarrow> int svm_m" where
  "copy_dev_to_dev_network K polls src dst src_pages dst_pages npages = do {
     sb \<leftarrow> getd (\<lambda>s. base_pfn (s src));
     dst_base \<leftarrow> getd (\<lambda>s. pfn_to_dev_addr (base_pfn (s dst)) (dst_pages ! 0));
     mac \<leftarrow> getd (\<lambda>s. mac_addr (s dst));
     writeq K src mac Dst_mac;
     receive_loop K dst dst_base npages 0;
     send_loop K src sb src_pages npages 0;
     wait_for_h2c_intr K polls dst (npages < PAGE_DMA_POLL_LIMIT)
   }"

text \<open>Through a buffer in host memory, in pieces of at most \<^const>\<open>DEV_TO_DEV_DMA_MAX_NPAGES\<close> pages.\<close>

function buffered_loop :: "svm_call kenv \<Rightarrow> nat \<Rightarrow> nat \<Rightarrow> nat \<Rightarrow> u64 \<Rightarrow> u64 \<Rightarrow> u64 \<Rightarrow> u64 list \<Rightarrow> u64 list \<Rightarrow> nat \<Rightarrow> nat \<Rightarrow> int svm_m" where
  "buffered_loop K polls src dst buf_addr sb db src_pages dst_pages npages copied =
     (if copied < npages
      then let move = min (npages - copied) DEV_TO_DEV_DMA_MAX_NPAGES in do {
        res \<leftarrow> c2h_loop K polls src (\<lambda>k. is_contiguous_page (src_pages ! (copied + k)) (src_pages ! (copied + k - 1)))
          (\<lambda>k. buf_addr + word_of_nat k * PAGE_SIZE) (\<lambda>k. pfn_to_dev_addr sb (src_pages ! (copied + k))) move 0 0;
        if res \<noteq> 0 then State_Monad.return res
        else do {
          res \<leftarrow> wait_for_c2h_intr K polls src (move < PAGE_DMA_POLL_LIMIT);
          if res \<noteq> 0 then State_Monad.return res
          else do {
            init_h2c_dma K dst buf_addr (pfn_to_dev_addr db (dst_pages ! copied)) move False False;
            res \<leftarrow> wait_for_h2c_intr K polls dst (move < PAGE_DMA_POLL_LIMIT);
            if res \<noteq> 0 then State_Monad.return res
            else buffered_loop K polls src dst buf_addr sb db src_pages dst_pages npages (copied + move) } } }
      else State_Monad.return 0)"
  by pat_completeness auto
termination
  by (relation "measure (\<lambda>(K, polls, src, dst, a, sb, db, ps, qs, npages, i). npages - i)") (auto simp: DEV_TO_DEV_DMA_MAX_NPAGES_def)

declare buffered_loop.simps [simp del]

definition copy_dev_to_dev_buffered :: "svm_call kenv \<Rightarrow> nat \<Rightarrow> nat \<Rightarrow> nat \<Rightarrow> u64 list \<Rightarrow> u64 list \<Rightarrow> nat \<Rightarrow> int svm_m" where
  "copy_dev_to_dev_buffered K polls src dst src_pages dst_pages npages = do {
     sb \<leftarrow> getd (\<lambda>s. base_pfn (s src));
     db \<leftarrow> getd (\<lambda>s. base_pfn (s dst));
     let buf_pages = min npages DEV_TO_DEV_DMA_MAX_NPAGES;
     buf \<leftarrow> kcall K (Kmalloc_buf buf_pages);
     if buf = 0 then State_Monad.return (- ENOMEM)
     else do {
       buf_addr \<leftarrow> kcall K (Dma_map_single dst buf buf_pages);
       if buf_addr = - 1 then do {
         kdo K (Dma_unmap_single dst buf_addr buf_pages);
         kdo K (Kfree buf);
         State_Monad.return (- EACCES) }
       else do {
         res \<leftarrow> buffered_loop K polls src dst (word_of_int buf_addr) sb db src_pages dst_pages npages 0;
         kdo K (Dma_unmap_single dst buf_addr buf_pages);
         kdo K (Kfree buf);
         State_Monad.return res } }
   }"

section \<open>Steps that move nothing\<close>

text \<open>\<open>quiet s s'\<close>: between the two states no core was given a command, and of the data of the devices at
  most the error state has changed.\<close>

definition same_svm :: "svm_data \<Rightarrow> svm_data \<Rightarrow> bool" where
  "same_svm x y \<longleftrightarrow> y = x\<lparr>error_state := error_state y\<rparr>"

lemma same_svm_refl [simp]: "same_svm x x" "same_svm x (x\<lparr>error_state := e\<rparr>)"
  by (simp_all add: same_svm_def)

lemma same_svm_trans: "same_svm x y \<Longrightarrow> same_svm y z \<Longrightarrow> same_svm x z"
  by (cases x; cases y; cases z) (simp add: same_svm_def)

lemma same_svmD: "same_svm x y \<Longrightarrow> base_pfn y = base_pfn x \<and> free_mem_blocks y = free_mem_blocks x \<and> vmem_intervals y = vmem_intervals x
    \<and> network_dma_enabled y = network_dma_enabled x \<and> mac_addr y = mac_addr x \<and> rdma_bar y = rdma_bar x"
  by (cases x; cases y) (simp add: same_svm_def)

definition quiet :: "svm_st \<Rightarrow> svm_st \<Rightarrow> bool" where
  "quiet s s' \<longleftrightarrow> (\<forall>d. h2c d (trace s') = h2c d (trace s) \<and> c2h d (trace s') = c2h d (trace s) \<and> tlb d (trace s') = tlb d (trace s)
     \<and> same_svm (dat s d) (dat s' d))"

definition quiet_m :: "'r svm_m \<Rightarrow> bool" where
  "quiet_m m \<longleftrightarrow> (\<forall>s r s'. run_state m s = (r, s') \<longrightarrow> quiet s s')"

named_theorems quiet_intros

lemma quiet_refl [simp]: "quiet s s"
  by (simp add: quiet_def)

lemma quiet_trans: "quiet s t \<Longrightarrow> quiet t u \<Longrightarrow> quiet s u"
  unfolding quiet_def using same_svm_trans by metis

lemma quiet_mD: "quiet_m m \<Longrightarrow> run_state m s = (r, s') \<Longrightarrow> quiet s s'"
  by (auto simp: quiet_m_def)

lemma quiet_bind [quiet_intros]: "quiet_m m \<Longrightarrow> (\<And>x. quiet_m (f x)) \<Longrightarrow> quiet_m (State_Monad.bind m f)"
  unfolding quiet_m_def by (auto split: prod.splits) (blast intro: quiet_trans)

lemma quiet_return [quiet_intros]: "quiet_m (State_Monad.return x)"
  by (simp add: quiet_m_def)

lemma quiet_getd [quiet_intros]: "quiet_m (getd f)"
  by (simp add: quiet_m_def)

lemma quiet_if [quiet_intros]: "(b \<Longrightarrow> quiet_m m) \<Longrightarrow> (\<not> b \<Longrightarrow> quiet_m n) \<Longrightarrow> quiet_m (if b then m else n)"
  by simp

lemma quiet_case_prod [quiet_intros]: "(\<And>x y. quiet_m (f x y)) \<Longrightarrow> quiet_m (case p of (x, y) \<Rightarrow> f x y)"
  by (cases p) simp

lemma quiet_error [quiet_intros]: "quiet_m (modd (\<lambda>s. s(d := (s d)\<lparr>error_state := e s\<rparr>)))"
  by (simp add: quiet_m_def quiet_def)

text \<open>A call that is not a write of a command.\<close>

fun no_command :: "svm_call \<Rightarrow> bool" where
  "no_command (Writeq d v r) = (r \<noteq> Mmu_cmd \<and> r \<noteq> H2c_start_len \<and> r \<noteq> C2h_start_len)"
| "no_command c = True"

lemma hw_no_command: "no_command c \<Longrightarrow> cr \<in> {Mmu_cmd, H2c_start_len, C2h_start_len} \<Longrightarrow> snd (hw_step d cr h (c, x)) = snd h"
  by (cases c) (auto simp: hw_step_def)

lemma quiet_call [quiet_intros]:
  assumes "no_command c"
  shows "quiet_m (kcall K c)" "quiet_m (kdo K c)"
  using assms by (simp_all add: quiet_m_def quiet_def h2c_def c2h_def tlb_def hw_no_command)

lemma quiet_readq [quiet_intros]: "quiet_m (readq K d r)"
  unfolding readq_def by (intro quiet_intros) simp

lemma quiet_poll [quiet_intros]: "quiet_m (poll_dma K polls d r start)"
  by (induction polls) (subst poll_dma.simps, auto intro!: quiet_intros simp: Let_def)+

lemma quiet_wait [quiet_intros]: "quiet_m (wait_for_c2h_intr K polls d poll)" "quiet_m (wait_for_h2c_intr K polls d poll)"
  unfolding wait_for_c2h_intr_def wait_for_h2c_intr_def wait_for_intr_def by (auto intro!: quiet_intros)

lemma quiet_throttle [quiet_intros]: "quiet_m (throttle K polls d c n)"
  unfolding throttle_def by (auto intro!: quiet_intros simp: Let_def)

section \<open>Runs are moved page by page\<close>

text \<open>\<open>moves s s' d hs cs\<close>: from \<open>s\<close> to \<open>s'\<close> the core of device \<open>d\<close> is told to move the pages \<open>hs\<close> from and \<open>cs\<close> to the
  host, and nothing else happens.\<close>

definition moves :: "svm_st \<Rightarrow> svm_st \<Rightarrow> (nat \<Rightarrow> page_op list) \<Rightarrow> (nat \<Rightarrow> page_op list) \<Rightarrow> bool" where
  "moves s s' hs cs \<longleftrightarrow> (\<forall>d. h2c d (trace s') = h2c d (trace s) @ hs d \<and> c2h d (trace s') = c2h d (trace s) @ cs d
     \<and> tlb d (trace s') = tlb d (trace s) \<and> same_svm (dat s d) (dat s' d))"

definition only :: "nat \<Rightarrow> 'a list \<Rightarrow> nat \<Rightarrow> 'a list" where
  "only d xs d' = (if d' = d then xs else [])"

definition none :: "nat \<Rightarrow> 'a list" where
  "none d' = []"

lemma only_none [simp]: "only d [] = none" "none d = []"
  by (auto simp: only_def none_def)

lemma quiet_moves: "quiet s s' \<longleftrightarrow> moves s s' none none"
  by (simp add: quiet_def moves_def)

lemma moves_trans:
  assumes "moves s t hs cs" "moves t u hs' cs'"
  shows "moves s u (\<lambda>d. hs d @ hs' d) (\<lambda>d. cs d @ cs' d)"
  unfolding moves_def
  using assms same_svm_trans by (simp add: moves_def) blast

lemma moves_cong: "moves s s' hs cs \<Longrightarrow> (\<And>d. hs d = hs' d) \<Longrightarrow> (\<And>d. cs d = cs' d) \<Longrightarrow> moves s s' hs' cs'"
  by (simp add: moves_def)

lemma init_h2c_dma_moves:
  "0 < n \<Longrightarrow> n \<le> 4096 \<Longrightarrow> run_state (init_h2c_dma K d h v n clear network) s = (u, s') \<Longrightarrow>
    moves s s' (only d (map (h2c_op h v clear network) [0..<n])) none"
  using init_h2c_dma_pages [of n K d h v clear network s u s'] by (simp add: moves_def only_def)

lemma init_c2h_dma_moves:
  "0 < n \<Longrightarrow> n \<le> 4096 \<Longrightarrow> run_state (init_c2h_dma K d h v n network) s = (u, s') \<Longrightarrow>
    moves s s' none (only d (map (c2h_op h v network) [0..<n]))"
  using init_c2h_dma_pages [of n K d h v network s u s'] by (simp add: moves_def only_def)

text \<open>Addresses below \<open>2\<^sup>4\<^sup>8\<close> that are contiguous are a page apart.\<close>

lemma contiguous_next:
  assumes "is_contiguous a b" "a < 2 ^ 48" "b < 2 ^ 48"
  shows "a = b + PAGE_SIZE"
proof -
  have "x AND VADDR_MASK = x" if "x < 2 ^ 48" for x :: u64
  proof -
    have "VADDR_MASK = mask 48" by (simp add: VADDR_MASK_def mask_eq_exp_minus_1)
    then have "x AND VADDR_MASK = take_bit 48 x" by (simp add: take_bit_eq_mask)
    then show ?thesis using that take_bit_small [of "unat x" 48] by (simp add: word_less_nat_alt)
  qed
  then show ?thesis using assms by (simp add: is_contiguous_def)
qed

lemma run_step:
  fixes f :: "nat \<Rightarrow> u64"
  assumes "\<And>k. 1 \<le> k \<Longrightarrow> k < n \<Longrightarrow> f (i + k) = f (i + k - 1) + c"
  shows "k < n \<Longrightarrow> f (i + k) = f i + word_of_nat k * c"
proof (induction k)
  case (Suc k)
  then show ?case using assms [of "Suc k"] by (simp add: algebra_simps)
qed simp

lemma pair_run:
  obtains r s' where "run_state m s = (r, s')"
  by (cases "run_state m s")

text \<open>What \<open>h2c_loop\<close> is to do with page \<open>k\<close>.\<close>

definition h2c_page :: "u64 \<Rightarrow> u64 \<Rightarrow> u64 list \<Rightarrow> u64 list \<Rightarrow> nat \<Rightarrow> page_op" where
  "h2c_page bpfn pfn src_pages dma_addrs k = (let dst = pfn_to_dev_addr bpfn (pfn + word_of_nat k)
     in if src_pages ! k = 0 then Clear dst else Copy (dma_addrs ! k) dst)"

lemma h2c_run_bounds:
  assumes "i < npages"
  shows "h2c_run ps as npages i \<le> 4096" "i + h2c_run ps as npages i \<le> npages"
proof -
  have "1 \<le> min (npages - i) 4096" using assms by simp
  then have "h2c_run ps as npages i \<le> min (npages - i) 4096"
    unfolding h2c_run_def Let_def PAGE_DMA_MAX_NPAGES_def by (simp only: split: if_split) (blast intro: run_len_le)
  then show "h2c_run ps as npages i \<le> 4096" "i + h2c_run ps as npages i \<le> npages" using assms by linarith+
qed

lemma h2c_run_all:
  assumes "1 \<le> k" "k < h2c_run ps as npages i"
  shows "ps ! i \<noteq> 0 \<Longrightarrow> ps ! (i + k) \<noteq> 0 \<and> is_contiguous (as ! (i + k)) (as ! (i + k - 1))" "ps ! i = 0 \<Longrightarrow> ps ! (i + k) = 0"
  using assms run_len_all [of 1 k "\<lambda>n. ps ! (i + n) \<noteq> 0 \<and> is_contiguous (as ! (i + n)) (as ! (i + n - 1))" "min (npages - i) PAGE_DMA_MAX_NPAGES"]
    run_len_all [of 1 k "\<lambda>n. ps ! (i + n) = 0" "min (npages - i) PAGE_DMA_MAX_NPAGES"]
  by (simp_all add: h2c_run_def Let_def)

lemma h2c_run_pages:
  assumes "i < npages" "npages \<le> length as" "\<And>a. a \<in> set as \<Longrightarrow> a < 2 ^ 48"
  shows "map (h2c_op (as ! i) (pfn_to_dev_addr b (p + word_of_nat i)) (ps ! i = 0) False) [0..<h2c_run ps as npages i]
    = map (h2c_page b p ps as) [i..<i + h2c_run ps as npages i]"
proof (rule nth_equalityI)
  let ?n = "h2c_run ps as npages i"
  fix k assume "k < length (map (h2c_op (as ! i) (pfn_to_dev_addr b (p + word_of_nat i)) (ps ! i = 0) False) [0..<?n])"
  then have k: "k < ?n" by simp
  have dst: "pfn_to_dev_addr b (p + word_of_nat i) + word_of_nat k * PAGE_SIZE = pfn_to_dev_addr b (p + word_of_nat (i + k))"
    unfolding pfn_to_dev_addr_add by (simp add: algebra_simps)
  have same: "(ps ! (i + k) = 0) = (ps ! i = 0)" if "0 < k"
    using h2c_run_all [of k ps as npages i] k that by (cases "ps ! i = 0") auto
  have src: "as ! (i + k) = as ! i + word_of_nat k * PAGE_SIZE" if nz: "ps ! i \<noteq> 0"
  proof (rule run_step [of ?n "\<lambda>j. as ! j" i PAGE_SIZE k, OF _ k])
    fix j assume j: "1 \<le> j" "j < ?n"
    then have "is_contiguous (as ! (i + j)) (as ! (i + j - 1))"
      using h2c_run_all [of j ps as npages i] nz by blast
    moreover have "i + j < length as" using j h2c_run_bounds(2) [OF assms(1), of ps as] assms(2) by simp
    ultimately show "as ! (i + j) = as ! (i + j - 1) + PAGE_SIZE" using assms(3) by (intro contiguous_next) auto
  qed
  show "map (h2c_op (as ! i) (pfn_to_dev_addr b (p + word_of_nat i)) (ps ! i = 0) False) [0..<?n] ! k = map (h2c_page b p ps as) [i..<i + ?n] ! k"
    using k dst same src by (cases "k = 0") (auto simp: h2c_op_def h2c_page_def Let_def)
qed simp

lemma h2c_loop_moves:
  assumes "npages \<le> length as" "\<And>a. a \<in> set as \<Longrightarrow> a < 2 ^ 48"
  shows "run_state (h2c_loop K polls d b p ps as npages i cnt) s = (0, s') \<Longrightarrow>
    moves s s' (only d (map (h2c_page b p ps as) [i..<npages])) none"
proof (induction "npages - i" arbitrary: i cnt s rule: less_induct)
  case less
  show ?case
  proof (cases "i < npages")
    case True
    define n where "n = h2c_run ps as npages i"
    obtain r c s1 where s1: "run_state (throttle K polls d False cnt) s = ((r, c), s1)" by (metis surj_pair)
    obtain s2 where s2: "run_state (init_h2c_dma K d (as ! i) (pfn_to_dev_addr b (p + word_of_nat i)) n (ps ! i = 0) False) s1 = ((), s2)"
      by (rule unit_run)
    have r: "r = 0" and rest: "run_state (h2c_loop K polls d b p ps as npages (i + n) (c + 1)) s2 = (0, s')"
      using less.prems s1 s2 True by (auto simp: h2c_loop.simps [of K polls d b p ps as npages i] Let_def n_def split: if_splits)
    have n: "0 < n" "n \<le> 4096" "i + n \<le> npages" using h2c_run_bounds [OF True] by (simp_all add: n_def)
    have m1: "moves s s1 none none" using quiet_mD [OF quiet_throttle s1] by (simp add: quiet_moves)
    have m2: "moves s1 s2 (only d (map (h2c_page b p ps as) [i..<i + n])) none"
      using init_h2c_dma_moves [OF n(1,2) s2] h2c_run_pages [OF True assms(1), of b p ps] assms(2) by (simp add: n_def)
    have m3: "moves s2 s' (only d (map (h2c_page b p ps as) [i + n..<npages])) none"
      using less.hyps [OF _ rest] n True by simp
    have "[i..<npages] = [i..<i + n] @ [i + n..<npages]" using n by (intro upt_split) simp_all
    then show ?thesis by (intro moves_cong [OF moves_trans [OF m1 moves_trans [OF m2 m3]]]) (simp_all add: only_def)
  next
    case False
    then show ?thesis using less.prems by (simp add: h2c_loop.simps [of K polls d b p ps as npages i] flip: quiet_moves)
  qed
qed

text \<open>The loops from a device: if contiguous pages are a page apart on both sides, every page is moved once.\<close>

lemma c2h_run_bounds:
  assumes "i < npages"
  shows "c2h_run contig npages i \<le> 4096" "i + c2h_run contig npages i \<le> npages"
proof -
  have "1 \<le> min (npages - i) 4096" using assms by simp
  then have "c2h_run contig npages i \<le> min (npages - i) 4096"
    unfolding c2h_run_def PAGE_DMA_MAX_NPAGES_def by (rule run_len_le)
  then show "c2h_run contig npages i \<le> 4096" "i + c2h_run contig npages i \<le> npages" using assms by linarith+
qed

lemma c2h_run_pages:
  assumes "i < npages"
    and apart: "\<And>k. 0 < k \<Longrightarrow> k < npages \<Longrightarrow> contig k \<Longrightarrow> dev k = dev (k - 1) + PAGE_SIZE \<and> (network \<or> host k = host (k - 1) + PAGE_SIZE)"
  shows "map (c2h_op (host i) (dev i) network) [0..<c2h_run contig npages i]
    = map (\<lambda>k. c2h_op (host k) (dev k) network 0) [i..<i + c2h_run contig npages i]"
proof (rule nth_equalityI)
  let ?n = "c2h_run contig npages i"
  fix k assume "k < length (map (c2h_op (host i) (dev i) network) [0..<?n])"
  then have k: "k < ?n" by simp
  have step: "dev (i + j) = dev (i + j - 1) + PAGE_SIZE \<and> (network \<or> host (i + j) = host (i + j - 1) + PAGE_SIZE)" if "1 \<le> j" "j < ?n" for j
    using apart [of "i + j"] run_len_all [of 1 j "\<lambda>n. contig (i + n)" "min (npages - i) PAGE_DMA_MAX_NPAGES"] that
      c2h_run_bounds(2) [OF assms(1), of contig] by (simp add: c2h_run_def)
  have "dev (i + k) = dev i + word_of_nat k * PAGE_SIZE" using step by (intro run_step [of ?n dev, OF _ k]) blast
  moreover have "host (i + k) = host i + word_of_nat k * PAGE_SIZE" if "\<not> network"
    using step that by (intro run_step [of ?n host, OF _ k]) blast
  ultimately show "map (c2h_op (host i) (dev i) network) [0..<?n] ! k = map (\<lambda>k. c2h_op (host k) (dev k) network 0) [i..<i + ?n] ! k"
    using k by (auto simp: c2h_op_def Let_def)
qed simp

lemma c2h_loop_moves:
  assumes apart: "\<And>k. 0 < k \<Longrightarrow> k < npages \<Longrightarrow> contig k \<Longrightarrow> dev k = dev (k - 1) + PAGE_SIZE \<and> host k = host (k - 1) + PAGE_SIZE"
  shows "run_state (c2h_loop K polls d contig host dev npages i cnt) s = (0, s') \<Longrightarrow>
    moves s s' none (only d (map (\<lambda>k. Copy (dev k) (host k)) [i..<npages]))"
proof (induction "npages - i" arbitrary: i cnt s rule: less_induct)
  case less
  show ?case
  proof (cases "i < npages")
    case True
    define n where "n = c2h_run contig npages i"
    obtain r c s1 where s1: "run_state (throttle K polls d True cnt) s = ((r, c), s1)" by (metis surj_pair)
    obtain s2 where s2: "run_state (init_c2h_dma K d (host i) (dev i) n False) s1 = ((), s2)" by (rule unit_run)
    have rest: "run_state (c2h_loop K polls d contig host dev npages (i + n) (c + 1)) s2 = (0, s')"
      using less.prems s1 s2 True by (auto simp: c2h_loop.simps [of K polls d contig host dev npages i] Let_def n_def split: if_splits)
    have n: "0 < n" "n \<le> 4096" "i + n \<le> npages" using c2h_run_bounds [OF True] by (simp_all add: n_def)
    have m1: "moves s s1 none none" using quiet_mD [OF quiet_throttle s1] by (simp add: quiet_moves)
    have m2: "moves s1 s2 none (only d (map (\<lambda>k. Copy (dev k) (host k)) [i..<i + n]))"
      using init_c2h_dma_moves [OF n(1,2) s2] c2h_run_pages [OF True, of contig dev False host] apart by (simp add: n_def c2h_op_def)
    have m3: "moves s2 s' none (only d (map (\<lambda>k. Copy (dev k) (host k)) [i + n..<npages]))"
      using less.hyps [OF _ rest] n True by simp
    have "[i..<npages] = [i..<i + n] @ [i + n..<npages]" using n by (intro upt_split) simp_all
    then show ?thesis by (intro moves_cong [OF moves_trans [OF m1 moves_trans [OF m2 m3]]]) (simp_all add: only_def)
  next
    case False
    then show ?thesis using less.prems by (simp add: c2h_loop.simps [of K polls d contig host dev npages i] flip: quiet_moves)
  qed
qed

section \<open>Between devices\<close>

lemma contiguous_page_addr: "is_contiguous_page q p \<Longrightarrow> pfn_to_dev_addr b q = pfn_to_dev_addr b p + PAGE_SIZE"
  using pfn_to_dev_addr_add [of b p 1] by (simp add: is_contiguous_page_def)

text \<open>Pages of a freshly allocated region: consecutive frames.\<close>

definition consecutive :: "u64 list \<Rightarrow> nat \<Rightarrow> bool" where
  "consecutive ps n \<longleftrightarrow> (\<forall>k < n. ps ! k = ps ! 0 + word_of_nat k)"

lemma consecutive_addr:
  assumes "consecutive ps n" "k < n"
  shows "pfn_to_dev_addr b (ps ! k) = pfn_to_dev_addr b (ps ! 0) + word_of_nat k * PAGE_SIZE"
proof -
  have e: "ps ! k = ps ! 0 + word_of_nat k" using assms unfolding consecutive_def by blast
  show ?thesis unfolding e by (rule pfn_to_dev_addr_add)
qed

lemma consecutive_map:
  assumes "consecutive qs n"
  shows "map (\<lambda>k. f k (pfn_to_dev_addr b (qs ! 0) + word_of_nat k * PAGE_SIZE)) [0..<n] = map (\<lambda>k. f k (pfn_to_dev_addr b (qs ! k))) [0..<n]"
proof (rule map_cong [OF refl])
  fix k assume "k \<in> set [0..<n]"
  then show "f k (pfn_to_dev_addr b (qs ! 0) + word_of_nat k * PAGE_SIZE) = f k (pfn_to_dev_addr b (qs ! k))"
    using consecutive_addr [OF assms, of k b] by simp
qed

lemma receive_loop_moves:
  "run_state (receive_loop K d base npages i) s = (u, s') \<Longrightarrow>
    moves s s' (only d (map (\<lambda>k. Receive (base + word_of_nat k * PAGE_SIZE)) [i..<npages])) none"
proof (induction "npages - i" arbitrary: i s rule: less_induct)
  case less
  show ?case
  proof (cases "i < npages")
    case True
    define n where "n = min (npages - i) PAGE_DMA_MAX_NPAGES"
    obtain s1 where s1: "run_state (init_h2c_dma K d 0 (base + word_of_nat i * PAGE_SIZE) n False True) s = ((), s1)" by (rule unit_run)
    have rest: "run_state (receive_loop K d base npages (i + n)) s1 = (u, s')"
      using less.prems s1 True by (simp add: receive_loop.simps [of K d base npages i] Let_def n_def)
    have n: "0 < n" "n \<le> 4096" "i + n \<le> npages" using True by (auto simp: n_def PAGE_DMA_MAX_NPAGES_def)
    have "map (h2c_op 0 (base + word_of_nat i * PAGE_SIZE) False True) [0..<n] = map (\<lambda>k. Receive (base + word_of_nat k * PAGE_SIZE)) [i..<i + n]"
      by (rule nth_equalityI) (simp_all add: h2c_op_def algebra_simps)
    then have m1: "moves s s1 (only d (map (\<lambda>k. Receive (base + word_of_nat k * PAGE_SIZE)) [i..<i + n])) none"
      using init_h2c_dma_moves [OF n(1,2) s1] by simp
    have m2: "moves s1 s' (only d (map (\<lambda>k. Receive (base + word_of_nat k * PAGE_SIZE)) [i + n..<npages])) none"
      using less.hyps [OF _ rest] n True by simp
    have "[i..<npages] = [i..<i + n] @ [i + n..<npages]" using n by (intro upt_split) simp_all
    then show ?thesis by (intro moves_cong [OF moves_trans [OF m1 m2]]) (simp_all add: only_def)
  next
    case False
    then show ?thesis using less.prems by (simp add: receive_loop.simps [of K d base npages i] flip: quiet_moves)
  qed
qed

lemma send_loop_moves:
  "run_state (send_loop K d sb ps npages i) s = (u, s') \<Longrightarrow>
    moves s s' none (only d (map (\<lambda>k. Send (pfn_to_dev_addr sb (ps ! k))) [i..<npages]))"
proof (induction "npages - i" arbitrary: i s rule: less_induct)
  case less
  show ?case
  proof (cases "i < npages")
    case True
    let ?contig = "\<lambda>k. is_contiguous_page (ps ! k) (ps ! (k - 1))"
    define n where "n = c2h_run ?contig npages i"
    obtain s1 where s1: "run_state (init_c2h_dma K d 0 (pfn_to_dev_addr sb (ps ! i)) n True) s = ((), s1)" by (rule unit_run)
    have rest: "run_state (send_loop K d sb ps npages (i + n)) s1 = (u, s')"
      using less.prems s1 True by (simp add: send_loop.simps [of K d sb ps npages i] Let_def n_def)
    have n: "0 < n" "n \<le> 4096" "i + n \<le> npages" using c2h_run_bounds [OF True] by (simp_all add: n_def)
    have m1: "moves s s1 none (only d (map (\<lambda>k. Send (pfn_to_dev_addr sb (ps ! k))) [i..<i + n]))"
      using init_c2h_dma_moves [OF n(1,2) s1] c2h_run_pages [OF True, of ?contig "\<lambda>k. pfn_to_dev_addr sb (ps ! k)" True "\<lambda>_. 0"] contiguous_page_addr
      by (simp add: n_def c2h_op_def)
    have m2: "moves s1 s' none (only d (map (\<lambda>k. Send (pfn_to_dev_addr sb (ps ! k))) [i + n..<npages]))"
      using less.hyps [OF _ rest] n True by simp
    have "[i..<npages] = [i..<i + n] @ [i + n..<npages]" using n by (intro upt_split) simp_all
    then show ?thesis by (intro moves_cong [OF moves_trans [OF m1 m2]]) (simp_all add: only_def)
  next
    case False
    then show ?thesis using less.prems by (simp add: send_loop.simps [of K d sb ps npages i] flip: quiet_moves)
  qed
qed

lemma e2e_moves:
  assumes "run_state (copy_dev_to_dev_pcie_e2e K polls src dst ps qs npages) s = (0, s')" "consecutive qs npages"
  shows "moves s s' none (only src (map (\<lambda>k. Copy (pfn_to_dev_addr (base_pfn (dat s src)) (ps ! k))
    (rdma_bar (dat s dst) + pfn_to_dev_addr (base_pfn (dat s dst)) (qs ! k))) [0..<npages]))"
proof -
  let ?sb = "base_pfn (dat s src)" and ?base = "rdma_bar (dat s dst) + pfn_to_dev_addr (base_pfn (dat s dst)) (qs ! 0)"
  let ?l = "c2h_loop K polls src (\<lambda>k. is_contiguous_page (ps ! k) (ps ! (k - 1))) (\<lambda>k. ?base + word_of_nat k * PAGE_SIZE) (\<lambda>k. pfn_to_dev_addr ?sb (ps ! k)) npages 0 0"
  obtain r s1 where s1: "run_state ?l s = (r, s1)" by (rule pair_run)
  have r: "r = 0" and w: "run_state (wait_for_c2h_intr K polls src (npages < PAGE_DMA_POLL_LIMIT)) s1 = (0, s')"
    using assms(1) s1 by (auto simp: copy_dev_to_dev_pcie_e2e_def split: if_splits)
  have apart: "pfn_to_dev_addr ?sb (ps ! k) = pfn_to_dev_addr ?sb (ps ! (k - 1)) + PAGE_SIZE
      \<and> ?base + word_of_nat k * PAGE_SIZE = ?base + word_of_nat (k - 1) * PAGE_SIZE + PAGE_SIZE"
    if "0 < k" "k < npages" "is_contiguous_page (ps ! k) (ps ! (k - 1))" for k
    using contiguous_page_addr [OF that(3)] that(1) by (cases k) (simp_all add: algebra_simps)
  have m: "moves s s1 none (only src (map (\<lambda>k. Copy (pfn_to_dev_addr ?sb (ps ! k)) (?base + word_of_nat k * PAGE_SIZE)) [0..<npages]))"
    using s1 apart unfolding r by (intro c2h_loop_moves) auto
  have m2: "moves s1 s' none none" using quiet_mD [OF quiet_wait(1) w] by (simp add: quiet_moves)
  show ?thesis
    using consecutive_map [OF assms(2), of "\<lambda>k a. Copy (pfn_to_dev_addr ?sb (ps ! k)) (rdma_bar (dat s dst) + a)"]
    by (intro moves_cong [OF moves_trans [OF m m2]]) (simp_all add: only_def add.assoc)
qed

lemma network_moves:
  assumes "run_state (copy_dev_to_dev_network K polls src dst ps qs npages) s = (0, s')" "consecutive qs npages"
  shows "moves s s' (only dst (map (\<lambda>k. Receive (pfn_to_dev_addr (base_pfn (dat s dst)) (qs ! k))) [0..<npages]))
    (only src (map (\<lambda>k. Send (pfn_to_dev_addr (base_pfn (dat s src)) (ps ! k))) [0..<npages]))"
proof -
  let ?sb = "base_pfn (dat s src)" and ?base = "pfn_to_dev_addr (base_pfn (dat s dst)) (qs ! 0)"
  obtain s1 where s1: "run_state (writeq K src (mac_addr (dat s dst)) Dst_mac :: unit svm_m) s = ((), s1)" by (rule unit_run)
  obtain s2 where s2: "run_state (receive_loop K dst ?base npages 0) s1 = ((), s2)" by (rule unit_run)
  obtain s3 where s3: "run_state (send_loop K src ?sb ps npages 0) s2 = ((), s3)" by (rule unit_run)
  have w: "run_state (wait_for_h2c_intr K polls dst (npages < PAGE_DMA_POLL_LIMIT)) s3 = (0, s')"
    using assms(1) s1 s2 s3 by (simp add: copy_dev_to_dev_network_def)
  have m1: "moves s s1 none none" using quiet_mD [OF quiet_call(2) s1] by (simp add: quiet_moves)
  have m4: "moves s3 s' none none" using quiet_mD [OF quiet_wait(2) w] by (simp add: quiet_moves)
  show ?thesis
    using consecutive_map [OF assms(2), of "\<lambda>_. Receive"]
    by (intro moves_cong [OF moves_trans [OF m1 moves_trans [OF receive_loop_moves [OF s2] moves_trans [OF send_loop_moves [OF s3] m4]]]])
      (simp_all add: only_def)
qed

text \<open>Page \<open>k\<close> goes through place \<open>k mod 1024\<close> of the buffer.\<close>

definition to_buffer :: "u64 \<Rightarrow> u64 \<Rightarrow> u64 list \<Rightarrow> nat \<Rightarrow> page_op" where
  "to_buffer buf sb ps k = Copy (pfn_to_dev_addr sb (ps ! k)) (buf + word_of_nat (k mod 1024) * PAGE_SIZE)"

definition from_buffer :: "u64 \<Rightarrow> u64 \<Rightarrow> u64 list \<Rightarrow> nat \<Rightarrow> page_op" where
  "from_buffer buf db qs k = Copy (buf + word_of_nat (k mod 1024) * PAGE_SIZE) (pfn_to_dev_addr db (qs ! k))"

lemma upt_shift: "map f [i..<i + n] = map (\<lambda>j. f (i + j)) [0..<n]"
  by (rule nth_equalityI) simp_all

lemma chunk_mod: "i mod 1024 = (0 :: nat) \<Longrightarrow> j < 1024 \<Longrightarrow> (i + j) mod 1024 = j"
  by (simp flip: mod_add_left_eq [of i])

lemma buffered_loop_moves:
  assumes qs: "consecutive qs npages"
  shows "run_state (buffered_loop K polls src dst buf sb db ps qs npages i) s = (0, s') \<Longrightarrow> i mod 1024 = 0 \<or> npages \<le> i \<Longrightarrow>
    moves s s' (only dst (map (from_buffer buf db qs) [i..<npages])) (only src (map (to_buffer buf sb ps) [i..<npages]))"
proof (induction "npages - i" arbitrary: i s rule: less_induct)
  case less
  show ?case
  proof (cases "i < npages")
    case True
    define n where "n = min (npages - i) DEV_TO_DEV_DMA_MAX_NPAGES"
    have n: "0 < n" "n \<le> 1024" "i + n \<le> npages" "n = 1024 \<or> i + n = npages" using True by (auto simp: n_def DEV_TO_DEV_DMA_MAX_NPAGES_def)
    have i: "i mod 1024 = 0" using less.prems(2) True by simp
    let ?contig = "\<lambda>k. is_contiguous_page (ps ! (i + k)) (ps ! (i + k - 1))" and ?host = "\<lambda>k. buf + word_of_nat k * PAGE_SIZE"
      and ?dev = "\<lambda>k. pfn_to_dev_addr sb (ps ! (i + k))"
    obtain r1 s1 where s1: "run_state (c2h_loop K polls src ?contig ?host ?dev n 0 0) s = (r1, s1)" by (rule pair_run)
    obtain r2 s2 where s2: "run_state (wait_for_c2h_intr K polls src (n < PAGE_DMA_POLL_LIMIT)) s1 = (r2, s2)" by (rule pair_run)
    obtain s3 where s3: "run_state (init_h2c_dma K dst buf (pfn_to_dev_addr db (qs ! i)) n False False) s2 = ((), s3)" by (rule unit_run)
    obtain r4 s4 where s4: "run_state (wait_for_h2c_intr K polls dst (n < PAGE_DMA_POLL_LIMIT)) s3 = (r4, s4)" by (rule pair_run)
    have r: "r1 = 0" and rest: "run_state (buffered_loop K polls src dst buf sb db ps qs npages (i + n)) s4 = (0, s')"
      using less.prems(1) s1 s2 s3 s4 True
      by (auto simp: buffered_loop.simps [of K polls src dst buf sb db ps qs npages i] Let_def n_def split: if_splits)
    have apart: "?dev k = ?dev (k - 1) + PAGE_SIZE \<and> ?host k = ?host (k - 1) + PAGE_SIZE" if "0 < k" "k < n" "?contig k" for k
      using contiguous_page_addr [OF that(3), of sb] that(1) by (cases k) (simp_all add: algebra_simps)
    have "map (\<lambda>k. Copy (?dev k) (?host k)) [0..<n] = map (to_buffer buf sb ps) [i..<i + n]"
      unfolding upt_shift using n(2) chunk_mod [OF i] by (auto simp: to_buffer_def)
    then have m1: "moves s s1 none (only src (map (to_buffer buf sb ps) [i..<i + n]))"
      using c2h_loop_moves [of n ?contig ?dev ?host K polls src 0 0 s s1] s1 apart unfolding r by simp
    have m2: "moves s1 s2 none none" using quiet_mD [OF quiet_wait(1) s2] by (simp add: quiet_moves)
    have "map (h2c_op buf (pfn_to_dev_addr db (qs ! i)) False False) [0..<n] = map (from_buffer buf db qs) [i..<i + n]"
      unfolding upt_shift
    proof (rule map_cong [OF refl])
      fix k assume "k \<in> set [0..<n]"
      then have k: "k < n" by simp
      have "pfn_to_dev_addr db (qs ! (i + k)) = pfn_to_dev_addr db (qs ! i) + word_of_nat k * PAGE_SIZE"
        using consecutive_addr [OF qs, of "i + k" db] consecutive_addr [OF qs, of i db] k n(3) by (simp add: algebra_simps)
      then show "h2c_op buf (pfn_to_dev_addr db (qs ! i)) False False k = from_buffer buf db qs (i + k)"
        using k n(2) chunk_mod [OF i, of k] by (simp add: h2c_op_def from_buffer_def)
    qed
    then have m3: "moves s2 s3 (only dst (map (from_buffer buf db qs) [i..<i + n])) none"
      using init_h2c_dma_moves [OF n(1) _ s3] n(2) by simp
    have m4: "moves s3 s4 none none" using quiet_mD [OF quiet_wait(2) s4] by (simp add: quiet_moves)
    have "(i + n) mod 1024 = 0 \<or> npages \<le> i + n" using n(4) i by (auto simp: mod_add_left_eq)
    then have m5: "moves s4 s' (only dst (map (from_buffer buf db qs) [i + n..<npages])) (only src (map (to_buffer buf sb ps) [i + n..<npages]))"
      using less.hyps [OF _ rest] n True by simp
    have "[i..<npages] = [i..<i + n] @ [i + n..<npages]" using n by (intro upt_split) simp_all
    then show ?thesis
      by (intro moves_cong [OF moves_trans [OF m1 moves_trans [OF m2 moves_trans [OF m3 moves_trans [OF m4 m5]]]]]) (simp_all add: only_def)
  next
    case False
    then show ?thesis using less.prems by (simp add: buffered_loop.simps [of K polls src dst buf sb db ps qs npages i] flip: quiet_moves)
  qed
qed

lemma buffered_moves:
  assumes "run_state (copy_dev_to_dev_buffered K polls src dst ps qs npages) s = (0, s')" "consecutive qs npages"
  shows "\<exists>buf. moves s s' (only dst (map (from_buffer buf (base_pfn (dat s dst)) qs) [0..<npages]))
    (only src (map (to_buffer buf (base_pfn (dat s src)) ps) [0..<npages]))"
proof -
  let ?n = "min npages DEV_TO_DEV_DMA_MAX_NPAGES"
  obtain b s1 where s1: "run_state (kcall K (Kmalloc_buf ?n) :: int svm_m) s = (b, s1)" by (rule pair_run)
  obtain a s2 where s2: "run_state (kcall K (Dma_map_single dst b ?n) :: int svm_m) s1 = (a, s2)" by (rule pair_run)
  obtain r s3 where s3: "run_state (buffered_loop K polls src dst (word_of_int a) (base_pfn (dat s src)) (base_pfn (dat s dst)) ps qs npages 0) s2 = (r, s3)"
    by (rule pair_run)
  have r: "r = 0" and tl: "run_state (do { kdo K (Dma_unmap_single dst a ?n); kdo K (Kfree b) }) s3 = ((), s')"
    using assms(1) s1 s2 s3 by (auto simp: copy_dev_to_dev_buffered_def Let_def ENOMEM_def EACCES_def simp del: run_kcall run_kdo split: if_splits prod.splits)
  have m1: "moves s s2 none none"
    using quiet_trans [OF quiet_mD [OF quiet_call(1) s1] quiet_mD [OF quiet_call(1) s2]] by (simp add: quiet_moves)
  have "quiet_m (do { kdo K (Dma_unmap_single dst a ?n); kdo K (Kfree b) })" by (intro quiet_intros) simp_all
  then have m3: "moves s3 s' none none" using quiet_mD [OF _ tl] by (simp add: quiet_moves)
  note m2 = buffered_loop_moves [OF assms(2) s3 [unfolded r]]
  show ?thesis by (intro exI moves_cong [OF moves_trans [OF m1 moves_trans [OF m2 m3]]]) (simp_all add: only_def)
qed


text \<open>Three pages, of which the first two are contiguous, on an idle core: two commands.\<close>

definition svm_example :: "nat \<Rightarrow> svm_data" where
  "svm_example = (\<lambda>_. \<lparr>base_pfn = 0x100, free_mem_blocks = [], vmem_intervals = [], error_state = 0,
     network_dma_enabled = False, mac_addr = 0, rdma_bar = 0x80000000\<rparr>)"


end
