(* ===== verification/Svm_Migrate.thy ===== *)
theory Svm_Migrate
  imports Svm_Copy
begin

text \<open>
  Migration of a range of virtual memory, \<^verbatim>\<open>pcie/pcie_svm.c\<close>: from host memory to a device, from one device
  to another and back to the host. Arrays are lists in local variables; the pointers to them
  are kept because they are allocated and freed. \<^verbatim>\<open>retry_cnt\<close> is not initialised in the code: its first
  value is a parameter.
\<close>

unbundle bit_operations_syntax

section \<open>Pieces of the code\<close>

fun kcallocs :: "svm_call kenv \<Rightarrow> nat \<Rightarrow> nat \<Rightarrow> int list svm_m" where
  "kcallocs K npages 0 = State_Monad.return []"
| "kcallocs K npages (Suc n) = do {
     p \<leftarrow> kcall K (Kcalloc npages);
     ps \<leftarrow> kcallocs K npages n;
     State_Monad.return (p # ps)
   }"

fun kfrees :: "svm_call kenv \<Rightarrow> int list \<Rightarrow> unit svm_m" where
  "kfrees K [] = State_Monad.return ()"
| "kfrees K (p # ps) = do {
     (if p \<noteq> 0 then kdo K (Kfree p) else State_Monad.return ());
     kfrees K ps
   }"

text \<open>Allocation of device memory and of the pages that stand for it.\<close>

definition alloc_dev :: "nat \<Rightarrow> nat \<Rightarrow> u64 svm_m" where
  "alloc_dev d npages = do {
     r \<leftarrow> getd (\<lambda>s. allocate_device_memory (word_of_nat npages * PAGE_SIZE) (free_mem_blocks (s d)));
     modd (\<lambda>s. s(d := (s d)\<lparr>free_mem_blocks := snd r\<rparr>));
     State_Monad.return (fst r)
   }"

fun get_dst_pages :: "svm_call kenv \<Rightarrow> nat \<Rightarrow> u64 list \<Rightarrow> unit svm_m" where
  "get_dst_pages K d [] = State_Monad.return ()"
| "get_dst_pages K d (p # ps) = do {
     kdo K (Get_device_page p);
     kdo K (Set_zone_device_data p d);
     get_dst_pages K d ps
   }"

fun put_dst_pages :: "svm_call kenv \<Rightarrow> u64 list \<Rightarrow> unit svm_m" where
  "put_dst_pages K [] = State_Monad.return ()"
| "put_dst_pages K (p # ps) = do {
     (if p \<noteq> 0 then do { kdo K (Unlock_page p); kdo K (Put_page p) } else State_Monad.return ());
     put_dst_pages K ps
   }"

fun unmap_pages :: "svm_call kenv \<Rightarrow> nat \<Rightarrow> dma_dir \<Rightarrow> u64 list \<Rightarrow> unit svm_m" where
  "unmap_pages K d dir [] = State_Monad.return ()"
| "unmap_pages K d dir (a # as) = do {
     (if a \<noteq> 0 then kdo K (Dma_unmap_page d a dir) else State_Monad.return ());
     unmap_pages K d dir as
   }"

text \<open>The loop over the results of the migration: whether all pages have been migrated.\<close>

fun all_migrated :: "svm_call kenv \<Rightarrow> nat list \<Rightarrow> bool svm_m" where
  "all_migrated K [] = State_Monad.return True"
| "all_migrated K (i # is) = do {
     f \<leftarrow> kcall K (Src_migrate i);
     if f = 0 then State_Monad.return False else all_migrated K is
   }"

definition do_insert_vmem :: "svm_call kenv \<Rightarrow> nat \<Rightarrow> u64 \<Rightarrow> nat \<Rightarrow> unit svm_m" where
  "do_insert_vmem K d vaddr npages = do {
     ok \<leftarrow> kcall K Kmalloc_node;
     t \<leftarrow> getd (\<lambda>s. vmem_intervals (s d));
     case insert_vmem_interval (ok \<noteq> 0) vaddr (int npages) t of
       None \<Rightarrow> kdo K Undefined_behaviour
     | Some (r, t') \<Rightarrow> modd (\<lambda>s. s(d := (s d)\<lparr>vmem_intervals := t'\<rparr>))
   }"

definition do_remove_vmem :: "svm_call kenv \<Rightarrow> nat \<Rightarrow> u64 \<Rightarrow> nat \<Rightarrow> unit svm_m" where
  "do_remove_vmem K d vaddr npages = do {
     ok \<leftarrow> kcall K Kmalloc_node;
     t \<leftarrow> getd (\<lambda>s. vmem_intervals (s d));
     case remove_vmem_interval (ok \<noteq> 0) vaddr (int npages) t of
       None \<Rightarrow> kdo K Undefined_behaviour
     | Some t' \<Rightarrow> modd (\<lambda>s. s(d := (s d)\<lparr>vmem_intervals := t'\<rparr>))
   }"

definition DMA_MAPPING_ERROR :: u64 where
  [tlkm_const]: "DMA_MAPPING_ERROR = - 1"

section \<open>From host memory to a device\<close>

text \<open>Mapping of the source pages: error code, pages and addresses. The loop works on the entries \<open>is\<close>; \<open>ps\<close> and
  \<open>as\<close> are the arrays.\<close>

fun map_src_pages :: "svm_call kenv \<Rightarrow> nat \<Rightarrow> u64 list \<Rightarrow> nat list \<Rightarrow> u64 list \<Rightarrow> u64 list \<Rightarrow> (int \<times> u64 list \<times> u64 list) svm_m" where
  "map_src_pages K d qs [] ps as = State_Monad.return (0, ps, as)"
| "map_src_pages K d qs (i # is) ps as = do {
     v \<leftarrow> kcall K (Src_page i);
     let p = word_of_int v;
     let ps' = ps[i := p];
     if p \<noteq> 0 then do {
       a \<leftarrow> kcall K (Dma_map_page d p DMA_TO_DEVICE);
       let as' = as[i := word_of_int a];
       if word_of_int a = DMA_MAPPING_ERROR then do {
         kdo K (Unlock_page (qs ! i));
         kdo K (Put_page (qs ! i));
         kdo K (Dma_unmap_page d (word_of_int a) DMA_TO_DEVICE);
         State_Monad.return (- EACCES, ps', as'[i := 0]) }
       else map_src_pages K d qs is ps' as' }
     else map_src_pages K d qs is ps' as
   }"

text \<open>The error exits, from \<^verbatim>\<open>fail_dma\<close> and from \<^verbatim>\<open>fail_allocmem\<close> on.\<close>

definition fail_allocmem :: "svm_call kenv \<Rightarrow> int list \<Rightarrow> u64 list \<Rightarrow> int \<Rightarrow> int svm_m" where
  "fail_allocmem K arrays qs res = do {
     put_dst_pages K qs;
     kdo K Migrate_vma_finalize;
     kfrees K arrays;
     State_Monad.return res
   }"

definition fail_dma :: "svm_call kenv \<Rightarrow> nat \<Rightarrow> int list \<Rightarrow> u64 list \<Rightarrow> u64 list \<Rightarrow> int \<Rightarrow> int svm_m" where
  "fail_dma K d arrays qs as res = do {
     unmap_pages K d DMA_TO_DEVICE as;
     fail_allocmem K arrays qs res
   }"

text \<open>The transfer: mapped pages are copied, pages without source are cleared.\<close>

definition ram_to_dev_dma :: "svm_call kenv \<Rightarrow> nat \<Rightarrow> nat \<Rightarrow> u64 \<Rightarrow> u64 \<Rightarrow> u64 list \<Rightarrow> u64 list \<Rightarrow> nat \<Rightarrow> int svm_m" where
  "ram_to_dev_dma K polls d bpfn pfn ps as npages = do {
     res \<leftarrow> h2c_loop K polls d bpfn pfn ps as npages 0 0;
     if res \<noteq> 0 then State_Monad.return res
     else do {
       res \<leftarrow> wait_for_h2c_intr K polls d (npages < PAGE_DMA_POLL_LIMIT);
       if res \<noteq> 0 then State_Monad.return res
       else do {
         v \<leftarrow> readq K d H2c_status_ctrl;
         State_Monad.return (if v AND PAGE_DMA_STAT_ERROR_FLAGS \<noteq> 0 then - EACCES else 0) } }
   }"

function ram_to_dev_attempt :: "svm_call kenv \<Rightarrow> nat \<Rightarrow> nat \<Rightarrow> u64 \<Rightarrow> nat \<Rightarrow> int list \<Rightarrow> int \<Rightarrow> u64 list \<Rightarrow> u64 list \<Rightarrow> int svm_m" where
  "ram_to_dev_attempt K polls d vaddr npages arrays retry_cnt ps as = do {
     res \<leftarrow> kcall K (Migrate_vma_setup d False vaddr (vaddr + word_of_nat npages * PAGE_SIZE));
     if res < 0 then do { kfrees K arrays; State_Monad.return res }
     else do {
       cpages \<leftarrow> kcall K Cpages;
       if cpages \<noteq> int npages then do {
         kdo K Migrate_vma_finalize;
         if retry_cnt + 1 > 3 then do { kfrees K arrays; State_Monad.return (- ENOMEM) }
         else ram_to_dev_attempt K polls d vaddr npages arrays (retry_cnt + 1) ps as }
       else do {
         dev_base_addr \<leftarrow> alloc_dev d npages;
         if dev_base_addr = - 1 then fail_allocmem K arrays (replicate npages 0) (- ENOMEM)
         else do {
           bpfn \<leftarrow> getd (\<lambda>s. base_pfn (s d));
           let pfn = dev_addr_to_pfn bpfn dev_base_addr;
           let qs = map (\<lambda>i. pfn + word_of_nat i) [0..<npages];
           get_dst_pages K d qs;
           (res, ps', as') \<leftarrow> map_src_pages K d qs [0..<npages] ps as;
           if res \<noteq> 0 then fail_dma K d arrays qs as' res
           else do {
             res \<leftarrow> ram_to_dev_dma K polls d bpfn pfn ps' as' npages;
             if res \<noteq> 0 then fail_dma K d arrays qs as' res
             else do {
               unmap_pages K d DMA_TO_DEVICE as';
               kdo K Migrate_vma_pages;
               ok \<leftarrow> all_migrated K [0..<npages];
               if \<not> ok then do {
                 put_dst_pages K qs;
                 kdo K Migrate_vma_finalize;
                 if retry_cnt + 1 > 4 then do { kfrees K arrays; State_Monad.return (- ENOMEM) }
                 else ram_to_dev_attempt K polls d vaddr npages arrays (retry_cnt + 1) ps' as' }
               else do {
                 add_tlb_entries K d bpfn vaddr pfn npages;
                 kdo K Migrate_vma_finalize;
                 do_insert_vmem K d vaddr npages;
                 kfrees K arrays;
                 State_Monad.return 0 } } } } } } }"
  by pat_completeness auto
termination
  by (relation "measure (\<lambda>(K, polls, d, v, n, arr, rc, ps, as). nat (5 - rc))") auto

declare ram_to_dev_attempt.simps [simp del]

definition svm_migrate_ram_to_dev :: "svm_call kenv \<Rightarrow> nat \<Rightarrow> int \<Rightarrow> nat \<Rightarrow> u64 \<Rightarrow> nat \<Rightarrow> int svm_m" where
  "svm_migrate_ram_to_dev K polls retry_cnt d vaddr npages = do {
     arrays \<leftarrow> kcallocs K npages 5;
     if \<exists>p \<in> set arrays. p = 0 then do { kfrees K (rev arrays); State_Monad.return (- ENOMEM) }
     else do {
       vma \<leftarrow> kcall K (Find_vma_intersection vaddr (vaddr + word_of_nat npages * PAGE_SIZE));
       if vma = 0 then do { kfrees K (rev arrays); State_Monad.return (- EFAULT) }
       else ram_to_dev_attempt K polls d vaddr npages (rev arrays) retry_cnt (replicate npages 0) (replicate npages 0) }
   }"

section \<open>From device to device\<close>

text \<open>Waiting for the end of the accesses of the device; \<open>polls\<close> as above.\<close>

fun wait_idle :: "svm_call kenv \<Rightarrow> nat \<Rightarrow> nat \<Rightarrow> unit svm_m" where
  "wait_idle K 0 d = do { v \<leftarrow> readq K d Mmu_status; State_Monad.return () }"
| "wait_idle K (Suc n) d = do {
     v \<leftarrow> readq K d Mmu_status;
     if v AND MMU_STATUS_ANY_MEM_ACCESS \<noteq> 0 then wait_idle K n d else State_Monad.return ()
   }"

text \<open>The loop interleaves reading the sources with taking the device pages.\<close>

fun get_both_pages :: "svm_call kenv \<Rightarrow> nat \<Rightarrow> u64 list \<Rightarrow> nat \<Rightarrow> u64 list svm_m" where
  "get_both_pages K d [] i = State_Monad.return []"
| "get_both_pages K d (q # qs) i = do {
     v \<leftarrow> kcall K (Src_page i);
     kdo K (Get_device_page q);
     kdo K (Set_zone_device_data q d);
     ps \<leftarrow> get_both_pages K d qs (i + 1);
     State_Monad.return (word_of_int v # ps)
   }"

fun clear_zone_device_data :: "svm_call kenv \<Rightarrow> u64 list \<Rightarrow> unit svm_m" where
  "clear_zone_device_data K [] = State_Monad.return ()"
| "clear_zone_device_data K (p # ps) = do {
     kdo K (Clear_zone_device_data p);
     clear_zone_device_data K ps
   }"

definition queue_dev_pages_free_work :: "svm_call kenv \<Rightarrow> nat \<Rightarrow> int \<Rightarrow> u64 list \<Rightarrow> bool svm_m" where
  "queue_dev_pages_free_work K d arr ps = do {
     env \<leftarrow> kcall K Kmalloc_env;
     if env = 0 then State_Monad.return False
     else do {
       kdo K (Queue_pages_free d arr ps);
       State_Monad.return True }
   }"

definition copy_dev_to_dev :: "svm_call kenv \<Rightarrow> nat \<Rightarrow> nat \<Rightarrow> nat \<Rightarrow> u64 list \<Rightarrow> u64 list \<Rightarrow> nat \<Rightarrow> int svm_m" where
  "copy_dev_to_dev K polls src dst ps qs npages = do {
     net \<leftarrow> getd (\<lambda>s. network_dma_enabled (s src) \<and> network_dma_enabled (s dst));
     bar \<leftarrow> getd (\<lambda>s. rdma_bar (s dst));
     res \<leftarrow> (if net then copy_dev_to_dev_network K polls src dst ps qs npages
             else if bar \<noteq> 0 then copy_dev_to_dev_pcie_e2e K polls src dst ps qs npages
             else copy_dev_to_dev_buffered K polls src dst ps qs npages);
     if res \<noteq> 0 then State_Monad.return res
     else do {
       v \<leftarrow> readq K src C2h_status_ctrl;
       if v AND PAGE_DMA_STAT_ERROR_FLAGS \<noteq> 0 then State_Monad.return (- EACCES)
       else do {
         w \<leftarrow> readq K dst H2c_status_ctrl;
         State_Monad.return (if w AND PAGE_DMA_STAT_ERROR_FLAGS \<noteq> 0 then - EACCES else 0) } }
   }"

function dev_to_dev_attempt :: "svm_call kenv \<Rightarrow> nat \<Rightarrow> nat \<Rightarrow> nat \<Rightarrow> u64 \<Rightarrow> nat \<Rightarrow> int \<Rightarrow> int \<Rightarrow> int \<Rightarrow> int \<Rightarrow> int \<Rightarrow> int svm_m" where
  "dev_to_dev_attempt K polls src dst vaddr npages msrc mdst psrc pdst retry_cnt = do {
     res \<leftarrow> kcall K (Migrate_vma_setup src True vaddr (vaddr + word_of_nat npages * PAGE_SIZE));
     if res < 0 then do { kfrees K [pdst, psrc, mdst, msrc]; State_Monad.return res }
     else do {
       cpages \<leftarrow> kcall K Cpages;
       if cpages \<noteq> int npages then do {
         kdo K Migrate_vma_finalize;
         if retry_cnt + 1 > 3 then do { kfrees K [pdst, psrc, mdst, msrc]; State_Monad.return (- ENOMEM) }
         else dev_to_dev_attempt K polls src dst vaddr npages msrc mdst psrc pdst (retry_cnt + 1) }
       else do {
         dev_base_addr \<leftarrow> alloc_dev dst npages;
         if dev_base_addr = - 1 then fail_allocmem K [pdst, psrc, mdst, msrc] (replicate npages 0) (- ENOMEM)
         else do {
           bpfn \<leftarrow> getd (\<lambda>s. base_pfn (s dst));
           let pfn = dev_addr_to_pfn bpfn dev_base_addr;
           let qs = map (\<lambda>i. pfn + word_of_nat i) [0..<npages];
           ps \<leftarrow> get_both_pages K dst qs 0;
           res \<leftarrow> copy_dev_to_dev K polls src dst ps qs npages;
           if res \<noteq> 0 then fail_allocmem K [pdst, psrc, mdst, msrc] qs res
           else do {
             kdo K Migrate_vma_pages;
             ok \<leftarrow> all_migrated K [0..<npages];
             if \<not> ok then do {
               put_dst_pages K qs;
               kdo K Migrate_vma_finalize;
               kfrees K [pdst, psrc, mdst, msrc];
               State_Monad.return (- ENOMEM) }
             else do {
               add_tlb_entries K dst bpfn vaddr pfn npages;
               clear_zone_device_data K ps;
               queue_dev_pages_free_work K src psrc ps;
               kdo K Migrate_vma_finalize;
               do_remove_vmem K src vaddr npages;
               do_insert_vmem K dst vaddr npages;
               kfrees K [pdst, mdst, msrc];
               State_Monad.return 0 } } } } } }"
  by pat_completeness auto
termination
  by (relation "measure (\<lambda>(K, polls, src, dst, v, n, a, b, c, d, rc). nat (5 - rc))") auto

declare dev_to_dev_attempt.simps [simp del]

definition svm_migrate_dev_to_dev :: "svm_call kenv \<Rightarrow> nat \<Rightarrow> int \<Rightarrow> nat \<Rightarrow> nat \<Rightarrow> u64 \<Rightarrow> nat \<Rightarrow> int svm_m" where
  "svm_migrate_dev_to_dev K polls retry_cnt src dst vaddr npages = do {
     msrc \<leftarrow> kcall K (Kcalloc npages);
     mdst \<leftarrow> kcall K (Kcalloc npages);
     psrc \<leftarrow> kcall K (Kcalloc npages);
     pdst \<leftarrow> kcall K (Kcalloc npages);
     if msrc = 0 \<or> mdst = 0 \<or> psrc = 0 \<or> pdst = 0
     then do { kfrees K [pdst, psrc, mdst, msrc]; State_Monad.return (- ENOMEM) }
     else do {
       vma \<leftarrow> kcall K (Find_vma_intersection vaddr (vaddr + word_of_nat npages * PAGE_SIZE));
       if vma = 0 then do { kfrees K [pdst, psrc, mdst, msrc]; State_Monad.return (- EFAULT) }
       else do {
         writeq K src MMU_DEACTIVATE Mmu_cmd;
         invalidate_tlb_range K src vaddr npages;
         wait_idle K polls src;
         writeq K src MMU_ACTIVATE Mmu_cmd;
         dev_to_dev_attempt K polls src dst vaddr npages msrc mdst psrc pdst retry_cnt } }
   }"

section \<open>Back to host memory\<close>

text \<open>Allocation and mapping of the host pages: error code, source pages, new pages and addresses. A
  place that was not reached is 0.\<close>

fun alloc_host_pages :: "svm_call kenv \<Rightarrow> nat \<Rightarrow> u64 \<Rightarrow> nat list \<Rightarrow> u64 list \<Rightarrow> u64 list \<Rightarrow> u64 list
    \<Rightarrow> (int \<times> u64 list \<times> u64 list \<times> u64 list) svm_m" where
  "alloc_host_pages K d vaddr [] ps qs as = State_Monad.return (0, ps, qs, as)"
| "alloc_host_pages K d vaddr (i # is) ps qs as = do {
     v \<leftarrow> kcall K (Src_page i);
     let ps' = ps[i := word_of_int v];
     q \<leftarrow> kcall K (Alloc_page_vma (vaddr + word_of_nat i * PAGE_SIZE));
     let qs' = qs[i := word_of_int q];
     if word_of_int q = (0 :: u64) then State_Monad.return (- ENOMEM, ps', qs', as)
     else do {
       kdo K (Lock_page (word_of_int q));
       a \<leftarrow> kcall K (Dma_map_page d (word_of_int q) DMA_FROM_DEVICE);
       if word_of_int a = DMA_MAPPING_ERROR then do {
         kdo K (Unlock_page (word_of_int q));
         kdo K (Free_page (word_of_int q));
         kdo K (Dma_unmap_page d (word_of_int a) DMA_TO_DEVICE);
         State_Monad.return (- EACCES, ps', qs'[i := 0], as[i := 0]) }
       else alloc_host_pages K d vaddr is ps' qs' (as[i := word_of_int a]) }
   }"

fun free_host_pages :: "svm_call kenv \<Rightarrow> nat \<Rightarrow> u64 list \<Rightarrow> u64 list \<Rightarrow> unit svm_m" where
  "free_host_pages K d (q # qs) (a # as) = do {
     (if q \<noteq> 0 then do {
        (if a \<noteq> 0 then kdo K (Dma_unmap_page d a DMA_FROM_DEVICE) else State_Monad.return ());
        kdo K (Unlock_page q);
        kdo K (Free_page q) }
      else State_Monad.return ());
     free_host_pages K d qs as }"
| "free_host_pages K d qs as = State_Monad.return ()"

fun free_pages :: "svm_call kenv \<Rightarrow> u64 list \<Rightarrow> unit svm_m" where
  "free_pages K [] = State_Monad.return ()"
| "free_pages K (q # qs) = do {
     kdo K (Unlock_page q);
     kdo K (Free_page q);
     free_pages K qs
   }"

definition dev_to_ram_dma :: "svm_call kenv \<Rightarrow> nat \<Rightarrow> nat \<Rightarrow> u64 \<Rightarrow> u64 list \<Rightarrow> u64 list \<Rightarrow> nat \<Rightarrow> int svm_m" where
  "dev_to_ram_dma K polls d bpfn ps as npages = do {
     res \<leftarrow> c2h_loop K polls d
       (\<lambda>k. is_contiguous (as ! k) (as ! (k - 1)) \<and> is_contiguous_page (ps ! k) (ps ! (k - 1)))
       (\<lambda>k. as ! k) (\<lambda>k. pfn_to_dev_addr bpfn (ps ! k)) npages 0 0;
     if res \<noteq> 0 then State_Monad.return res
     else do {
       res \<leftarrow> wait_for_c2h_intr K polls d (npages < PAGE_DMA_POLL_LIMIT);
       if res \<noteq> 0 then State_Monad.return res
       else do {
         v \<leftarrow> readq K d C2h_status_ctrl;
         State_Monad.return (if v AND PAGE_DMA_STAT_ERROR_FLAGS \<noteq> 0 then - EACCES else 0) } }
   }"

text \<open>The exit from \<^verbatim>\<open>fail_setup\<close> on.\<close>

definition dev_to_ram_fail :: "svm_call kenv \<Rightarrow> nat \<Rightarrow> int list \<Rightarrow> int \<Rightarrow> int svm_m" where
  "dev_to_ram_fail K d arrays res = do {
     writeq K d MMU_ACTIVATE Mmu_cmd;
     kfrees K arrays;
     State_Monad.return res
   }"

function dev_to_ram_attempt :: "svm_call kenv \<Rightarrow> nat \<Rightarrow> nat \<Rightarrow> u64 \<Rightarrow> nat \<Rightarrow> int \<Rightarrow> int \<Rightarrow> int \<Rightarrow> int \<Rightarrow> int \<Rightarrow> int \<Rightarrow> int svm_m" where
  "dev_to_ram_attempt K polls d vaddr npages msrc mdst psrc pdst pdma retry_cnt = do {
     res \<leftarrow> kcall K (Migrate_vma_setup d True vaddr (vaddr + word_of_nat npages * PAGE_SIZE));
     if res < 0 then dev_to_ram_fail K d [msrc, mdst, psrc, pdst, pdma] res
     else do {
       cpages \<leftarrow> kcall K Cpages;
       if cpages \<noteq> int npages then do {
         kdo K Migrate_vma_finalize;
         if retry_cnt + 1 > 3 then dev_to_ram_fail K d [msrc, mdst, psrc, pdst, pdma] (- ENOMEM)
         else dev_to_ram_attempt K polls d vaddr npages msrc mdst psrc pdst pdma (retry_cnt + 1) }
       else do {
         bpfn \<leftarrow> getd (\<lambda>s. base_pfn (s d));
         (res, ps, qs, as) \<leftarrow> alloc_host_pages K d vaddr [0..<npages] (replicate npages 0) (replicate npages 0) (replicate npages 0);
         res \<leftarrow> (if res \<noteq> 0 then State_Monad.return res else dev_to_ram_dma K polls d bpfn ps as npages);
         if res \<noteq> 0 then do {
           free_host_pages K d qs as;
           kdo K Migrate_vma_finalize;
           dev_to_ram_fail K d [msrc, mdst, psrc, pdst, pdma] res }
         else do {
           unmap_pages K d DMA_FROM_DEVICE as;
           kdo K Migrate_vma_pages;
           ok \<leftarrow> all_migrated K [0..<npages];
           if \<not> ok then do {
             free_pages K qs;
             kdo K Migrate_vma_finalize;
             dev_to_ram_fail K d [msrc, mdst, psrc, pdst, pdma] (- ENOMEM) }
           else do {
             clear_zone_device_data K ps;
             queue_dev_pages_free_work K d psrc ps;
             kdo K Migrate_vma_finalize;
             do_remove_vmem K d vaddr npages;
             writeq K d MMU_ACTIVATE Mmu_cmd;
             kfrees K [pdma, pdst, mdst, msrc];
             State_Monad.return 0 } } } } }"
  by pat_completeness auto
termination
  by (relation "measure (\<lambda>(K, polls, d, v, n, a, b, c, e, f, rc). nat (5 - rc))") auto

declare dev_to_ram_attempt.simps [simp del]

text \<open>When the arrays cannot be allocated, \<^verbatim>\<open>res\<close> is returned uninitialised: \<open>res0\<close>.\<close>

definition svm_migrate_dev_to_ram :: "svm_call kenv \<Rightarrow> nat \<Rightarrow> int \<Rightarrow> int \<Rightarrow> nat \<Rightarrow> u64 \<Rightarrow> nat \<Rightarrow> int svm_m" where
  "svm_migrate_dev_to_ram K polls res0 retry_cnt d vaddr npages = do {
     msrc \<leftarrow> kcall K (Kcalloc npages);
     mdst \<leftarrow> kcall K (Kcalloc npages);
     psrc \<leftarrow> kcall K (Kcalloc npages);
     pdst \<leftarrow> kcall K (Kcalloc npages);
     pdma \<leftarrow> kcall K (Kcalloc npages);
     if msrc = 0 \<or> mdst = 0 \<or> psrc = 0 \<or> pdst = 0 \<or> pdma = 0
     then do { kfrees K [msrc, mdst, psrc, pdst, pdma]; State_Monad.return res0 }
     else do {
       vma \<leftarrow> kcall K (Find_vma_intersection vaddr (vaddr + word_of_nat npages * PAGE_SIZE));
       if vma = 0 then do { kfrees K [msrc, mdst, psrc, pdst, pdma]; State_Monad.return (- EFAULT) }
       else do {
         writeq K d MMU_DEACTIVATE Mmu_cmd;
         invalidate_tlb_range K d vaddr npages;
         wait_idle K polls d;
         dev_to_ram_attempt K polls d vaddr npages msrc mdst psrc pdst pdma retry_cnt } }
   }"

end
