(* ===== verification/Svm_Resources.thy ===== *)
theory Svm_Resources
  imports Svm_Migrate
begin

text \<open>
  What the migrations hold: arrays, mappings for DMA and the migration in progress between
  \<^verbatim>\<open>migrate_vma_setup\<close> and \<^verbatim>\<open>migrate_vma_finalize\<close>. Every path through the code gives back what it has taken.
\<close>

section \<open>The account\<close>

datatype svm_resource = Arr int | Migration | Mapping u64 | Buffer_mapping int

definition svm_acq :: "svm_call \<Rightarrow> int \<Rightarrow> svm_resource option" where
  "svm_acq c r = (case c of
     Kcalloc n \<Rightarrow> if r = 0 then None else Some (Arr r)
   | Kmalloc_buf n \<Rightarrow> if r = 0 then None else Some (Arr r)
   | Migrate_vma_setup d priv a b \<Rightarrow> if r < 0 then None else Some Migration
   | Dma_map_page d p dir \<Rightarrow> if word_of_int r = DMA_MAPPING_ERROR then None else Some (Mapping (word_of_int r))
   | Dma_map_single d p n \<Rightarrow> if r = - 1 then None else Some (Buffer_mapping r)
   | _ \<Rightarrow> None)"

text \<open>The array passed to \<open>Queue_pages_free\<close> belongs to the work item from then on. Unmapping the value
  that reports a failed mapping gives nothing back.\<close>

definition svm_rel :: "svm_call \<Rightarrow> svm_resource option" where
  "svm_rel c = (case c of
     Kfree p \<Rightarrow> Some (Arr p)
   | Queue_pages_free d arr ps \<Rightarrow> Some (Arr arr)
   | Migrate_vma_finalize \<Rightarrow> Some Migration
   | Dma_unmap_page d a dir \<Rightarrow> if a = DMA_MAPPING_ERROR then None else Some (Mapping a)
   | Dma_unmap_single d a n \<Rightarrow> if a = - 1 then None else Some (Buffer_mapping a)
   | _ \<Rightarrow> None)"

interpretation svm: accounting svm_acq svm_rel
proof
  show "svm_acq c r = Some x \<Longrightarrow> svm_rel c = None" for c r x by (cases c) (simp_all add: svm_acq_def svm_rel_def)
qed

definition own :: "svm_resource multiset \<Rightarrow> svm_st \<Rightarrow> bool" where
  "own rs s \<longleftrightarrow> live svm_acq svm_rel (trace s) {#} = Some rs"

lemma own_owns: "own rs = svm.owns rs (\<lambda>_. True)"
  by (simp add: own_def svm.owns_def fun_eq_iff)

text \<open>Calls and computations that leave the account as it is.\<close>

definition keeps :: "'r svm_m \<Rightarrow> bool" where
  "keeps m \<longleftrightarrow> (\<forall>rs. triple (own rs) m (\<lambda>_. own rs))"

named_theorems keeps_intros

lemma keepsD: "keeps m \<Longrightarrow> triple (own rs) m (\<lambda>_. own rs)"
  by (simp add: keeps_def)

lemma keeps_bind [keeps_intros]: "keeps m \<Longrightarrow> (\<And>x. keeps (f x)) \<Longrightarrow> keeps (State_Monad.bind m f)"
  by (auto simp: keeps_def intro: triple_bind)

lemma svm_keeps_return [keeps_intros]: "keeps (State_Monad.return x)"
  by (simp add: keeps_def triple_return)

lemma keeps_getd [keeps_intros]: "keeps (getd f)"
  by (simp add: keeps_def triple_def)

lemma keeps_modd [keeps_intros]: "keeps (modd f)"
  by (simp add: keeps_def triple_def own_def)

lemma keeps_if [keeps_intros]: "(b \<Longrightarrow> keeps m) \<Longrightarrow> (\<not> b \<Longrightarrow> keeps n) \<Longrightarrow> keeps (if b then m else n)"
  by simp

lemma keeps_case_prod [keeps_intros]: "(\<And>x y. keeps (f x y)) \<Longrightarrow> keeps (case p of (x, y) \<Rightarrow> f x y)"
  by (cases p) simp

lemma keeps_case_option [keeps_intros]: "keeps m \<Longrightarrow> (\<And>x. keeps (f x)) \<Longrightarrow> keeps (case p of None \<Rightarrow> m | Some x \<Rightarrow> f x)"
  by (cases p) simp_all

lemma keeps_let [keeps_intros]: "keeps (f x) \<Longrightarrow> keeps (let y = x in f y)"
  by simp

definition neutral :: "svm_call \<Rightarrow> bool" where
  "neutral c \<longleftrightarrow> (\<forall>r. svm_acq c r = None) \<and> svm_rel c = None"

lemma keeps_call [keeps_intros]:
  assumes "neutral c"
  shows "keeps (kcall K c)" "keeps (kdo K c)"
  using assms unfolding keeps_def own_owns neutral_def by (auto intro!: svm.owns_neutral)

lemma neutral_calls [simp]:
  "neutral (Writeq d v r)" "neutral (Readq d r)" "neutral Ktime_get_ms" "neutral (Wait_event_timeout d c)"
  "neutral Kmalloc_node" "neutral Migrate_vma_pages" "neutral Cpages" "neutral (Src_page i)" "neutral (Src_migrate i)"
  "neutral (Get_device_page p)" "neutral (Unlock_page p)" "neutral (Put_page p)" "neutral (Alloc_page_vma a)"
  "neutral (Lock_page p)" "neutral (Free_page p)" "neutral (Set_zone_device_data p d)" "neutral (Clear_zone_device_data p)"
  "neutral Kmalloc_env" "neutral Undefined_behaviour" "neutral (Find_vma_intersection a b)"
  by (simp_all add: neutral_def svm_acq_def svm_rel_def)

section \<open>Steps that leave the account as it is\<close>

lemma keeps_readq [keeps_intros]: "keeps (readq K d r)"
  unfolding readq_def by (intro keeps_intros) simp

lemma keeps_poll [keeps_intros]: "keeps (poll_dma K polls d r start)"
  by (induction polls) (subst poll_dma.simps, auto intro!: keeps_intros simp: Let_def)+

lemma keeps_wait [keeps_intros]: "keeps (wait_for_c2h_intr K polls d poll)" "keeps (wait_for_h2c_intr K polls d poll)"
  unfolding wait_for_c2h_intr_def wait_for_h2c_intr_def wait_for_intr_def by (auto intro!: keeps_intros)

lemma keeps_throttle [keeps_intros]: "keeps (throttle K polls d c n)"
  unfolding throttle_def by (auto intro!: keeps_intros simp: Let_def)

lemma keeps_init_h2c [keeps_intros]: "keeps (init_h2c_dma K d h v n clear network)"
proof (induction n rule: less_induct)
  case (less n)
  then show ?case by (subst init_h2c_dma.simps) (auto intro!: keeps_intros simp: Let_def cmd_pages_def PAGE_DMA_MAX_NPAGES_def)
qed

lemma keeps_init_c2h [keeps_intros]: "keeps (init_c2h_dma K d h v n network)"
proof (induction n rule: less_induct)
  case (less n)
  then show ?case by (subst init_c2h_dma.simps) (auto intro!: keeps_intros simp: Let_def cmd_pages_def PAGE_DMA_MAX_NPAGES_def)
qed

lemma keeps_h2c_loop [keeps_intros]: "keeps (h2c_loop K polls d b p ps as npages i cnt)"
proof (induction "npages - i" arbitrary: i cnt rule: less_induct)
  case less
  have "keeps (h2c_loop K polls d b p ps as npages (i + h2c_run ps as npages i) c)" if "i < npages" for c
    using less [of "i + h2c_run ps as npages i" c] that by (simp add: diff_less_mono2)
  then show ?case by (subst h2c_loop.simps) (auto intro!: keeps_intros simp: Let_def)
qed

lemma keeps_c2h_loop [keeps_intros]: "keeps (c2h_loop K polls d contig host dev npages i cnt)"
proof (induction "npages - i" arbitrary: i cnt rule: less_induct)
  case less
  have "keeps (c2h_loop K polls d contig host dev npages (i + c2h_run contig npages i) c)" if "i < npages" for c
    using less [of "i + c2h_run contig npages i" c] that by (simp add: diff_less_mono2)
  then show ?case by (subst c2h_loop.simps) (auto intro!: keeps_intros simp: Let_def)
qed

lemma keeps_receive_loop [keeps_intros]: "keeps (receive_loop K d base npages i)"
proof (induction "npages - i" arbitrary: i rule: less_induct)
  case less
  then show ?case by (subst receive_loop.simps) (auto intro!: keeps_intros simp: Let_def PAGE_DMA_MAX_NPAGES_def)
qed

lemma keeps_send_loop [keeps_intros]: "keeps (send_loop K d sb ps npages i)"
proof (induction "npages - i" arbitrary: i rule: less_induct)
  case less
  have "keeps (send_loop K d sb ps npages (i + c2h_run c npages i))" if "i < npages" for c
    using less [of "i + c2h_run c npages i"] that by (simp add: diff_less_mono2)
  then show ?case by (subst send_loop.simps) (auto intro!: keeps_intros simp: Let_def)
qed

lemma keeps_buffered_loop [keeps_intros]: "keeps (buffered_loop K polls src dst buf sb db ps qs npages i)"
proof (induction "npages - i" arbitrary: i rule: less_induct)
  case less
  then show ?case by (subst buffered_loop.simps) (auto intro!: keeps_intros simp: Let_def DEV_TO_DEV_DMA_MAX_NPAGES_def)
qed

lemma keeps_tlb [keeps_intros]: "keeps (add_tlb_entry K d v p)" "keeps (add_al_tlb_entry K d v p n)" "keeps (invalidate_tlb_range K d v n)"
  unfolding add_tlb_entry_def add_al_tlb_entry_def invalidate_tlb_range_def by (intro keeps_intros; simp)+

lemma keeps_tlb_entries [keeps_intros]: "keeps (tlb_entries K d b v p js)"
  by (induction js) (auto intro!: keeps_intros)

lemma keeps_tlb_fill [keeps_intros]: "keeps (tlb_fill_loop K d b v p npages i)"
proof (induction "npages - i" arbitrary: i rule: less_induct)
  case less
  then show ?case by (subst tlb_fill_loop.simps) (auto intro!: keeps_intros simp: Let_def MMU_MAX_MAPPING_LENGTH_def)
qed

lemma keeps_add_tlb_entries [keeps_intros]: "keeps (add_tlb_entries K d b v p npages)"
  unfolding add_tlb_entries_def by (intro keeps_intros)

lemma keeps_get_dst_pages [keeps_intros]: "keeps (get_dst_pages K d qs)"
  by (induction qs) (auto intro!: keeps_intros)

lemma keeps_put_dst_pages [keeps_intros]: "keeps (put_dst_pages K qs)"
  by (induction qs) (auto intro!: keeps_intros)

lemma keeps_all_migrated [keeps_intros]: "keeps (all_migrated K is)"
  by (induction "is") (auto intro!: keeps_intros)

lemma keeps_vmem [keeps_intros]: "keeps (do_insert_vmem K d v n)" "keeps (do_remove_vmem K d v n)"
  unfolding do_insert_vmem_def do_remove_vmem_def by (intro keeps_intros; simp)+

lemma keeps_alloc_dev [keeps_intros]: "keeps (alloc_dev d n)"
  unfolding alloc_dev_def by (intro keeps_intros)

lemma keeps_wait_idle [keeps_intros]: "keeps (wait_idle K n d)"
  by (induction n) (auto intro!: keeps_intros)

lemma keeps_get_both_pages [keeps_intros]: "keeps (get_both_pages K d qs i)"
  by (induction qs arbitrary: i) (auto intro!: keeps_intros)

lemma keeps_clear_zone [keeps_intros]: "keeps (clear_zone_device_data K ps)"
  by (induction ps) (auto intro!: keeps_intros)

lemma keeps_free_pages [keeps_intros]: "keeps (free_pages K qs)"
  by (induction qs) (auto intro!: keeps_intros)

lemma keeps_dma [keeps_intros]: "keeps (ram_to_dev_dma K polls d b p ps as n)" "keeps (dev_to_ram_dma K polls d b ps as n)"
  unfolding ram_to_dev_dma_def dev_to_ram_dma_def by (intro keeps_intros)+

section \<open>Steps that take and give back\<close>

definition arrs :: "int list \<Rightarrow> svm_resource multiset" where
  "arrs ps = mset (map Arr (filter (\<lambda>p. p \<noteq> 0) ps))"

definition mapped :: "u64 list \<Rightarrow> svm_resource multiset" where
  "mapped as = mset (map Mapping (filter (\<lambda>a. a \<noteq> 0) as))"

lemma arrs_simps [simp]: "arrs [] = {#}" "arrs (p # ps) = (if p = 0 then arrs ps else add_mset (Arr p) (arrs ps))"
  "arrs (rev ps) = arrs ps"
  by (simp_all add: arrs_def rev_map flip: rev_filter)

lemma mapped_simps [simp]: "mapped [] = {#}" "mapped (a # as) = (if a = 0 then mapped as else add_mset (Mapping a) (mapped as))"
  "mapped (replicate n 0) = {#}"
  by (simp_all add: mapped_def filter_replicate)

lemma mapped_update: "i < length as \<Longrightarrow> as ! i = 0 \<Longrightarrow> a \<noteq> 0 \<Longrightarrow> mapped (as[i := a]) = add_mset (Mapping a) (mapped as)"
  by (induction as arbitrary: i) (auto split: nat.splits)

lemma triple_keep:
  "keeps m \<Longrightarrow> (\<And>x. triple (own rs) (f x) Q) \<Longrightarrow> triple (own rs) (State_Monad.bind m f) Q"
  by (rule triple_bind [OF keepsD])

lemma triple_bind3:
  assumes "triple P m (\<lambda>(a, b, c) s. R a b c s)" "\<And>a b c. triple (R a b c) (f a b c) Q"
  shows "triple P (State_Monad.bind m (\<lambda>(a, b, c). f a b c)) Q"
proof (rule triple_bind [OF assms(1)])
  show "triple ((\<lambda>(a, b, c) s. R a b c s) x) (case x of (a, b, c) \<Rightarrow> f a b c) Q" for x using assms(2) by (cases x) simp
qed

lemma own_acquire:
  assumes "svm_rel c = None"
    and "\<And>r tr. r = K tr c \<Longrightarrow> triple (own (case svm_acq c r of Some x \<Rightarrow> add_mset x rs | None \<Rightarrow> rs)) (f r) Q"
  shows "triple (own rs) (State_Monad.bind (kcall K c) f) Q"
proof (rule tripleI)
  fix s s' :: svm_st and r
  let ?r = "K (trace s) c" and ?s = "s\<lparr>trace := trace s @ [(c, K (trace s) c)]\<rparr>"
  assume "own rs s" and run: "run_state (State_Monad.bind (kcall K c) f) s = (r, s')"
  then have "own (case svm_acq c ?r of Some x \<Rightarrow> add_mset x rs | None \<Rightarrow> rs) ?s"
    using assms(1) by (simp add: own_def live_snoc split: option.split)
  moreover have "run_state (f ?r) ?s = (r, s')" using run by simp
  ultimately show "Q r s'" using tripleD [OF assms(2) [OF refl]] by blast
qed

lemma own_release:
  assumes "svm_rel c = Some x" "triple (own rs) (f ()) Q"
  shows "triple (own (add_mset x rs)) (State_Monad.bind (kdo K c) f) Q"
proof (rule triple_bind)
  show "triple (own (add_mset x rs)) (kdo K c) (\<lambda>_. own rs)"
    using svm.owns_release(1) [OF assms(1), of rs "\<lambda>_. True" K] by (simp add: own_owns)
qed (use assms(2) in simp)

lemma triple_setup:
  assumes "\<And>r. r < 0 \<Longrightarrow> triple (own rs) (f r) Q" "\<And>r. \<not> r < 0 \<Longrightarrow> triple (own (add_mset Migration rs)) (f r) Q"
  shows "triple (own rs) (State_Monad.bind (kcall K (Migrate_vma_setup d b x y)) f) Q"
  using assms by (intro own_acquire) (auto simp: svm_acq_def svm_rel_def)

lemma triple_finalize:
  "triple (own rs) (f ()) Q \<Longrightarrow> triple (own (add_mset Migration rs)) (State_Monad.bind (kdo K Migrate_vma_finalize) f) Q"
  by (rule own_release) (simp_all add: svm_rel_def)

lemma triple_kcalloc:
  assumes "\<And>p. triple (own (rs + arrs [p])) (f p) Q"
  shows "triple (own rs) (State_Monad.bind (kcall K (Kcalloc n)) f) Q"
proof (rule own_acquire)
  fix r tr
  show "triple (own (case svm_acq (Kcalloc n) r of None \<Rightarrow> rs | Some x \<Rightarrow> add_mset x rs)) (f r) Q"
    using assms [of r] by (cases "r = 0") (simp_all add: svm_acq_def)
qed (simp add: svm_rel_def)

lemma kfrees_own: "triple (own (rs + arrs ps)) (kfrees K ps) (\<lambda>_. own rs)"
proof (induction ps)
  case Nil
  then show ?case by (simp add: triple_return)
next
  case (Cons p ps)
  show ?case
  proof (cases "p = 0")
    case True
    then show ?thesis using triple_keep [OF svm_keeps_return] Cons by simp
  next
    case False
    then show ?thesis using own_release [of "Kfree p" "Arr p"] Cons by (simp add: svm_rel_def)
  qed
qed

lemma triple_kfrees: "triple (own rs) (f ()) Q \<Longrightarrow> triple (own (rs + arrs ps)) (State_Monad.bind (kfrees K ps) f) Q"
  by (rule triple_bind [OF kfrees_own]) simp

lemma kfrees_return: "triple (own (rs + arrs ps)) (do { kfrees K ps; State_Monad.return res }) (\<lambda>_. own rs)"
  by (intro triple_kfrees triple_return)

lemma unmap_own: "DMA_MAPPING_ERROR \<notin> set as \<Longrightarrow> triple (own (rs + mapped as)) (unmap_pages K d dir as) (\<lambda>_. own rs)"
proof (induction as)
  case Nil
  then show ?case by (simp add: triple_return)
next
  case (Cons a as)
  show ?case
  proof (cases "a = 0")
    case True
    then show ?thesis using triple_keep [OF svm_keeps_return] Cons by simp
  next
    case False
    moreover have "a \<noteq> DMA_MAPPING_ERROR" using Cons.prems by auto
    ultimately show ?thesis using own_release [of "Dma_unmap_page d a dir" "Mapping a"] Cons by (simp add: svm_rel_def)
  qed
qed

text \<open>Environments in which a mapping is never at address 0, pages that have been collected are
  migrated, and memory for a work item is available.\<close>

definition mappings_nonzero :: "svm_call kenv \<Rightarrow> bool" where
  "mappings_nonzero K \<longleftrightarrow> (\<forall>tr d p dir. word_of_int (K tr (Dma_map_page d p dir)) \<noteq> (0 :: u64))"

definition migrates :: "svm_call kenv \<Rightarrow> bool" where
  "migrates K \<longleftrightarrow> (\<forall>tr i. K tr (Src_migrate i) \<noteq> 0)"

definition envs :: "svm_call kenv \<Rightarrow> bool" where
  "envs K \<longleftrightarrow> (\<forall>tr. K tr Kmalloc_env \<noteq> 0)"

lemma map_src_pages_own:
  assumes K: "mappings_nonzero K"
  shows "distinct is \<Longrightarrow> (\<And>i. i \<in> set is \<Longrightarrow> i < length as \<and> as ! i = 0) \<Longrightarrow> DMA_MAPPING_ERROR \<notin> set as \<Longrightarrow>
    triple (own (rs + mapped as)) (map_src_pages K d qs is ps as)
      (\<lambda>(res, ps', as') s. DMA_MAPPING_ERROR \<notin> set as' \<and> own (rs + mapped as') s)"
proof (induction "is" arbitrary: ps as)
  case Nil
  then show ?case by (simp add: triple_return)
next
  case (Cons i "is")
  let ?Q = "\<lambda>(res, ps', as') s. DMA_MAPPING_ERROR \<notin> set as' \<and> own (rs + mapped as') s"
  have i: "i < length as" "as ! i = 0" "i \<notin> set is" using Cons.prems by auto
  have rest: "triple (own (rs + mapped as')) (map_src_pages K d qs is ps' as') ?Q"
    if "as' = as \<or> (\<exists>a. as' = as[i := a] \<and> a \<noteq> DMA_MAPPING_ERROR)" for ps' as'
  proof (rule Cons.IH)
    show "DMA_MAPPING_ERROR \<notin> set as'"
      using that Cons.prems(3) set_update_subset_insert [of as i] by auto
    show "j < length as' \<and> as' ! j = 0" if "j \<in> set is" for j
    proof -
      have "j \<noteq> i" "j < length as \<and> as ! j = 0" using that i(3) Cons.prems(2) by auto
      then show ?thesis using \<open>as' = as \<or> (\<exists>a. as' = as[i := a] \<and> a \<noteq> DMA_MAPPING_ERROR)\<close> by auto
    qed
  qed (use Cons.prems in auto)
  have map: "triple (own (rs + mapped as)) (do {
       a \<leftarrow> kcall K (Dma_map_page d p DMA_TO_DEVICE);
       let as' = as[i := word_of_int a];
       if word_of_int a = DMA_MAPPING_ERROR then do {
         kdo K (Unlock_page (qs ! i));
         kdo K (Put_page (qs ! i));
         kdo K (Dma_unmap_page d (word_of_int a) DMA_TO_DEVICE);
         State_Monad.return (- EACCES, ps', as'[i := 0]) }
       else map_src_pages K d qs is ps' as' }) ?Q" for p ps'
  proof (rule own_acquire)
    fix r tr assume r: "r = K tr (Dma_map_page d p DMA_TO_DEVICE)"
    have nz: "word_of_int r \<noteq> (0 :: u64)" using K unfolding r mappings_nonzero_def by blast
    have same: "as[i := 0] = as" using i(2) by (metis list_update_id)
    show "triple (own (case svm_acq (Dma_map_page d p DMA_TO_DEVICE) r of None \<Rightarrow> rs + mapped as | Some x \<Rightarrow> add_mset x (rs + mapped as)))
      (let as' = as[i := word_of_int r] in if word_of_int r = DMA_MAPPING_ERROR then do {
         kdo K (Unlock_page (qs ! i));
         kdo K (Put_page (qs ! i));
         kdo K (Dma_unmap_page d (word_of_int r) DMA_TO_DEVICE);
         State_Monad.return (- EACCES, ps', as'[i := 0]) }
       else map_src_pages K d qs is ps' as') ?Q"
    proof (cases "word_of_int r = DMA_MAPPING_ERROR")
      case True
      then show ?thesis using Cons.prems(3)
        by (auto intro!: triple_keep keeps_call triple_return simp: svm_acq_def Let_def same neutral_def svm_rel_def)
    next
      case False
      then show ?thesis using rest [of "as[i := word_of_int r]" ps'] mapped_update [OF i(1,2) nz] by (auto simp: svm_acq_def Let_def)
    qed
  qed (simp add: svm_rel_def)
  show ?case unfolding map_src_pages.simps Let_def
    by (intro triple_keep keeps_call neutral_calls triple_if map [unfolded Let_def] rest) simp_all
qed

lemma queue_own:
  assumes "envs K"
  shows "triple (own (add_mset (Arr a) rs)) (queue_dev_pages_free_work K d a ps) (\<lambda>_. own rs)"
  unfolding queue_dev_pages_free_work_def
proof (rule own_acquire)
  fix r tr assume "r = K tr Kmalloc_env"
  then have "r \<noteq> 0" using assms by (simp add: envs_def)
  then show "triple (own (case svm_acq Kmalloc_env r of None \<Rightarrow> add_mset (Arr a) rs | Some x \<Rightarrow> add_mset x (add_mset (Arr a) rs)))
     (if r = 0 then State_Monad.return False else do { kdo K (Queue_pages_free d a ps); State_Monad.return True }) (\<lambda>_. own rs)"
    by (auto intro!: own_release triple_return simp: svm_acq_def svm_rel_def)
qed (simp add: svm_rel_def)

lemma keeps_buffered [keeps_intros]: "keeps (copy_dev_to_dev_buffered K polls src dst ps qs npages)"
  unfolding keeps_def
proof
  fix rs
  let ?n = "min npages DEV_TO_DEV_DMA_MAX_NPAGES"
  have free: "triple (own (add_mset (Arr b) rs)) (do { kdo K (Kfree b); State_Monad.return res }) (\<lambda>_. own rs)" for b and res :: int
    by (intro own_release triple_return) (simp add: svm_rel_def)
  have bad: "triple (own (add_mset (Arr b) rs))
      (do { kdo K (Dma_unmap_single dst (- 1) ?n); kdo K (Kfree b); State_Monad.return (- EACCES) }) (\<lambda>_. own rs)" for b
    by (intro triple_keep keeps_call free) (simp add: neutral_def svm_acq_def svm_rel_def)
  have good: "triple (own (add_mset (Buffer_mapping a) (add_mset (Arr b) rs)))
      (do { res \<leftarrow> buffered_loop K polls src dst (word_of_int a) sb db ps qs npages 0;
         kdo K (Dma_unmap_single dst a ?n); kdo K (Kfree b); State_Monad.return res }) (\<lambda>_. own rs)" if "a \<noteq> - 1" for a b sb db
    using that by (intro triple_keep keeps_buffered_loop own_release free) (simp add: svm_rel_def)
  have buf: "triple (own (add_mset (Arr b) rs)) (do {
       buf_addr \<leftarrow> kcall K (Dma_map_single dst b ?n);
       if buf_addr = - 1 then do { kdo K (Dma_unmap_single dst buf_addr ?n); kdo K (Kfree b); State_Monad.return (- EACCES) }
       else do {
         res \<leftarrow> buffered_loop K polls src dst (word_of_int buf_addr) sb db ps qs npages 0;
         kdo K (Dma_unmap_single dst buf_addr ?n); kdo K (Kfree b); State_Monad.return res } }) (\<lambda>_. own rs)" for b sb db
  proof (rule own_acquire)
    fix r tr
    show "triple (own (case svm_acq (Dma_map_single dst b ?n) r of None \<Rightarrow> add_mset (Arr b) rs | Some x \<Rightarrow> add_mset x (add_mset (Arr b) rs)))
      (if r = - 1 then do { kdo K (Dma_unmap_single dst r ?n); kdo K (Kfree b); State_Monad.return (- EACCES) }
       else do {
         res \<leftarrow> buffered_loop K polls src dst (word_of_int r) sb db ps qs npages 0;
         kdo K (Dma_unmap_single dst r ?n); kdo K (Kfree b); State_Monad.return res }) (\<lambda>_. own rs)"
      using bad good by (cases "r = - 1") (simp_all add: svm_acq_def)
  qed (simp add: svm_rel_def)
  show "triple (own rs) (copy_dev_to_dev_buffered K polls src dst ps qs npages) (\<lambda>_. own rs)"
    unfolding copy_dev_to_dev_buffered_def Let_def
  proof (intro triple_keep [OF keeps_getd] own_acquire)
    fix sb db r tr
    show "triple (own (case svm_acq (Kmalloc_buf ?n) r of None \<Rightarrow> rs | Some x \<Rightarrow> add_mset x rs))
      (if r = 0 then State_Monad.return (- ENOMEM)
       else do {
         buf_addr \<leftarrow> kcall K (Dma_map_single dst r ?n);
         if buf_addr = - 1 then do { kdo K (Dma_unmap_single dst buf_addr ?n); kdo K (Kfree r); State_Monad.return (- EACCES) }
         else do {
           res \<leftarrow> buffered_loop K polls src dst (word_of_int buf_addr) sb db ps qs npages 0;
           kdo K (Dma_unmap_single dst buf_addr ?n); kdo K (Kfree r); State_Monad.return res } }) (\<lambda>_. own rs)"
      using buf by (cases "r = 0") (simp_all add: svm_acq_def triple_return)
  qed (simp add: svm_rel_def)
qed

lemma keeps_copy_dev_to_dev [keeps_intros]: "keeps (copy_dev_to_dev K polls src dst ps qs npages)"
  unfolding copy_dev_to_dev_def copy_dev_to_dev_network_def copy_dev_to_dev_pcie_e2e_def
  by (intro keeps_intros) simp_all

section \<open>From host memory to a device\<close>

lemma fail_allocmem_own: "triple (own (add_mset Migration (rs + arrs arrays))) (fail_allocmem K arrays qs res) (\<lambda>_. own rs)"
  unfolding fail_allocmem_def by (intro triple_keep keeps_put_dst_pages triple_finalize kfrees_return)

lemma fail_dma_own:
  "DMA_MAPPING_ERROR \<notin> set as \<Longrightarrow> triple (own (add_mset Migration (rs + arrs arrays) + mapped as)) (fail_dma K d arrays qs as res) (\<lambda>_. own rs)"
  unfolding fail_dma_def by (rule triple_bind [OF unmap_own fail_allocmem_own])

lemma all_migrated_true: "migrates K \<Longrightarrow> run_state (all_migrated K is) s = (ok, s') \<Longrightarrow> ok"
  by (induction "is" arbitrary: s) (auto simp: migrates_def)

lemma triple_all_migrated:
  assumes "migrates K" "triple (own rs) (f True) Q"
  shows "triple (own rs) (State_Monad.bind (all_migrated K is) f) Q"
proof (rule triple_bind)
  show "triple (own rs) (all_migrated K is) (\<lambda>ok s. ok \<and> own rs s)"
    using tripleD [OF keepsD [OF keeps_all_migrated]] all_migrated_true [OF assms(1)] by (intro tripleI) blast
  show "triple (\<lambda>s. ok \<and> own rs s) (f ok) Q" for ok using assms(2) by (intro triple_assume) simp
qed

lemma ram_to_dev_attempt_own:
  assumes K: "mappings_nonzero K" "migrates K"
  shows "triple (own (rs + arrs arrays)) (ram_to_dev_attempt K polls d vaddr npages arrays retry_cnt ps (replicate npages 0)) (\<lambda>_. own rs)"
proof (induction "nat (5 - retry_cnt)" arbitrary: retry_cnt ps rule: less_induct)
  case less
  let ?rs = "rs + arrs arrays"
  have zeros: "distinct [0..<npages]" "DMA_MAPPING_ERROR \<notin> set (replicate npages 0)"
    "\<And>i. i \<in> set [0..<npages] \<Longrightarrow> i < length (replicate npages (0 :: u64)) \<and> replicate npages (0 :: u64) ! i = 0"
    by (auto simp: DMA_MAPPING_ERROR_def)
  have map: "triple (own (add_mset Migration ?rs)) (map_src_pages K d qs [0..<npages] ps (replicate npages 0))
      (\<lambda>(res, ps', as') s. DMA_MAPPING_ERROR \<notin> set as' \<and> own (add_mset Migration ?rs + mapped as') s)" for qs
    using map_src_pages_own [OF K(1) zeros(1,3,2), of "add_mset Migration ?rs" d qs ps] by simp
  have finish: "triple (own (add_mset Migration ?rs)) (do {
      kdo K Migrate_vma_pages;
      ok \<leftarrow> all_migrated K [0..<npages];
      if \<not> ok then m else do {
        add_tlb_entries K d bpfn vaddr pfn npages;
        kdo K Migrate_vma_finalize;
        do_insert_vmem K d vaddr npages;
        kfrees K arrays;
        State_Monad.return 0 } }) (\<lambda>_. own rs)" for m bpfn pfn
    by (rule triple_keep [OF keeps_call(2)], simp, rule triple_all_migrated [OF K(2)], simp only: not_True_eq_False if_False)
      (rule triple_keep [OF keeps_add_tlb_entries] triple_finalize triple_keep [OF keeps_vmem(1)] kfrees_return)+
  show ?case
    apply (subst ram_to_dev_attempt.simps)
    apply (rule triple_setup)
     apply (simp only: if_True kfrees_return)
    apply (simp only: if_False)
    apply (rule triple_keep [OF keeps_call(1) [OF neutral_calls(7)]])
    apply (rule triple_if)
     apply (rule triple_finalize, rule triple_if, rule kfrees_return, rule less, linarith)
    apply (rule triple_keep [OF keeps_alloc_dev], rule triple_if, rule fail_allocmem_own)
    apply (rule triple_keep [OF keeps_getd])
    apply (simp only: Let_def)
    apply (rule triple_keep [OF keeps_get_dst_pages], rule triple_bind3 [OF map])
    apply (rule triple_assume, rule triple_if)
     apply (rule fail_dma_own, assumption)
    apply (rule triple_keep [OF keeps_dma(1)], rule triple_if)
     apply (rule fail_dma_own, assumption)
    apply (rule triple_bind [OF unmap_own finish], assumption)
    done
qed

lemma kcallocs_own:
  "(\<And>ps. length ps = n \<Longrightarrow> triple (own (rs + arrs ps)) (f ps) Q) \<Longrightarrow> triple (own rs) (State_Monad.bind (kcallocs K npages n) f) Q"
proof (induction n arbitrary: rs f)
  case 0
  then show ?case using triple_keep [OF svm_keeps_return, of rs f Q "[]"] by simp
next
  case (Suc n)
  have "triple (own (rs + arrs [p])) (do { ps \<leftarrow> kcallocs K npages n; f (p # ps) }) Q" for p
  proof (rule Suc.IH)
    fix ps :: "int list" assume "length ps = n"
    then have "triple (own (rs + arrs (p # ps))) (f (p # ps)) Q" by (intro Suc.prems) simp
    then show "triple (own (rs + arrs [p] + arrs ps)) (f (p # ps)) Q" by (cases "p = 0") simp_all
  qed
  then show ?case by (simp add: triple_kcalloc)
qed

lemma ram_to_dev_own:
  assumes "mappings_nonzero K" "migrates K"
  shows "triple (own rs) (svm_migrate_ram_to_dev K polls retry_cnt d vaddr npages) (\<lambda>_. own rs)"
  unfolding svm_migrate_ram_to_dev_def
proof (rule kcallocs_own)
  fix ps :: "int list"
  have r: "own (rs + arrs ps) = own (rs + arrs (rev ps))" by simp
  show "triple (own (rs + arrs ps)) (if \<exists>p \<in> set ps. p = 0 then do { kfrees K (rev ps); State_Monad.return (- ENOMEM) }
     else do {
       vma \<leftarrow> kcall K (Find_vma_intersection vaddr (vaddr + word_of_nat npages * PAGE_SIZE));
       if vma = 0 then do { kfrees K (rev ps); State_Monad.return (- EFAULT) }
       else ram_to_dev_attempt K polls d vaddr npages (rev ps) retry_cnt (replicate npages 0) (replicate npages 0) }) (\<lambda>_. own rs)"
    unfolding r
    by (intro triple_if kfrees_return triple_keep keeps_call neutral_calls ram_to_dev_attempt_own [OF assms])
qed

section \<open>From device to device\<close>

lemma dev_to_dev_attempt_own:
  assumes K: "envs K" and nz: "psrc \<noteq> 0"
  shows "triple (own (rs + arrs [pdst, psrc, mdst, msrc]))
    (dev_to_dev_attempt K polls src dst vaddr npages msrc mdst psrc pdst retry_cnt) (\<lambda>_. own rs)"
proof (induction "nat (5 - retry_cnt)" arbitrary: retry_cnt rule: less_induct)
  case less
  let ?rs = "rs + arrs [pdst, psrc, mdst, msrc]"
  have e: "add_mset Migration ?rs = add_mset (Arr psrc) (add_mset Migration (rs + arrs [pdst, mdst, msrc]))"
    using nz by (simp add: multiset_eq_iff)
  have q: "triple (own (add_mset Migration ?rs)) (queue_dev_pages_free_work K src psrc ps) (\<lambda>_. own (add_mset Migration (rs + arrs [pdst, mdst, msrc])))" for ps
    unfolding e by (rule queue_own [OF K])
  show ?case
    apply (subst dev_to_dev_attempt.simps)
    apply (rule triple_setup)
     apply (simp only: if_True kfrees_return)
    apply (simp only: if_False)
    apply (rule triple_keep [OF keeps_call(1) [OF neutral_calls(7)]])
    apply (rule triple_if)
     apply (rule triple_finalize, rule triple_if, rule kfrees_return, rule less, linarith)
    apply (rule triple_keep [OF keeps_alloc_dev], rule triple_if, rule fail_allocmem_own)
    apply (rule triple_keep [OF keeps_getd])
    apply (simp only: Let_def)
    apply (rule triple_keep [OF keeps_get_both_pages], rule triple_keep [OF keeps_copy_dev_to_dev])
    apply (rule triple_if, rule fail_allocmem_own)
    apply (rule triple_keep [OF keeps_call(2) [OF neutral_calls(6)]], rule triple_keep [OF keeps_all_migrated])
    apply (rule triple_if)
     apply (rule triple_keep [OF keeps_put_dst_pages], rule triple_finalize, rule kfrees_return)
    apply (rule triple_keep [OF keeps_add_tlb_entries], rule triple_keep [OF keeps_clear_zone], rule triple_bind [OF q])
    apply (rule triple_finalize, rule triple_keep [OF keeps_vmem(2)], rule triple_keep [OF keeps_vmem(1)], rule kfrees_return)
    done
qed

lemma dev_to_dev_own:
  assumes "envs K"
  shows "triple (own rs) (svm_migrate_dev_to_dev K polls retry_cnt src dst vaddr npages) (\<lambda>_. own rs)"
proof -
  have e: "own (rs + arrs [a] + arrs [b] + arrs [c] + arrs [d]) = own (rs + arrs [d, c, b, a])" for a b c d
    by (rule arg_cong [of _ _ own]) (simp add: multiset_eq_iff)
  show ?thesis unfolding svm_migrate_dev_to_dev_def
    apply (rule triple_kcalloc, rule triple_kcalloc, rule triple_kcalloc, rule triple_kcalloc)
    apply (simp only: e)
    apply (rule triple_if, rule kfrees_return)
    apply (rule triple_keep [OF keeps_call(1) [OF neutral_calls(20)]])
    apply (rule triple_if, rule kfrees_return)
    apply (rule triple_keep [OF keeps_call(2) [OF neutral_calls(1)]], rule triple_keep [OF keeps_tlb(3)])
    apply (rule triple_keep [OF keeps_wait_idle], rule triple_keep [OF keeps_call(2) [OF neutral_calls(1)]])
    apply (rule dev_to_dev_attempt_own [OF assms], blast)
    done
qed

section \<open>Back to host memory\<close>

text \<open>Every mapped address belongs to a page that is not given back yet.\<close>

definition host_ok :: "u64 list \<Rightarrow> u64 list \<Rightarrow> bool" where
  "host_ok qs as \<longleftrightarrow> list_all2 (\<lambda>q a. a \<noteq> 0 \<longrightarrow> q \<noteq> 0) qs as \<and> DMA_MAPPING_ERROR \<notin> set as"

lemma free_host_pages_own:
  "host_ok qs as \<Longrightarrow> triple (own (rs + mapped as)) (free_host_pages K d qs as) (\<lambda>_. own rs)"
proof (induction K d qs as rule: free_host_pages.induct)
  case (1 K d q qs a as)
  then have ih: "triple (own (rs + mapped as)) (free_host_pages K d qs as) (\<lambda>_. own rs)" by (simp add: host_ok_def)
  have "triple (own (rs + mapped (a # as))) (if q \<noteq> 0 then do {
        (if a \<noteq> 0 then kdo K (Dma_unmap_page d a DMA_FROM_DEVICE) else State_Monad.return ());
        kdo K (Unlock_page q);
        kdo K (Free_page q) }
      else State_Monad.return ()) (\<lambda>_. own (rs + mapped as))"
  proof (cases "a = 0")
    case True
    then show ?thesis using keepsD [of "if q \<noteq> 0 then do { kdo K (Unlock_page q); kdo K (Free_page q) } else State_Monad.return ()" "rs + mapped as"]
      by (auto intro!: keepsD triple_keep keeps_intros)
  next
    case False
    then have "q \<noteq> 0" "a \<noteq> DMA_MAPPING_ERROR" using 1(2) by (auto simp: host_ok_def)
    then show ?thesis using False
      by (auto intro!: own_release [of "Dma_unmap_page d a DMA_FROM_DEVICE" "Mapping a"] keepsD keeps_intros simp: svm_rel_def)
  qed
  then show ?case unfolding free_host_pages.simps by (rule triple_bind) (rule ih)
qed (auto simp: host_ok_def intro: triple_return)

lemma alloc_host_pages_own:
  assumes K: "mappings_nonzero K"
  shows "distinct is \<Longrightarrow> (\<And>i. i \<in> set is \<Longrightarrow> i < length as \<and> as ! i = 0) \<Longrightarrow> host_ok qs as \<Longrightarrow>
    triple (own (rs + mapped as)) (alloc_host_pages K d vaddr is ps qs as)
      (\<lambda>(res, ps', qs', as') s. host_ok qs' as' \<and> own (rs + mapped as') s)"
proof (induction "is" arbitrary: ps qs as)
  case Nil
  then show ?case by (simp add: triple_return)
next
  case (Cons i "is")
  let ?Q = "\<lambda>(res, ps', qs', as') s. host_ok qs' as' \<and> own (rs + mapped as') s"
  have i: "i < length as" "as ! i = 0" "i \<notin> set is" using Cons.prems by auto
  have len: "length qs = length as" using Cons.prems(3) by (auto simp: host_ok_def dest: list_all2_lengthD)
  have same: "as[i := 0] = as" using i(2) by (metis list_update_id)
  have upd: "host_ok (qs[i := q]) as" for q
    using Cons.prems(3) i(2) by (auto simp: host_ok_def list_all2_conv_all_nth) (metis nth_list_update_neq)
  have upd2: "host_ok (qs[i := q]) (as[i := a])" if "q \<noteq> 0" "a \<noteq> DMA_MAPPING_ERROR" for q a
    using Cons.prems(3) that len set_update_subset_insert [of as i a]
    by (auto simp: host_ok_def list_all2_conv_all_nth) (metis nth_list_update_eq nth_list_update_neq)
  have rest: "triple (own (rs + mapped (as[i := a]))) (alloc_host_pages K d vaddr is ps' (qs[i := q]) (as[i := a])) ?Q"
    if "q \<noteq> 0" "a \<noteq> DMA_MAPPING_ERROR" for ps' q a
  proof (rule Cons.IH)
    show "j < length (as[i := a]) \<and> as[i := a] ! j = 0" if "j \<in> set is" for j
      using that i(3) Cons.prems(2) [of j] by (cases "j = i") auto
  qed (use Cons.prems upd2 that in auto)
  have map: "triple (own (rs + mapped as)) (do {
       a \<leftarrow> kcall K (Dma_map_page d q DMA_FROM_DEVICE);
       if word_of_int a = DMA_MAPPING_ERROR then do {
         kdo K (Unlock_page q);
         kdo K (Free_page q);
         kdo K (Dma_unmap_page d (word_of_int a) DMA_TO_DEVICE);
         State_Monad.return (- EACCES, ps', qs[i := q, i := 0], as[i := 0]) }
       else alloc_host_pages K d vaddr is ps' (qs[i := q]) (as[i := word_of_int a]) }) ?Q" if q: "q \<noteq> 0" for q ps'
  proof (rule own_acquire)
    fix r tr assume r: "r = K tr (Dma_map_page d q DMA_FROM_DEVICE)"
    have nz: "word_of_int r \<noteq> (0 :: u64)" using K unfolding r mappings_nonzero_def by blast
    show "triple (own (case svm_acq (Dma_map_page d q DMA_FROM_DEVICE) r of None \<Rightarrow> rs + mapped as | Some x \<Rightarrow> add_mset x (rs + mapped as)))
      (if word_of_int r = DMA_MAPPING_ERROR then do {
         kdo K (Unlock_page q);
         kdo K (Free_page q);
         kdo K (Dma_unmap_page d (word_of_int r) DMA_TO_DEVICE);
         State_Monad.return (- EACCES, ps', qs[i := q, i := 0], as[i := 0]) }
       else alloc_host_pages K d vaddr is ps' (qs[i := q]) (as[i := word_of_int r])) ?Q"
    proof (cases "word_of_int r = DMA_MAPPING_ERROR")
      case True
      then show ?thesis using upd
        by (auto intro!: triple_keep keeps_call triple_return simp: svm_acq_def same neutral_def svm_rel_def)
    next
      case False
      then show ?thesis using rest [OF q False, of ps'] mapped_update [OF i(1,2) nz] by (auto simp: svm_acq_def)
    qed
  qed (simp add: svm_rel_def)
  show ?case unfolding alloc_host_pages.simps Let_def
    apply (rule triple_keep [OF keeps_call(1) [OF neutral_calls(8)]], rule triple_keep [OF keeps_call(1) [OF neutral_calls(13)]])
    apply (rule triple_if, rule triple_return)
     apply (simp add: upd)
    apply (rule triple_keep [OF keeps_call(2) [OF neutral_calls(14)]], rule map, assumption)
    done
qed

lemma triple_bind4:
  assumes "triple P m (\<lambda>(a, b, c, d) s. R a b c d s)" "\<And>a b c d. triple (R a b c d) (f a b c d) Q"
  shows "triple P (State_Monad.bind m (\<lambda>(a, b, c, d). f a b c d)) Q"
proof (rule triple_bind [OF assms(1)])
  show "triple ((\<lambda>(a, b, c, d) s. R a b c d s) x) (case x of (a, b, c, d) \<Rightarrow> f a b c d) Q" for x using assms(2) by (cases x) simp
qed

lemma dev_to_ram_fail_own: "triple (own (rs + arrs arrays)) (dev_to_ram_fail K d arrays res) (\<lambda>_. own rs)"
  unfolding dev_to_ram_fail_def by (intro triple_keep [OF keeps_call(2) [OF neutral_calls(1)]] kfrees_return)

lemma dev_to_ram_attempt_own:
  assumes K: "mappings_nonzero K" "envs K" and nz: "psrc \<noteq> 0"
  shows "triple (own (rs + arrs [msrc, mdst, psrc, pdst, pdma]))
    (dev_to_ram_attempt K polls d vaddr npages msrc mdst psrc pdst pdma retry_cnt) (\<lambda>_. own rs)"
proof (induction "nat (5 - retry_cnt)" arbitrary: retry_cnt rule: less_induct)
  case less
  let ?arrs = "[msrc, mdst, psrc, pdst, pdma]"
  let ?rs = "rs + arrs ?arrs"
  have e: "add_mset Migration ?rs = add_mset (Arr psrc) (add_mset Migration (rs + arrs [pdma, pdst, mdst, msrc]))"
    using nz by (simp add: multiset_eq_iff)
  have q: "triple (own (add_mset Migration ?rs)) (queue_dev_pages_free_work K d psrc ps) (\<lambda>_. own (add_mset Migration (rs + arrs [pdma, pdst, mdst, msrc])))" for ps
    unfolding e by (rule queue_own [OF K(2)])
  have zeros: "distinct [0..<npages]" "host_ok (replicate npages 0) (replicate npages 0)"
    "\<And>i. i \<in> set [0..<npages] \<Longrightarrow> i < length (replicate npages (0 :: u64)) \<and> replicate npages (0 :: u64) ! i = 0"
    by (auto simp: host_ok_def DMA_MAPPING_ERROR_def list_all2_conv_all_nth)
  have map: "triple (own (add_mset Migration ?rs)) (alloc_host_pages K d vaddr [0..<npages] ps (replicate npages 0) (replicate npages 0))
      (\<lambda>(res, ps', qs', as') s. host_ok qs' as' \<and> own (add_mset Migration ?rs + mapped as') s)" for ps
    using alloc_host_pages_own [OF K(1) zeros(1,3,2), of "add_mset Migration ?rs" d vaddr ps] by (simp only: mapped_simps(3) add_0_right)
  have ok: "DMA_MAPPING_ERROR \<notin> set as" if "host_ok qs as" for qs as using that by (simp add: host_ok_def)
  show ?case
    apply (subst dev_to_ram_attempt.simps)
    apply (rule triple_setup)
     apply (simp only: if_True dev_to_ram_fail_own)
    apply (simp only: if_False)
    apply (rule triple_keep [OF keeps_call(1) [OF neutral_calls(7)]])
    apply (rule triple_if)
     apply (rule triple_finalize, rule triple_if, rule dev_to_ram_fail_own, rule less, linarith)
    apply (rule triple_keep [OF keeps_getd])
    apply (rule triple_bind4 [OF map], rule triple_assume)
    apply (rule triple_keep [OF keeps_if [OF svm_keeps_return keeps_dma(2)]], rule triple_if)
     apply (rule triple_bind [OF free_host_pages_own], assumption)
     apply (rule triple_finalize, rule dev_to_ram_fail_own)
    apply (rule triple_bind [OF unmap_own], erule ok)
    apply (rule triple_keep [OF keeps_call(2) [OF neutral_calls(6)]], rule triple_keep [OF keeps_all_migrated])
    apply (rule triple_if)
     apply (rule triple_keep [OF keeps_free_pages], rule triple_finalize, rule dev_to_ram_fail_own)
    apply (rule triple_keep [OF keeps_clear_zone], rule triple_bind [OF q])
    apply (rule triple_finalize, rule triple_keep [OF keeps_vmem(2)], rule triple_keep [OF keeps_call(2) [OF neutral_calls(1)]], rule kfrees_return)
    done
qed

lemma dev_to_ram_own:
  assumes "mappings_nonzero K" "envs K"
  shows "triple (own rs) (svm_migrate_dev_to_ram K polls res0 retry_cnt d vaddr npages) (\<lambda>_. own rs)"
proof -
  have e: "own (rs + arrs [a] + arrs [b] + arrs [c] + arrs [d] + arrs [f]) = own (rs + arrs [a, b, c, d, f])" for a b c d f
    by (rule arg_cong [of _ _ own]) (simp add: multiset_eq_iff)
  show ?thesis unfolding svm_migrate_dev_to_ram_def
    apply (rule triple_kcalloc, rule triple_kcalloc, rule triple_kcalloc, rule triple_kcalloc, rule triple_kcalloc)
    apply (simp only: e)
    apply (rule triple_if, rule kfrees_return)
    apply (rule triple_keep [OF keeps_call(1) [OF neutral_calls(20)]])
    apply (rule triple_if, rule kfrees_return)
    apply (rule triple_keep [OF keeps_call(2) [OF neutral_calls(1)]], rule triple_keep [OF keeps_tlb(3)])
    apply (rule triple_keep [OF keeps_wait_idle])
    apply (rule dev_to_ram_attempt_own [OF assms], blast)
    done
qed



end
