(* ===== verification/Svm_Effects.thy ===== *)
theory Svm_Effects
  imports Svm_Resources
begin

text \<open>
  What a successful migration does: where the pages are copied, which translations the IOMMU gets,
  and how the records of the devices change.
\<close>

lemma run_bindE:
  assumes "run_state (State_Monad.bind m f) s = (r, s')"
  obtains x t where "run_state m s = (x, t)" "run_state (f x) t = (r, s')"
  using assms by (cases "run_state m s") auto

lemma returns: "(case run_state m s of (x, t) \<Rightarrow> (r, t)) = (r', s') \<longleftrightarrow> r = r' \<and> snd (run_state m s) = s'"
  by (auto split: prod.splits)

lemma triple_run:
  obtains x y z s' where "run_state m s = ((x, y, z), s')"
  by (cases "run_state m s") auto

section \<open>Quiet pieces\<close>

lemma quiet_kfrees [quiet_intros]: "quiet_m (kfrees K ps)"
  by (induction ps) (auto intro!: quiet_intros)

lemma quiet_get_dst_pages [quiet_intros]: "quiet_m (get_dst_pages K d qs)"
  by (induction qs) (auto intro!: quiet_intros)

lemma quiet_put_dst_pages [quiet_intros]: "quiet_m (put_dst_pages K qs)"
  by (induction qs) (auto intro!: quiet_intros)

lemma quiet_unmap_pages [quiet_intros]: "quiet_m (unmap_pages K d dir as)"
  by (induction as) (auto intro!: quiet_intros)

lemma quiet_all_migrated [quiet_intros]: "quiet_m (all_migrated K is)"
  by (induction "is") (auto intro!: quiet_intros)

lemma quiet_map_src_pages [quiet_intros]: "quiet_m (map_src_pages K d qs is ps as)"
  by (induction "is" arbitrary: ps as) (auto intro!: quiet_intros simp: Let_def)

lemma quiet_get_both_pages [quiet_intros]: "quiet_m (get_both_pages K d qs i)"
  by (induction qs arbitrary: i) (auto intro!: quiet_intros)

lemma quiet_clear_zone [quiet_intros]: "quiet_m (clear_zone_device_data K ps)"
  by (induction ps) (auto intro!: quiet_intros)

lemma quiet_queue [quiet_intros]: "quiet_m (queue_dev_pages_free_work K d a ps)"
  unfolding queue_dev_pages_free_work_def by (intro quiet_intros) simp_all

lemma quiet_alloc_host_pages [quiet_intros]: "quiet_m (alloc_host_pages K d v is ps qs as)"
  by (induction "is" arbitrary: ps qs as) (auto intro!: quiet_intros simp: Let_def)

lemma quiet_kcallocs [quiet_intros]: "quiet_m (kcallocs K npages n)"
  by (induction n) (auto intro!: quiet_intros)

text \<open>DMA addresses are 48 bits wide.\<close>

definition dma_48 :: "svm_call kenv \<Rightarrow> bool" where
  "dma_48 K \<longleftrightarrow> (\<forall>tr d p dir. word_of_int (K tr (Dma_map_page d p dir)) = DMA_MAPPING_ERROR
     \<or> word_of_int (K tr (Dma_map_page d p dir)) < (2 ^ 48 :: u64))"

definition all_48 :: "u64 list \<Rightarrow> bool" where
  "all_48 as \<longleftrightarrow> (\<forall>a \<in> set as. a < 2 ^ 48)"

lemma all_48_update: "all_48 as \<Longrightarrow> a < 2 ^ 48 \<Longrightarrow> all_48 (as[i := a])"
  using set_update_subset_insert [of as i a] by (auto simp: all_48_def)

lemma map_src_pages_48:
  assumes "dma_48 K"
  shows "run_state (map_src_pages K d qs is ps as) s = ((res, ps', as'), s') \<Longrightarrow> all_48 as \<Longrightarrow>
    all_48 as' \<and> length as' = length as \<and> length ps' = length ps"
proof (induction "is" arbitrary: ps as s)
  case (Cons i "is")
  have a: "word_of_int (K tr (Dma_map_page d p DMA_TO_DEVICE)) < (2 ^ 48 :: u64)"
    if "word_of_int (K tr (Dma_map_page d p DMA_TO_DEVICE)) \<noteq> DMA_MAPPING_ERROR" for tr p
    using assms that unfolding dma_48_def by blast
  have z: "all_48 (as[i := x, i := 0])" for x using Cons.prems(2) all_48_update [of as 0 i] by simp
  show ?case using Cons.prems Cons.IH [of "ps[i := _]" as] Cons.IH [of "ps[i := _]" "as[i := _]"] a z
    by (auto simp: Let_def all_48_update split: if_splits)
qed auto

section \<open>Effects\<close>

text \<open>\<open>eff s s' hs cs ts f\<close>: from \<open>s\<close> to \<open>s'\<close>, device \<open>d\<close> is told to move \<open>hs d\<close> and \<open>cs d\<close>, gets the translations \<open>ts d\<close>, and
  its data is changed by \<open>f d\<close>, up to the error state.\<close>

definition eff :: "svm_st \<Rightarrow> svm_st \<Rightarrow> (nat \<Rightarrow> page_op list) \<Rightarrow> (nat \<Rightarrow> page_op list) \<Rightarrow> (nat \<Rightarrow> (u64 \<times> u64) list)
    \<Rightarrow> (nat \<Rightarrow> svm_data \<Rightarrow> svm_data) \<Rightarrow> bool" where
  "eff s s' hs cs ts f \<longleftrightarrow> (\<forall>d. h2c d (trace s') = h2c d (trace s) @ hs d \<and> c2h d (trace s') = c2h d (trace s) @ cs d
     \<and> tlb d (trace s') = tlb d (trace s) @ ts d \<and> same_svm (f d (dat s d)) (dat s' d))"

definition at :: "nat \<Rightarrow> (svm_data \<Rightarrow> svm_data) \<Rightarrow> nat \<Rightarrow> svm_data \<Rightarrow> svm_data" where
  "at d f d' x = (if d' = d then f x else x)"

definition stay :: "nat \<Rightarrow> svm_data \<Rightarrow> svm_data" where
  "stay d x = x"

lemma stay_simp [simp]: "stay d x = x"
  by (simp add: stay_def)

definition resp_err :: "(nat \<Rightarrow> svm_data \<Rightarrow> svm_data) \<Rightarrow> bool" where
  "resp_err f \<longleftrightarrow> (\<forall>d x y. same_svm x y \<longrightarrow> same_svm (f d x) (f d y))"

lemma same_svm_update: "same_svm x y \<Longrightarrow> same_svm (x\<lparr>free_mem_blocks := b\<rparr>) (y\<lparr>free_mem_blocks := b\<rparr>)"
  "same_svm x y \<Longrightarrow> same_svm (x\<lparr>vmem_intervals := t\<rparr>) (y\<lparr>vmem_intervals := t\<rparr>)"
  by (cases x; cases y; simp add: same_svm_def)+

lemma resp_err_simps [simp]: "resp_err stay" "resp_err (at d (\<lambda>x. x\<lparr>free_mem_blocks := b\<rparr>))" "resp_err (at d (\<lambda>x. x\<lparr>vmem_intervals := t\<rparr>))"
  by (auto simp: resp_err_def at_def same_svm_update)

lemma eff_trans:
  assumes "eff s t hs cs ts f" "eff t u hs' cs' ts' g" "resp_err g"
  shows "eff s u (\<lambda>d. hs d @ hs' d) (\<lambda>d. cs d @ cs' d) (\<lambda>d. ts d @ ts' d) (\<lambda>d x. g d (f d x))"
proof -
  have "same_svm (g d (f d (dat s d))) (dat u d)" for d
  proof (rule same_svm_trans)
    show "same_svm (g d (f d (dat s d))) (g d (dat t d))" using assms(1,3) by (simp add: eff_def resp_err_def)
    show "same_svm (g d (dat t d)) (dat u d)" using assms(2) by (simp add: eff_def)
  qed
  then show ?thesis using assms(1,2) by (simp add: eff_def)
qed

lemma eff_quiet: "quiet s s' \<longleftrightarrow> eff s s' none none none stay"
  by (auto simp: quiet_def eff_def)

lemma eff_moves: "moves s s' hs cs \<longleftrightarrow> eff s s' hs cs none stay"
  by (auto simp: moves_def eff_def)

lemma eff_cong: "eff s s' hs cs ts f \<Longrightarrow> (\<And>d. hs d = hs' d) \<Longrightarrow> (\<And>d. cs d = cs' d) \<Longrightarrow> (\<And>d. ts d = ts' d) \<Longrightarrow>
    (\<And>d x. f d x = f' d x) \<Longrightarrow> eff s s' hs' cs' ts' f'"
  by (simp add: eff_def)

text \<open>Quiet steps before and after.\<close>

lemma quiet_eff: "quiet s t \<Longrightarrow> eff t u hs cs ts f \<Longrightarrow> resp_err f \<Longrightarrow> eff s u hs cs ts f"
  using eff_trans [of s t none none none stay u hs cs ts f] by (simp add: eff_quiet)

lemma eff_then_quiet: "eff s t hs cs ts f \<Longrightarrow> quiet t u \<Longrightarrow> eff s u hs cs ts f"
  using eff_trans [of s t hs cs ts f u none none none stay] by (simp add: eff_quiet)

lemma alloc_dev_eff:
  assumes "run_state (alloc_dev d n) s = (a, t)"
  shows "eff s t none none none (at d (\<lambda>x. x\<lparr>free_mem_blocks := snd (allocate_device_memory (word_of_nat n * PAGE_SIZE) (free_mem_blocks (dat s d)))\<rparr>))"
    "a = fst (allocate_device_memory (word_of_nat n * PAGE_SIZE) (free_mem_blocks (dat s d)))"
  using assms by (auto simp: alloc_dev_def eff_def at_def)

text \<open>Programming the IOMMU of device \<open>d\<close> moves no pages.\<close>

definition mmu_at :: "nat \<Rightarrow> 'r svm_m \<Rightarrow> bool" where
  "mmu_at d m \<longleftrightarrow> (\<forall>s r s'. run_state m s = (r, s') \<longrightarrow> dat s' = dat s
     \<and> (\<forall>d'. h2c d' (trace s') = h2c d' (trace s) \<and> c2h d' (trace s') = c2h d' (trace s)
         \<and> (d' \<noteq> d \<longrightarrow> tlb d' (trace s') = tlb d' (trace s))))"

named_theorems mmu_intros

lemma mmu_bind [mmu_intros]: "mmu_at d m \<Longrightarrow> (\<And>x. mmu_at d (f x)) \<Longrightarrow> mmu_at d (State_Monad.bind m f)"
  unfolding mmu_at_def by (auto split: prod.splits)

lemma mmu_return [mmu_intros]: "mmu_at d (State_Monad.return x)"
  by (simp add: mmu_at_def)

lemma mmu_if [mmu_intros]: "(b \<Longrightarrow> mmu_at d m) \<Longrightarrow> (\<not> b \<Longrightarrow> mmu_at d n) \<Longrightarrow> mmu_at d (if b then m else n)"
  by simp

lemma mmu_write [mmu_intros]: "r \<noteq> H2c_start_len \<Longrightarrow> r \<noteq> C2h_start_len \<Longrightarrow> mmu_at d (writeq K d v r)"
  by (auto simp: mmu_at_def h2c_def c2h_def tlb_def)

lemma mmu_tlb [mmu_intros]: "mmu_at d (add_tlb_entry K d v p)" "mmu_at d (add_al_tlb_entry K d v p n)" "mmu_at d (invalidate_tlb_range K d v n)"
  unfolding add_tlb_entry_def add_al_tlb_entry_def invalidate_tlb_range_def by (intro mmu_intros; simp)+

lemma mmu_tlb_entries [mmu_intros]: "mmu_at d (tlb_entries K d b v p js)"
  by (induction js) (auto intro!: mmu_intros)

lemma mmu_tlb_fill [mmu_intros]: "mmu_at d (tlb_fill_loop K d b v p npages i)"
proof (induction "npages - i" arbitrary: i rule: less_induct)
  case less
  then show ?case by (subst tlb_fill_loop.simps) (auto intro!: mmu_intros simp: Let_def MMU_MAX_MAPPING_LENGTH_def)
qed

lemma mmu_add_tlb_entries: "mmu_at d (add_tlb_entries K d b v p npages)"
  unfolding add_tlb_entries_def by (intro mmu_intros)

lemma add_tlb_entries_tlb:
  assumes "0 < npages" "run_state (add_tlb_entries K d b v p npages) s = (u, s')"
  shows "tlb d (trace s') = tlb d (trace s) @ map (page_at b v p) [0..<npages]"
  using svm_tlb_entries_exact [OF assms] by (simp add: page_at_def [abs_def])

lemma add_tlb_entries_eff:
  assumes "0 < npages" "run_state (add_tlb_entries K d b v p npages) s = (u, s')"
  shows "eff s s' none none (only d (map (page_at b v p) [0..<npages])) stay"
  using add_tlb_entries_tlb [OF assms] mmu_add_tlb_entries [of d K b v p npages] assms(2)
  by (auto simp: eff_def mmu_at_def only_def)

lemma insert_eff:
  assumes "run_state (do_insert_vmem K d vaddr npages) s = (u, s')" "\<forall>tr. K tr Kmalloc_node \<noteq> 0"
    "insert_vmem_interval True vaddr (int npages) (vmem_intervals (dat s d)) = Some (r, t)"
  shows "eff s s' none none none (at d (\<lambda>x. x\<lparr>vmem_intervals := t\<rparr>))"
proof -
  have q: "quiet s (s\<lparr>trace := trace s @ [(Kmalloc_node, K (trace s) Kmalloc_node)]\<rparr>)"
    using quiet_mD [OF quiet_call(1) run_kcall, of Kmalloc_node s K] by simp
  then show ?thesis using assms by (auto simp: do_insert_vmem_def eff_def quiet_def at_def)
qed

lemma remove_eff:
  assumes "run_state (do_remove_vmem K d vaddr npages) s = (u, s')" "\<forall>tr. K tr Kmalloc_node \<noteq> 0"
    "remove_vmem_interval True vaddr (int npages) (vmem_intervals (dat s d)) = Some t"
  shows "eff s s' none none none (at d (\<lambda>x. x\<lparr>vmem_intervals := t\<rparr>))"
proof -
  have q: "quiet s (s\<lparr>trace := trace s @ [(Kmalloc_node, K (trace s) Kmalloc_node)]\<rparr>)"
    using quiet_mD [OF quiet_call(1) run_kcall, of Kmalloc_node s K] by simp
  then show ?thesis using assms by (auto simp: do_remove_vmem_def eff_def quiet_def at_def)
qed

section \<open>From host memory to a device\<close>

lemma ram_to_dev_dma_moves:
  assumes "run_state (ram_to_dev_dma K polls d b p ps as npages) s = (0, s')" "npages \<le> length as" "all_48 as"
  shows "moves s s' (only d (map (h2c_page b p ps as) [0..<npages])) none"
proof -
  obtain r s1 where s1: "run_state (h2c_loop K polls d b p ps as npages 0 0) s = (r, s1)" by (rule pair_run)
  let ?rest = "do {
       res \<leftarrow> wait_for_h2c_intr K polls d (npages < PAGE_DMA_POLL_LIMIT);
       if res \<noteq> 0 then State_Monad.return res
       else do {
         v \<leftarrow> readq K d H2c_status_ctrl;
         State_Monad.return (if v AND PAGE_DMA_STAT_ERROR_FLAGS \<noteq> 0 then - EACCES else 0) } }"
  have r: "r = 0" and rest: "run_state ?rest s1 = (0, s')"
    using assms(1) s1 unfolding ram_to_dev_dma_def by (auto elim!: run_bindE split: if_splits)
  have "quiet_m ?rest" by (intro quiet_intros)
  then have m2: "moves s1 s' none none" using quiet_mD [OF _ rest] by (simp add: quiet_moves)
  have m1: "moves s s1 (only d (map (h2c_page b p ps as) [0..<npages])) none"
    using h2c_loop_moves [of npages as K polls d b p ps 0 0 s s1] s1 assms(2,3) unfolding r by (simp add: all_48_def)
  show ?thesis by (rule moves_cong [OF moves_trans [OF m1 m2]]) simp_all
qed

text \<open>The pages and addresses that are copied: the address is one the kernel gave for that page.\<close>

definition mapped_src :: "svm_call kenv \<Rightarrow> nat \<Rightarrow> u64 list \<Rightarrow> u64 list \<Rightarrow> nat \<Rightarrow> bool" where
  "mapped_src K d ps as k \<longleftrightarrow> (\<exists>tr. ps ! k = word_of_int (K tr (Src_page k)))
     \<and> (ps ! k \<noteq> 0 \<longrightarrow> (\<exists>tr. as ! k = word_of_int (K tr (Dma_map_page d (ps ! k) DMA_TO_DEVICE))))"

lemma map_src_pages_keep:
  "run_state (map_src_pages K d qs is ps as) s = ((res, ps', as'), s') \<Longrightarrow> k \<notin> set is \<Longrightarrow> ps' ! k = ps ! k \<and> as' ! k = as ! k"
  by (induction "is" arbitrary: ps as s) (auto simp: Let_def split: if_splits)

lemma map_src_pages_mapped:
  "run_state (map_src_pages K d qs is ps as) s = ((0, ps', as'), s') \<Longrightarrow> distinct is \<Longrightarrow> k \<in> set is \<Longrightarrow>
    k < length ps \<Longrightarrow> k < length as \<Longrightarrow> mapped_src K d ps' as' k"
proof (induction "is" arbitrary: ps as s)
  case (Cons i "is")
  show ?case
  proof (cases "k = i")
    case True
    then show ?thesis using Cons.prems
      by (auto simp: Let_def mapped_src_def EACCES_def split: if_splits dest!: map_src_pages_keep [where k = k])
  next
    case False
    then show ?thesis using Cons.prems Cons.IH
      by (auto simp: Let_def EACCES_def split: if_splits)
  qed
qed simp

lemma same_svm_fields: "same_svm x y \<Longrightarrow> base_pfn y = base_pfn x \<and> vmem_intervals y = vmem_intervals x \<and> free_mem_blocks y = free_mem_blocks x"
  by (cases x; cases y; simp add: same_svm_def)

lemma quiet_same: "quiet s t \<Longrightarrow> free_mem_blocks (dat t d) = free_mem_blocks (dat s d) \<and> vmem_intervals (dat t d) = vmem_intervals (dat s d)
    \<and> base_pfn (dat t d) = base_pfn (dat s d)"
  using same_svm_fields by (simp add: quiet_def)

lemma eff_same: "eff s t hs cs ts f \<Longrightarrow> same_svm (f d (dat s d)) (dat t d)"
  by (simp add: eff_def)

lemma all_migrated_all: "migrates K \<Longrightarrow> run_state (all_migrated K is) s = (ok, s') \<Longrightarrow> ok"
  by (induction "is" arbitrary: s) (auto simp: migrates_def)

lemma fails_with [simp]: "fst (run_state (fail_allocmem K arrays qs res) s) = res" "fst (run_state (fail_dma K d arrays qs as res) s) = res"
  by (auto simp: fail_allocmem_def fail_dma_def split: prod.splits)

lemma fails_not_0: "run_state (fail_allocmem K arrays qs res) s = (r, s') \<Longrightarrow> r = res" "run_state (fail_dma K d arrays qs as res) s = (r, s') \<Longrightarrow> r = res"
  by (metis fails_with fst_conv)+

text \<open>What is to be shown of a migration to a device.\<close>

definition moved_in :: "svm_call kenv \<Rightarrow> nat \<Rightarrow> u64 \<Rightarrow> nat \<Rightarrow> svm_st \<Rightarrow> svm_st \<Rightarrow> u64 \<Rightarrow> device_memory_block list \<Rightarrow> ivl list \<Rightarrow> u64 list \<Rightarrow> u64 list \<Rightarrow> bool" where
  "moved_in K d vaddr npages s s' a bs t ps as \<longleftrightarrow>
     allocate_device_memory (word_of_nat npages * PAGE_SIZE) (free_mem_blocks (dat s d)) = (a, bs) \<and> a \<noteq> - 1
     \<and> (\<exists>r. insert_vmem_interval True vaddr (int npages) (vmem_intervals (dat s d)) = Some (r, t))
     \<and> (\<forall>k < npages. mapped_src K d ps as k)
     \<and> (let b = base_pfn (dat s d); pfn = dev_addr_to_pfn b a
        in eff s s' (only d (map (h2c_page b pfn ps as) [0..<npages])) none (only d (map (page_at b vaddr pfn) [0..<npages]))
             (at d (\<lambda>x. x\<lparr>free_mem_blocks := bs, vmem_intervals := t\<rparr>)))"

lemma resp_err_both [simp]: "resp_err (at d (\<lambda>x. x\<lparr>free_mem_blocks := bs, vmem_intervals := t\<rparr>))"
  by (auto simp: resp_err_def at_def same_svm_update)

lemma quiet_moved_in: "quiet s u \<Longrightarrow> moved_in K d vaddr npages u s' a bs t ps as \<Longrightarrow> moved_in K d vaddr npages s s' a bs t ps as"
  using quiet_eff [of s u s'] quiet_same [of s u d] by (auto simp: moved_in_def Let_def)

lemma moved_inI:
  assumes e5: "eff s s5 none none none (at d (\<lambda>x. x\<lparr>free_mem_blocks := bs\<rparr>))"
    and e6: "eff s5 s6 (only d (map (h2c_page b p ps as) [0..<npages])) none none stay"
    and s10: "run_state (add_tlb_entries K d b vaddr p npages) s6 = (u, s10)"
    and q11: "quiet s10 s11"
    and s12: "run_state (do_insert_vmem K d vaddr npages) s11 = (u', s12)" and q': "quiet s12 s'"
    and K: "\<forall>tr. K tr Kmalloc_node \<noteq> 0" "0 < npages"
    and a: "allocate_device_memory (word_of_nat npages * PAGE_SIZE) (free_mem_blocks (dat s d)) = (a, bs)" "a \<noteq> - 1"
      "b = base_pfn (dat s d)" "p = dev_addr_to_pfn b a"
    and t: "insert_vmem_interval True vaddr (int npages) (vmem_intervals (dat s d)) = Some (r, t)"
    and src: "\<forall>k < npages. mapped_src K d ps as k"
  shows "moved_in K d vaddr npages s s' a bs t ps as"
proof -
  note e11 = eff_then_quiet [OF add_tlb_entries_eff [OF K(2) s10] q11]
  note e = eff_trans [OF eff_trans [OF e5 e6] e11]
  have v: "vmem_intervals (dat s11 d) = vmem_intervals (dat s d)"
    using same_svm_fields [OF eff_same [OF e, of d]] by (simp add: at_def)
  note e12 = eff_then_quiet [OF insert_eff [OF s12 K(1)] q']
  show ?thesis unfolding moved_in_def Let_def
    using a src t by (auto intro!: eff_cong [OF eff_trans [OF e e12]] simp: v at_def)
qed

lemma ram_to_dev_attempt_in:
  assumes "migrates K" "dma_48 K" "\<forall>tr. K tr Kmalloc_node \<noteq> 0" "0 < npages"
  shows "run_state (ram_to_dev_attempt K polls d vaddr npages arrays rc ps as) s = (0, s') \<Longrightarrow> all_48 as \<Longrightarrow>
    length as = npages \<Longrightarrow> length ps = npages \<Longrightarrow> insert_vmem_interval True vaddr (int npages) (vmem_intervals (dat s d)) = Some (r, t) \<Longrightarrow>
    \<exists>a bs ps' as'. moved_in K d vaddr npages s s' a bs t ps' as'"
proof (induction "nat (5 - rc)" arbitrary: rc s rule: less_induct)
  case less
  note run = less.prems(1) [unfolded ram_to_dev_attempt.simps [of K polls d vaddr npages arrays rc]]
  let ?call = "Migrate_vma_setup d False vaddr (vaddr + word_of_nat npages * PAGE_SIZE)"
  obtain r1 s1 where s1: "run_state (kcall K ?call :: int svm_m) s = (r1, s1)" by (rule pair_run)
  obtain c s2 where s2: "run_state (kcall K Cpages :: int svm_m) s1 = (c, s2)" by (rule pair_run)
  have q2: "quiet s s2"
    using quiet_trans [OF quiet_mD [OF quiet_call(1) s1] quiet_mD [OF quiet_call(1) s2]] by simp
  show ?case
  proof (cases "c = int npages")
    case False
    obtain s3 where s3: "run_state (kdo K Migrate_vma_finalize :: unit svm_m) s2 = ((), s3)" by (rule unit_run)
    have q3: "quiet s s3" using quiet_trans [OF q2 quiet_mD [OF quiet_call(2) s3]] by simp
    have "run_state (ram_to_dev_attempt K polls d vaddr npages arrays (rc + 1) ps as) s3 = (0, s')" "nat (5 - (rc + 1)) < nat (5 - rc)"
      using run s1 s2 s3 False by (auto simp: ENOMEM_def returns simp del: run_kcall run_kdo split: if_splits)
    then show ?thesis using less.hyps less.prems quiet_same [OF q3, of d] quiet_moved_in [OF q3] by metis
  next
    case True
    let ?b = "base_pfn (dat s d)"
    obtain a s3 where s3: "run_state (alloc_dev d npages) s2 = (a, s3)" by (rule pair_run)
    let ?p = "dev_addr_to_pfn ?b a"
    let ?qs = "map (\<lambda>i. ?p + word_of_nat i) [0..<npages]"
    let ?free = "at d (\<lambda>x. x\<lparr>free_mem_blocks := snd (allocate_device_memory (word_of_nat npages * PAGE_SIZE) (free_mem_blocks (dat s d)))\<rparr>)"
    have e3: "eff s s3 none none none ?free"
      and a: "a = fst (allocate_device_memory (word_of_nat npages * PAGE_SIZE) (free_mem_blocks (dat s d)))"
      using quiet_eff [OF q2 alloc_dev_eff(1) [OF s3]] alloc_dev_eff(2) [OF s3] quiet_same [OF q2, of d] by simp_all
    have b: "base_pfn (dat s3 d) = ?b" using same_svm_fields [OF eff_same [OF e3, of d]] by (simp add: at_def)
    obtain s4 where s4: "run_state (get_dst_pages K d ?qs) s3 = ((), s4)" by (rule unit_run)
    obtain r5 ps' as' s5 where s5: "run_state (map_src_pages K d ?qs [0..<npages] ps as) s4 = ((r5, ps', as'), s5)" by (rule triple_run)
    obtain r6 s6 where s6: "run_state (ram_to_dev_dma K polls d ?b ?p ps' as' npages) s5 = (r6, s6)" by (rule pair_run)
    obtain s7 where s7: "run_state (unmap_pages K d DMA_TO_DEVICE as') s6 = ((), s7)" by (rule unit_run)
    obtain s8 where s8: "run_state (kdo K Migrate_vma_pages :: unit svm_m) s7 = ((), s8)" by (rule unit_run)
    obtain ok s9 where s9: "run_state (all_migrated K [0..<npages]) s8 = (ok, s9)" by (rule pair_run)
    obtain s10 where s10: "run_state (add_tlb_entries K d ?b vaddr ?p npages) s9 = ((), s10)" by (rule unit_run)
    obtain s11 where s11: "run_state (kdo K Migrate_vma_finalize :: unit svm_m) s10 = ((), s11)" by (rule unit_run)
    obtain s12 where s12: "run_state (do_insert_vmem K d vaddr npages) s11 = ((), s12)" by (rule unit_run)
    have ok: "ok" using all_migrated_all [OF assms(1) s9] .
    have res: "a \<noteq> - 1" "r5 = 0" "r6 = 0" and s13: "s' = snd (run_state (kfrees K arrays) s12)"
      using run s1 s2 s3 s4 s5 s6 s7 s8 s9 s10 s11 s12 True ok b
      by (auto simp: ENOMEM_def Let_def returns simp del: run_kcall run_kdo split: if_splits dest!: fails_not_0)
    have as': "all_48 as'" "npages \<le> length as'" using map_src_pages_48 [OF assms(2) s5] less.prems by simp_all
    have src: "\<forall>k < npages. mapped_src K d ps' as' k"
      using map_src_pages_mapped [OF s5 [unfolded res]] less.prems by simp
    have e5: "eff s s5 none none none ?free"
      by (rule eff_then_quiet [OF e3 quiet_trans [OF quiet_mD [OF quiet_get_dst_pages s4] quiet_mD [OF quiet_map_src_pages s5]]])
    have e6: "eff s5 s6 (only d (map (h2c_page ?b ?p ps' as') [0..<npages])) none none stay"
      using ram_to_dev_dma_moves [OF s6 [unfolded res(3)] as'(2,1)] by (simp add: eff_moves)
    have q9: "quiet s6 s9"
      by (rule quiet_trans [OF quiet_mD [OF quiet_unmap_pages s7] quiet_trans [OF quiet_mD [OF quiet_call(2) s8] quiet_mD [OF quiet_all_migrated s9]]]) simp_all
    have q11: "quiet s10 s11" by (rule quiet_mD [OF quiet_call(2) s11]) simp_all
    have q': "quiet s12 s'" unfolding s13 by (rule quiet_mD [OF quiet_kfrees prod.collapse [symmetric]])
    show ?thesis
      using moved_inI [OF e5 eff_then_quiet [OF e6 q9] s10 q11 s12 q' assms(3,4) _ res(1) _ _ less.prems(5) src] a by auto
  qed
qed


text \<open>One page without contents, on a device with 16 pages of free memory behind the first: it is cleared at address 0x1000.\<close>

definition svm_example_free :: "nat \<Rightarrow> svm_data" where
  "svm_example_free = (\<lambda>d. (svm_example d)\<lparr>free_mem_blocks := [\<lparr>base_addr = 0x1000, bsize = 0x10000\<rparr>]\<rparr>)"

definition svm_example_env :: "svm_call kenv" where
  "svm_example_env = (\<lambda>tr c. case c of Readq d r \<Rightarrow> 0 | Src_page i \<Rightarrow> 0 | _ \<Rightarrow> 1)"

lemma svm_example_env_simps [simp]: "svm_example_env tr (Readq d r) = 0" "svm_example_env tr (Src_page i) = 0"
  "svm_example_env tr (Kcalloc n) = 1" "svm_example_env tr (Migrate_vma_setup d b v w) = 1" "svm_example_env tr Cpages = 1"
  "svm_example_env tr (Find_vma_intersection v w) = 1" "svm_example_env tr (Src_migrate i) = 1"
  "svm_example_env tr Ktime_get_ms = 1" "svm_example_env tr Kmalloc_node = 1"
  by (simp_all add: svm_example_env_def)

lemma example_dma: "fst (run_state (ram_to_dev_dma svm_example_env 1 0 b p ps as 1) s) = 0"
proof -
  have "h2c_run ps as (Suc 0) 0 = Suc 0"
    using h2c_run_bounds(2) [of 0 "Suc 0" ps as] h2c_run_pos [of ps as "Suc 0" 0] by linarith
  moreover have "h2c_loop svm_example_env (Suc 0) 0 b p ps as (Suc 0) (Suc 0) cnt = State_Monad.return 0" for cnt
    by (simp add: h2c_loop.simps)
  ultimately show ?thesis
    by (simp add: ram_to_dev_dma_def h2c_loop.simps [of _ _ _ _ _ _ _ _ 0] throttle_def wait_for_h2c_intr_def wait_for_intr_def
        PAGE_DMA_POLL_LIMIT_def poll_dma.simps Let_def PAGE_DMA_TIMEOUT_MSECS_def readq_def split: prod.splits)
qed

lemma kcallocs_5: "kcallocs K n 5 = kcallocs K n (Suc (Suc (Suc (Suc (Suc 0)))))"
  by (simp only: eval_nat_numeral BitM.simps)

lemma example_run: "fst (run_state (svm_migrate_ram_to_dev svm_example_env 1 4 0 0x7000 1) \<lparr>trace = [], dat = svm_example_free\<rparr>) = 0"
proof -
  have "migrates svm_example_env" by (simp add: migrates_def)
  then have "fst (run_state (all_migrated svm_example_env is) s)" for "is" s by (metis all_migrated_all prod.collapse)
  then show ?thesis
    apply (simp add: svm_migrate_ram_to_dev_def kcallocs_5 ram_to_dev_attempt.simps [of svm_example_env 1 0 "0x7000" 1 _ 4] Let_def upt_rec [of 0]
        del: One_nat_def)
    apply (simp add: alloc_dev_def svm_example_free_def svm_example_def PAGE_SIZE_def PAGE_SHIFT_def del: One_nat_def)
    apply (simp add: case_prod_beta example_dma dev_addr_to_pfn_def Let_def PAGE_SHIFT_def del: One_nat_def)
    apply (simp add: Let_def)
    done
qed


end
