(* ===== verification/Tlkm_Irq.thy ===== *)
theory Tlkm_Irq
  imports Tlkm_Types "HOL-Library.Signed_Division"
begin

text \<open>
  Registration of user interrupts: the list of registered interrupts of a control file
  (\<^verbatim>\<open>device/tlkm_control.h\<close>), the command that adds to it (\<^verbatim>\<open>tlkm_device_reg_int\<close> in
  \<^verbatim>\<open>device/tlkm_device_ioctl.c\<close>) and the release of the file that empties it
  (\<^verbatim>\<open>device/tlkm_control.c\<close>). Both call the interrupt functions of the device class; their
  contract is the locale \<open>irq_provider\<close>, which the platforms interpret. The part common to
  the platforms with software-demultiplexed interrupts, a table of controllers that each
  point to their first entry in the list, is here as well. Entries are identified by their
  address; \<^const>\<open>None\<close> as a result is an access outside an object or through a null pointer.
\<close>

section \<open>Data\<close>

record tlkm_irq_mapping =
  m_ptr :: u64
  irq_no :: s32
  eventfd :: u64

record zynq_irq_mapping =
  first_mapping :: u64   \<comment> \<open>field \<^verbatim>\<open>mapping\<close>: address of an entry of the list, or 0\<close>
  intc :: u64
  irq_start :: u32
  intc_id :: u32

text \<open>Reading through a pointer into the list, and following \<^verbatim>\<open>list.next\<close>: the successor, or
  \<open>Some None\<close> at the end of the list.\<close>

definition deref :: "tlkm_irq_mapping list \<Rightarrow> u64 \<Rightarrow> tlkm_irq_mapping option" where
  "deref ms p = find (\<lambda>m. m_ptr m = p) ms"

fun list_next :: "tlkm_irq_mapping list \<Rightarrow> u64 \<Rightarrow> tlkm_irq_mapping option option" where
  "list_next [] p = None"
| "list_next (m # ms) p =
     (if m_ptr m = p then Some (case ms of [] \<Rightarrow> None | n # _ \<Rightarrow> Some n) else list_next ms p)"

section \<open>Registration and release\<close>

text \<open>The ordered insertion at the end of \<^verbatim>\<open>tlkm_device_reg_int\<close>.\<close>

fun insert_mapping :: "tlkm_irq_mapping \<Rightarrow> tlkm_irq_mapping list \<Rightarrow> tlkm_irq_mapping list" where
  "insert_mapping m [] = [m]"
| "insert_mapping m (x # xs) = (if irq_no x > irq_no m then m # x # xs else x # insert_mapping m xs)"

type_synonym 'c pirq_fn = "tlkm_irq_mapping list \<Rightarrow> tlkm_irq_mapping \<Rightarrow> 'c \<Rightarrow> (int \<times> 'c) option"
type_synonym 'c rirq_fn = "tlkm_irq_mapping list \<Rightarrow> tlkm_irq_mapping \<Rightarrow> 'c \<Rightarrow> 'c option"

text \<open>\<open>copy_ok\<close>: the command could be copied from user space; \<open>p\<close>: result of \<^verbatim>\<open>kzalloc\<close>, which the
  code does not check; \<open>fdget\<close>: \<^verbatim>\<open>eventfd_ctx_fdget\<close>; \<open>c\<close>: state of the class.\<close>

definition tlkm_device_reg_int :: "'c pirq_fn \<Rightarrow> bool \<Rightarrow> u64 \<Rightarrow> (s32 \<Rightarrow> u64) \<Rightarrow> tlkm_register_interrupt
    \<Rightarrow> tlkm_irq_mapping list \<Rightarrow> 'c \<Rightarrow> (int \<times> tlkm_irq_mapping list \<times> 'c) option" where
  "tlkm_device_reg_int pirq copy_ok p fdget s ms c =
     (if \<not> copy_ok then Some (- EFAULT, ms, c)
      else if list_ex (\<lambda>m. irq_no m = pe_id s) ms then Some (- EFAULT, ms, c)
      else if p = 0 then None
      else let m = \<lparr>m_ptr = p, irq_no = pe_id s, eventfd = 0\<rparr>
           in case pirq ms m c of
                None \<Rightarrow> None
              | Some (result, c') \<Rightarrow>
                  if result \<noteq> 0 then Some (result, ms, c')
                  else Some (0, insert_mapping (m\<lparr>eventfd := fdget (int_fd s)\<rparr>) ms, c'))"

text \<open>The loop of \<^verbatim>\<open>tlkm_control_release\<close>; the event file contexts given back are returned as
  well. The entry is still in the list when the class is called.\<close>

fun release_mappings :: "'c rirq_fn \<Rightarrow> tlkm_irq_mapping list \<Rightarrow> 'c \<Rightarrow> (u64 list \<times> 'c) option" where
  "release_mappings rirq [] c = Some ([], c)"
| "release_mappings rirq (m # ms) c =
     (let m' = m\<lparr>eventfd := 0\<rparr>
      in case rirq (m' # ms) m' c of
           None \<Rightarrow> None
         | Some c' \<Rightarrow> (case release_mappings rirq ms c' of
                        None \<Rightarrow> None
                      | Some (puts, c'') \<Rightarrow> Some (eventfd m # puts, c'')))"

text \<open>\<open>miscdev_close\<close> is the optional callback of the class.\<close>

definition tlkm_control_release :: "'c rirq_fn \<Rightarrow> ('c \<Rightarrow> 'c) option \<Rightarrow> tlkm_irq_mapping list \<Rightarrow> 'c
    \<Rightarrow> (int \<times> u64 list \<times> tlkm_irq_mapping list \<times> 'c) option" where
  "tlkm_control_release rirq miscdev_close ms c =
     (case release_mappings rirq ms c of
        None \<Rightarrow> None
      | Some (puts, c') \<Rightarrow>
          Some (0, puts, [], case miscdev_close of Some f \<Rightarrow> f c' | None \<Rightarrow> c'))"

section \<open>The list is sorted\<close>

definition irqs_sorted :: "tlkm_irq_mapping list \<Rightarrow> bool" where
  "irqs_sorted ms \<longleftrightarrow> sorted_wrt (\<lambda>a b. irq_no a < irq_no b) ms"

definition ptrs_ok :: "tlkm_irq_mapping list \<Rightarrow> bool" where
  "ptrs_ok ms \<longleftrightarrow> distinct (map m_ptr ms) \<and> 0 \<notin> m_ptr ` set ms"

lemma set_insert_mapping [simp]: "set (insert_mapping m ms) = insert m (set ms)"
  by (induction ms) auto

lemma insert_mapping_sorted:
  assumes "irqs_sorted ms" and "irq_no m \<notin> irq_no ` set ms"
  shows "irqs_sorted (insert_mapping m ms)"
  using assms unfolding irqs_sorted_def
proof (induction ms)
  case (Cons x ms)
  then have "irq_no x \<noteq> irq_no m" by auto
  with Cons show ?case by force
qed simp

lemma insert_mapping_ptrs:
  assumes "ptrs_ok ms" and "m_ptr m \<noteq> 0" and "m_ptr m \<notin> m_ptr ` set ms"
  shows "ptrs_ok (insert_mapping m ms)"
  using assms unfolding ptrs_ok_def by (induction ms) auto

lemma insert_mapping_eventfd:
  "map irq_no (insert_mapping (m\<lparr>eventfd := e\<rparr>) ms) = map irq_no (insert_mapping m ms)"
  "map m_ptr (insert_mapping (m\<lparr>eventfd := e\<rparr>) ms) = map m_ptr (insert_mapping m ms)"
  by (induction ms) auto

section \<open>Contract of the class and its client\<close>

text \<open>\<open>cinv\<close> relates the state of the class to the registered interrupts, of which it may only
  use numbers and addresses; \<open>valid\<close> are the interrupt numbers the hardware has.\<close>

locale irq_provider =
  fixes pirq :: "'c pirq_fn" and rirq :: "'c rirq_fn"
    and cinv :: "(s32 \<times> u64) list \<Rightarrow> 'c \<Rightarrow> bool" and valid :: "s32 \<Rightarrow> bool"
  assumes pirq_ok: "irqs_sorted ms \<Longrightarrow> ptrs_ok ms \<Longrightarrow> list_all (valid \<circ> irq_no) ms \<Longrightarrow>
      cinv (map (\<lambda>x. (irq_no x, m_ptr x)) ms) c \<Longrightarrow>
      valid (irq_no m) \<Longrightarrow> irq_no m \<notin> irq_no ` set ms \<Longrightarrow> m_ptr m \<noteq> 0 \<Longrightarrow> m_ptr m \<notin> m_ptr ` set ms \<Longrightarrow>
      \<exists>r c'. pirq ms m c = Some (r, c') \<and>
        cinv (map (\<lambda>x. (irq_no x, m_ptr x)) (if r = 0 then insert_mapping m ms else ms)) c'"
    and rirq_ok: "irqs_sorted (m # ms) \<Longrightarrow> ptrs_ok (m # ms) \<Longrightarrow> list_all (valid \<circ> irq_no) (m # ms) \<Longrightarrow>
      cinv (map (\<lambda>x. (irq_no x, m_ptr x)) (m # ms)) c \<Longrightarrow>
      \<exists>c'. rirq (m # ms) m c = Some c' \<and> cinv (map (\<lambda>x. (irq_no x, m_ptr x)) ms) c'"
begin

definition irq_inv :: "tlkm_irq_mapping list \<Rightarrow> 'c \<Rightarrow> bool" where
  "irq_inv ms c \<longleftrightarrow> irqs_sorted ms \<and> ptrs_ok ms \<and> list_all (valid \<circ> irq_no) ms
     \<and> cinv (map (\<lambda>x. (irq_no x, m_ptr x)) ms) c"

lemma reg_int_inv:
  assumes "irq_inv ms c" and "valid (pe_id s)" and "p \<noteq> 0" and "p \<notin> m_ptr ` set ms"
  shows "\<exists>r ms' c'. tlkm_device_reg_int pirq copy_ok p fdget s ms c = Some (r, ms', c') \<and> irq_inv ms' c'
    \<and> (r \<noteq> 0 \<longrightarrow> ms' = ms)
    \<and> (r = 0 \<longrightarrow> pe_id s \<notin> irq_no ` set ms
        \<and> set ms' = insert \<lparr>m_ptr = p, irq_no = pe_id s, eventfd = fdget (int_fd s)\<rparr> (set ms))"
proof (cases "copy_ok \<and> pe_id s \<notin> irq_no ` set ms")
  case False
  then show ?thesis
    using assms(1) by (auto simp: tlkm_device_reg_int_def list_ex_iff EFAULT_def)
next
  case True
  let ?m = "\<lparr>m_ptr = p, irq_no = pe_id s, eventfd = 0\<rparr>"
  let ?m' = "?m\<lparr>eventfd := fdget (int_fd s)\<rparr>"
  have new: "irq_no ?m \<notin> irq_no ` set ms" "m_ptr ?m \<notin> m_ptr ` set ms" using True assms(4) by simp_all
  obtain r c' where pi: "pirq ms ?m c = Some (r, c')"
      "cinv (map (\<lambda>x. (irq_no x, m_ptr x)) (if r = 0 then insert_mapping ?m ms else ms)) c'"
    using pirq_ok [of ms c ?m] assms new by (auto simp: irq_inv_def)
  have same: "map (\<lambda>x. (irq_no x, m_ptr x)) (insert_mapping ?m' ms) = map (\<lambda>x. (irq_no x, m_ptr x)) (insert_mapping ?m ms)"
    by (induction ms) auto
  have ins: "irqs_sorted (insert_mapping ?m' ms)" "ptrs_ok (insert_mapping ?m' ms)"
    "list_all (valid \<circ> irq_no) (insert_mapping ?m' ms)"
    using insert_mapping_sorted [of ms ?m'] insert_mapping_ptrs [of ms ?m'] assms new
    by (auto simp: irq_inv_def list_all_iff)
  have res: "tlkm_device_reg_int pirq copy_ok p fdget s ms c
      = Some (r, if r = 0 then insert_mapping ?m' ms else ms, c')"
  proof -
    have "\<not> list_ex (\<lambda>m. irq_no m = pe_id s) ms" using True by (force simp: list_ex_iff)
    then show ?thesis using True assms(3) pi(1) by (simp add: tlkm_device_reg_int_def)
  qed
  show ?thesis
  proof (cases "r = 0")
    case True
    then show ?thesis using res pi(2) ins new same by (simp add: irq_inv_def)
  next
    case False
    then show ?thesis using res pi(2) assms(1) by (simp add: irq_inv_def)
  qed
qed

lemma release_mappings_inv:
  assumes "irq_inv ms c"
  shows "\<exists>c'. release_mappings rirq ms c = Some (map eventfd ms, c') \<and> irq_inv [] c'"
  using assms
proof (induction ms arbitrary: c)
  case (Cons m ms)
  let ?m = "m\<lparr>eventfd := 0\<rparr>"
  have "irqs_sorted (?m # ms)" "ptrs_ok (?m # ms)" "list_all (valid \<circ> irq_no) (?m # ms)"
    "cinv (map (\<lambda>x. (irq_no x, m_ptr x)) (?m # ms)) c"
    using Cons.prems by (simp_all add: irq_inv_def irqs_sorted_def ptrs_ok_def)
  from rirq_ok [OF this] obtain c1 where
    c1: "rirq (?m # ms) ?m c = Some c1" "cinv (map (\<lambda>x. (irq_no x, m_ptr x)) ms) c1" by blast
  have "irq_inv ms c1" using Cons.prems c1(2) by (simp add: irq_inv_def irqs_sorted_def ptrs_ok_def)
  from Cons.IH [OF this] c1(1) show ?case by auto
qed (simp add: irq_inv_def)

lemma control_release_inv:
  assumes "irq_inv ms c"
  shows "\<exists>c'. tlkm_control_release rirq None ms c = Some (0, map eventfd ms, [], c') \<and> irq_inv [] c'"
  using release_mappings_inv [OF assms] by (auto simp: tlkm_control_release_def)

end

end
