(* ===== verification/Irq_Controllers.thy ===== *)
theory Irq_Controllers
  imports Tlkm_Irq
begin

text \<open>
  Interrupt controllers with 32 lines each, as used by the Zynq platforms and by AWS F1. Every
  controller points to the first entry of the sorted list that belongs to it; its handler
  walks the list from there. The functions here are the bodies common to
  \<^verbatim>\<open>zynq/zynq_irq.c\<close> and \<^verbatim>\<open>pcie/pcie_irq_aws.c\<close>.
\<close>

unbundle bit_operations_syntax

section \<open>The table of controllers\<close>

definition IRQS_PER_CONTROLLER :: int where
  [tlkm_const]: "IRQS_PER_CONTROLLER = 32"

text \<open>Entry \<open>m\<close> is registered at controller \<open>c\<close> and becomes its first one, if it is before the
  present one.\<close>

definition add_to_controller :: "tlkm_irq_mapping list \<Rightarrow> tlkm_irq_mapping \<Rightarrow> int
    \<Rightarrow> zynq_irq_mapping list \<Rightarrow> zynq_irq_mapping list option" where
  "add_to_controller ms m c cs =
     (if c < 0 \<or> int (length cs) \<le> c then None
      else let b = cs ! nat c; cs' = cs[nat c := b\<lparr>first_mapping := m_ptr m\<rparr>]
           in if first_mapping b = 0 then Some cs'
              else (case deref ms (first_mapping b) of
                      None \<Rightarrow> None
                    | Some f \<Rightarrow> if irq_no f > irq_no m then Some cs' else Some cs))"

text \<open>Entry \<open>m\<close> leaves controller \<open>c\<close>; if it was the first one, its successor takes its place,
  provided it belongs to the controller (\<open>same\<close>).\<close>

definition remove_from_controller :: "(s32 \<Rightarrow> bool) \<Rightarrow> tlkm_irq_mapping list \<Rightarrow> tlkm_irq_mapping \<Rightarrow> int
    \<Rightarrow> zynq_irq_mapping list \<Rightarrow> zynq_irq_mapping list option" where
  "remove_from_controller same ms m c cs =
     (if c < 0 \<or> int (length cs) \<le> c then None
      else let b = cs ! nat c; put = (\<lambda>p. cs[nat c := b\<lparr>first_mapping := p\<rparr>])
           in if first_mapping b = 0 then Some cs
              else (case deref ms (first_mapping b) of
                      None \<Rightarrow> None
                    | Some f \<Rightarrow>
                        if irq_no f = irq_no m
                        then (case list_next ms (m_ptr m) of
                                None \<Rightarrow> None
                              | Some None \<Rightarrow> Some (put 0)
                              | Some (Some n) \<Rightarrow> if same (irq_no n) then Some (put (m_ptr n)) else Some (put 0))
                        else Some cs))"

section \<open>The handler's loops\<close>

text \<open>\<^verbatim>\<open>__builtin_ffs\<close>: one plus the index of the least significant set bit, 0 for 0.\<close>

definition ffs :: "u32 \<Rightarrow> nat" where
  "ffs w = (case find (bit w) [0..<32] of None \<Rightarrow> 0 | Some i \<Rightarrow> i + 1)"

text \<open>The inner loop advances \<^verbatim>\<open>m_start\<close>, here the rest of the list that begins with it, to the
  slot or to the end of the list.\<close>

fun advance :: "tlkm_irq_mapping list \<Rightarrow> u32 \<Rightarrow> tlkm_irq_mapping list" where
  "advance (m # n # ms) slot = (if word_of_int (irq_no m) < slot then advance (n # ms) slot else m # n # ms)"
| "advance ms slot = ms"

lemma ffs_bit:
  assumes "w \<noteq> 0"
  shows "0 < ffs w \<and> bit w (ffs w - 1) \<and> ffs w - 1 < 32 \<and> (\<forall>j < ffs w - 1. \<not> bit w j)"
proof -
  have "\<exists>i < 32. bit w i"
  proof (rule ccontr)
    assume "\<not> ?thesis"
    then have "w = 0" by (intro bit_word_eqI) simp
    then show False using assms by simp
  qed
  then have "find (bit w) [0..<32] \<noteq> None" by (auto simp: find_None_iff)
  then obtain i where i: "find (bit w) [0..<32] = Some i" by blast
  then have "i < 32" "bit w i" "\<forall>j < i. \<not> bit w j"
    by (auto simp: find_Some_iff)
  then show ?thesis using i by (simp add: ffs_def)
qed

lemma clear_bit_measure:
  assumes "bit (w :: u32) i"
  shows "card {j. bit (w XOR push_bit i 1) j} < card {j. bit w j}"
proof (rule psubset_card_mono)
  show "finite {j. bit w j}" by (rule finite_subset [of _ "{..<32}"]) (auto dest: bit_imp_le_length)
  have "bit (w XOR push_bit i 1) j \<longleftrightarrow> bit w j \<and> j \<noteq> i" for j
    using assms bit_imp_le_length [of w j] bit_imp_le_length [OF assms]
    by (auto simp: bit_simps)
  then show "{j. bit (w XOR push_bit i 1) j} \<subset> {j. bit w j}" using assms by auto
qed

text \<open>The loop over the bits of a status word: \<open>cur\<close> is \<^verbatim>\<open>m_start\<close> with the entries behind it. The
  result are the event files signalled, and where \<^verbatim>\<open>m_start\<close> ends up.\<close>

function signal_loop :: "u32 \<Rightarrow> tlkm_irq_mapping list \<Rightarrow> u32 \<Rightarrow> u64 list \<times> tlkm_irq_mapping list" where
  "signal_loop s_off cur stat =
     (if stat = 0 then ([], cur)
      else let slot = ffs stat - 1; slot_shifted = word_of_nat slot + s_off;
               cur' = advance cur slot_shifted;
               (es, cur'') = signal_loop s_off cur' (stat XOR push_bit slot 1)
           in (if word_of_int (irq_no (hd cur')) = slot_shifted then (eventfd (hd cur') # es, cur'')
               else (es, cur'')))"
  by pat_completeness auto
termination
  by (relation "measure (\<lambda>(off, cur, w). card {j. bit w j})")
    (use clear_bit_measure ffs_bit in \<open>simp_all del: push_bit_of_1\<close>)

declare signal_loop.simps [simp del]

section \<open>The table follows the list\<close>

text \<open>\<open>g\<close> gives the controller of an interrupt number.\<close>

definition first_of :: "(s32 \<Rightarrow> int) \<Rightarrow> (s32 \<times> u64) list \<Rightarrow> int \<Rightarrow> u64" where
  "first_of g xs k = (case find (\<lambda>(i, p). g i = k) xs of None \<Rightarrow> 0 | Some (i, p) \<Rightarrow> p)"

definition table_inv :: "(s32 \<Rightarrow> int) \<Rightarrow> (s32 \<times> u64) list \<Rightarrow> zynq_irq_mapping list \<Rightarrow> bool" where
  "table_inv g xs cs \<longleftrightarrow> (\<forall>k < length cs. first_mapping (cs ! k) = first_of g xs (int k))"

abbreviation keys :: "tlkm_irq_mapping list \<Rightarrow> (s32 \<times> u64) list" where
  "keys ms \<equiv> map (\<lambda>x. (irq_no x, m_ptr x)) ms"

lemma first_of_Nil [simp]: "first_of g [] k = 0"
  by (simp add: first_of_def)

lemma first_of_Cons [simp]: "first_of g ((i, p) # xs) k = (if g i = k then p else first_of g xs k)"
  by (simp add: first_of_def)

lemma first_of_insert_other:
  "g (irq_no m) \<noteq> k \<Longrightarrow> first_of g (keys (insert_mapping m ms)) k = first_of g (keys ms) k"
  by (induction ms) auto

lemma first_of_zero:
  "ptrs_ok ms \<Longrightarrow> first_of g (keys ms) k = 0 \<longleftrightarrow> (\<forall>x \<in> set ms. g (irq_no x) \<noteq> k)"
  by (induction ms) (auto simp: ptrs_ok_def)

lemma first_of_deref:
  assumes "ptrs_ok ms" and "first_of g (keys ms) k \<noteq> 0"
  shows "\<exists>f \<in> set ms. deref ms (first_of g (keys ms) k) = Some f \<and> g (irq_no f) = k \<and> m_ptr f = first_of g (keys ms) k"
  using assms
proof (induction ms)
  case (Cons x ms)
  show ?case
  proof (cases "g (irq_no x) = k")
    case False
    with Cons obtain f where f: "f \<in> set ms" "deref ms (first_of g (keys ms) k) = Some f" "g (irq_no f) = k"
        "m_ptr f = first_of g (keys ms) k" by (auto simp: ptrs_ok_def)
    moreover have "m_ptr x \<noteq> m_ptr f" using Cons.prems(1) f(1) by (auto simp: ptrs_ok_def)
    ultimately show ?thesis using False by (auto simp: deref_def)
  qed (auto simp: deref_def)
qed simp

lemma first_of_insert_same:
  assumes "irqs_sorted ms" and "ptrs_ok ms" and "irq_no m \<notin> irq_no ` set ms" and "g (irq_no m) = k"
  shows "first_of g (keys (insert_mapping m ms)) k =
    (case deref ms (first_of g (keys ms) k) of
       None \<Rightarrow> m_ptr m | Some f \<Rightarrow> if irq_no f > irq_no m then m_ptr m else m_ptr f)"
  using assms
proof (induction ms)
  case Nil
  then show ?case by (simp add: deref_def)
next
  case (Cons x ms)
  have tl: "irqs_sorted ms" "ptrs_ok ms" "irq_no m \<notin> irq_no ` set ms"
    using Cons.prems by (simp_all add: irqs_sorted_def ptrs_ok_def)
  have ne: "irq_no x \<noteq> irq_no m" using Cons.prems by auto
  show ?case
  proof (cases "irq_no x > irq_no m")
    case True
    have "irq_no f > irq_no m" if "deref (x # ms) q = Some f" for f q
    proof -
      have "f \<in> set (x # ms)" using that by (auto simp: deref_def find_Some_iff nth_mem split: if_splits)
      then show ?thesis using True Cons.prems(1) by (auto simp: irqs_sorted_def)
    qed
    then show ?thesis using True Cons.prems(4) by (auto split: option.splits)
  next
    case le: False
    show ?thesis
    proof (cases "g (irq_no x) = k")
      case True
      then show ?thesis using le ne Cons.prems(4) by (simp add: deref_def)
    next
      case False
      have "m_ptr x \<noteq> 0" "m_ptr x \<notin> m_ptr ` set ms" using Cons.prems(2) by (auto simp: ptrs_ok_def)
      then have "m_ptr x \<noteq> first_of g (keys ms) k"
        using first_of_deref [OF tl(2), of g k] by (metis imageI)
      then show ?thesis using Cons.IH [OF tl Cons.prems(4)] le False by (simp add: deref_def)
    qed
  qed
qed

lemma add_to_controller_ok:
  assumes "irqs_sorted ms" and "ptrs_ok ms" and "irq_no m \<notin> irq_no ` set ms"
    and "table_inv g (keys ms) cs" and "g (irq_no m) = c" and "0 \<le> c" and "c < int (length cs)"
  shows "\<exists>cs'. add_to_controller ms m c cs = Some cs' \<and> length cs' = length cs
    \<and> map irq_start cs' = map irq_start cs \<and> table_inv g (keys (insert_mapping m ms)) cs'"
proof -
  let ?k = "nat c" and ?p = "first_of g (keys ms) c"
  have k: "?k < length cs" "int ?k = c" using assms(6,7) by simp_all
  have fm: "first_mapping (cs ! ?k) = ?p" using assms(4) k by (metis table_inv_def)
  have other: "first_mapping (cs ! j) = first_of g (keys (insert_mapping m ms)) (int j)"
    if "j < length cs" "j \<noteq> ?k" for j
    using assms(4,5) that k first_of_insert_other [of g m "int j" ms] by (auto simp: table_inv_def)
  note same = first_of_insert_same [where g = g, OF assms(1-3,5)]
  let ?new = "cs[?k := (cs ! ?k)\<lparr>first_mapping := m_ptr m\<rparr>]"
  have upd: "table_inv g (keys (insert_mapping m ms)) ?new"
    if "first_of g (keys (insert_mapping m ms)) c = m_ptr m"
    using that other k by (simp add: table_inv_def nth_list_update)
  have keep: "table_inv g (keys (insert_mapping m ms)) cs"
    if "first_of g (keys (insert_mapping m ms)) c = ?p"
    unfolding table_inv_def using that other k fm by metis
  have starts: "map irq_start ?new = map irq_start cs"
    using k(1) by (simp add: map_update list_update_same_conv)
  show ?thesis
  proof (cases "?p = 0")
    case True
    then have "deref ms ?p = None" using assms(2) by (auto simp: deref_def find_None_iff ptrs_ok_def)
    then show ?thesis using True same fm k(1) upd starts assms(6,7) by (simp add: add_to_controller_def Let_def)
  next
    case False
    then obtain f where f: "deref ms ?p = Some f" "m_ptr f = ?p" using first_of_deref [OF assms(2)] by blast
    then show ?thesis using False same fm k(1) upd keep starts assms(6,7)
      by (cases "irq_no f > irq_no m") (simp_all add: add_to_controller_def Let_def)
  qed
qed

lemma remove_from_controller_ok:
  assumes "irqs_sorted (m # ms)" and "ptrs_ok (m # ms)" and "table_inv g (keys (m # ms)) cs"
    and "g (irq_no m) = c" and "0 \<le> c" and "c < int (length cs)"
    and "\<And>x. x \<in> set ms \<Longrightarrow> same (irq_no x) \<longleftrightarrow> g (irq_no x) = c"
    and "\<And>x y. x \<in> set (m # ms) \<Longrightarrow> y \<in> set ms \<Longrightarrow> irq_no x < irq_no y \<Longrightarrow> g (irq_no x) \<le> g (irq_no y)"
  shows "\<exists>cs'. remove_from_controller same (m # ms) m c cs = Some cs' \<and> length cs' = length cs
    \<and> map irq_start cs' = map irq_start cs \<and> table_inv g (keys ms) cs'"
proof -
  let ?k = "nat c" and ?p = "case ms of [] \<Rightarrow> 0 | n # _ \<Rightarrow> if g (irq_no n) = c then m_ptr n else 0"
  have k: "?k < length cs" "int ?k = c" using assms(5,6) by simp_all
  have fm: "first_mapping (cs ! ?k) = m_ptr m" using assms(3,4) k by (auto simp: table_inv_def)
  have nz: "m_ptr m \<noteq> 0" using assms(2) by (auto simp: ptrs_ok_def)
  let ?new = "cs[?k := (cs ! ?k)\<lparr>first_mapping := ?p\<rparr>]"
  have res: "remove_from_controller same (m # ms) m c cs = Some ?new"
    using fm nz k(1) assms(5-7) by (cases ms) (simp_all add: remove_from_controller_def Let_def deref_def)
  have first: "first_of g (keys ms) c = ?p"
  proof (cases ms)
    case (Cons n ns)
    have "g (irq_no x) \<noteq> c" if "g (irq_no n) \<noteq> c" "x \<in> set ns" for x
    proof -
      have "irq_no m < irq_no n" "irq_no n < irq_no x" using assms(1) that(2) Cons by (auto simp: irqs_sorted_def)
      then have "c \<le> g (irq_no n)" "g (irq_no n) \<le> g (irq_no x)"
        using assms(8) [of m n] assms(8) [of n x] assms(4) that(2) Cons by auto
      then show ?thesis using that(1) by simp
    qed
    moreover have "ptrs_ok ns" using assms(2) Cons by (simp add: ptrs_ok_def)
    ultimately show ?thesis using Cons first_of_zero [of ns g c] by auto
  qed simp
  have "table_inv g (keys ms) ?new"
    unfolding table_inv_def using assms(3,4) k first by (auto simp: table_inv_def nth_list_update)
  moreover have "map irq_start ?new = map irq_start cs"
    using k(1) by (simp add: map_update list_update_same_conv)
  ultimately show ?thesis using res by simp
qed

section \<open>What a status word signals\<close>

text \<open>The entries a status word stands for.\<close>

definition hit :: "u32 \<Rightarrow> u32 \<Rightarrow> tlkm_irq_mapping \<Rightarrow> bool" where
  "hit s_off stat m \<longleftrightarrow> (\<exists>i < 32. bit stat i \<and> irq_no m = int (unat s_off + i))"

text \<open>Numbers small enough that the handler's 32-bit arithmetic is exact.\<close>

definition small_irqs :: "tlkm_irq_mapping list \<Rightarrow> bool" where
  "small_irqs ms \<longleftrightarrow> (\<forall>m \<in> set ms. 0 \<le> irq_no m \<and> irq_no m < 2 ^ 31)"

lemma irq_word:
  assumes "0 \<le> i" "i < 2 ^ 31"
  shows "uint (word_of_int i :: u32) = i"
  using assms by (simp add: unsigned_of_int take_bit_int_eq_self)

lemma slot_word:
  assumes "i < 32" "unat (off :: u32) < 2 ^ 16"
  shows "uint (word_of_nat i + off) = int (unat off + i)"
proof -
  have "unat (word_of_nat i + off) = i + unat off"
    using assms by (simp add: unat_word_ariths unat_of_nat take_bit_nat_eq_self)
  then show ?thesis by (metis add.commute of_nat_add uint_nat)
qed

lemma advance_suffix: "\<exists>ds. cur = ds @ advance cur slot"
proof (induction cur slot rule: advance.induct)
  case (1 m n ms slot)
  then show ?case by (cases "word_of_int (irq_no m) < slot") (force intro: exI [of _ "m # ds" for ds])+
qed simp_all

lemma advance_dropped:
  "small_irqs cur \<Longrightarrow> cur = ds @ advance cur slot \<Longrightarrow> x \<in> set ds \<Longrightarrow> irq_no x < uint slot"
proof (induction cur slot arbitrary: ds rule: advance.induct)
  case (1 m n ms slot)
  show ?case
  proof (cases "word_of_int (irq_no m) < slot")
    case True
    have lt: "irq_no m < uint slot"
      using True 1(2) irq_word [of "irq_no m"] by (simp add: small_irqs_def word_less_alt)
    have "length (advance (n # ms) slot) \<le> length (n # ms)"
      using advance_suffix [of "n # ms" slot] by (metis le_add2 length_append)
    moreover have eq: "m # n # ms = ds @ advance (n # ms) slot" using 1(3) True by simp
    ultimately have "ds \<noteq> []" by (cases ds) (auto dest: arg_cong [where f = length])
    then obtain ds' where ds: "ds = m # ds'" using eq by (cases ds) auto
    show ?thesis using 1(1) [OF True, of ds'] 1(2-4) True lt ds by (auto simp: small_irqs_def)
  next
    case False
    then show ?thesis using 1(3,4) by simp
  qed
qed simp_all

lemma advance_hd:
  assumes "irqs_sorted cur" and "small_irqs cur" and "cur \<noteq> []"
  shows "advance cur slot \<noteq> [] \<and> (\<forall>x \<in> set (tl (advance cur slot)). uint slot < irq_no x)"
  using assms
proof (induction cur slot rule: advance.induct)
  case (1 m n ms slot)
  show ?case
  proof (cases "word_of_int (irq_no m) < slot")
    case True
    then show ?thesis using 1 by (simp add: irqs_sorted_def small_irqs_def)
  next
    case False
    then have "uint slot \<le> irq_no m"
      using 1(3) irq_word [of "irq_no m"] by (simp add: small_irqs_def word_less_alt)
    then show ?thesis using False 1(2) by (auto simp: irqs_sorted_def)
  qed
qed simp_all

lemma signal_loop_step:
  assumes "stat \<noteq> 0" and "c' = advance cur (word_of_nat (ffs stat - 1) + s_off)"
  shows "fst (signal_loop s_off cur stat) =
    (if word_of_int (irq_no (hd c')) = (word_of_nat (ffs stat - 1) + s_off :: u32)
     then [eventfd (hd c')] else []) @ fst (signal_loop s_off c' (stat XOR push_bit (ffs stat - 1) 1))"
  using assms by (subst signal_loop.simps) (simp add: Let_def case_prod_beta del: push_bit_of_1)

text \<open>A pass of the loop signals exactly the entries the status word stands for, in order.\<close>

lemma signal_loop_exact:
  assumes "irqs_sorted cur" and "small_irqs cur" and "cur \<noteq> []" and "unat s_off < 2 ^ 16"
  shows "fst (signal_loop s_off cur stat) = map eventfd (filter (hit s_off stat) cur)"
  using assms
proof (induction s_off cur stat rule: signal_loop.induct)
  case (1 s_off cur stat)
  show ?case
  proof (cases "stat = 0")
    case True
    then show ?thesis by (simp add: signal_loop.simps hit_def)
  next
    case False
    let ?slot = "ffs stat - 1"
    let ?s = "word_of_nat ?slot + s_off :: u32" and ?stat = "stat XOR push_bit ?slot 1"
    define c' where "c' = advance cur ?s"
    note b = ffs_bit [OF False]
    have s: "uint ?s = int (unat s_off + ?slot)" using b 1(5) by (intro slot_word) simp_all
    obtain ds where ds: "cur = ds @ c'" using advance_suffix unfolding c'_def by blast
    have hd: "c' \<noteq> []" "\<forall>x \<in> set (tl c'). uint ?s < irq_no x"
      using advance_hd [OF 1(2-4), of ?s] unfolding c'_def by simp_all
    have tails: "irqs_sorted c'" "small_irqs c'"
      using 1(2,3) unfolding ds by (simp_all add: irqs_sorted_def small_irqs_def sorted_wrt_append)
    have bits: "bit ?stat j \<longleftrightarrow> bit stat j \<and> j \<noteq> ?slot" for j
      using b bit_imp_le_length [of stat j] by (auto simp: bit_simps)
    have hit': "hit s_off ?stat x \<longleftrightarrow> hit s_off stat x \<and> irq_no x \<noteq> uint ?s" for x
      unfolding hit_def bits s by auto
    have low: "\<not> hit s_off stat x" if "irq_no x < uint ?s" for x
      using that b unfolding hit_def s by (metis less_imp_of_nat_less nat_add_left_cancel_less not_less_iff_gr_or_eq of_nat_less_iff)
    have drop: "filter (hit s_off stat) cur = filter (hit s_off stat) c'"
    proof -
      have "filter (hit s_off stat) ds = []"
        using low advance_dropped [OF 1(3) ds [unfolded c'_def]] by (auto simp: filter_empty_conv)
      then show ?thesis unfolding ds by simp
    qed
    obtain h t where ht: "c' = h # t" using hd(1) by (cases c') auto
    have later: "uint ?s < irq_no x" if "x \<in> set t" for x
      using hd(2) ht that by simp
    have fil: "filter (hit s_off stat) t = filter (hit s_off ?stat) t"
    proof (rule filter_cong [OF refl])
      fix x assume "x \<in> set t"
      then have "irq_no x \<noteq> uint ?s" using later by (metis less_irrefl)
      then show "hit s_off stat x = hit s_off ?stat x" unfolding hit' by blast
    qed
    have h: "(word_of_int (irq_no h) = ?s) = (irq_no h = uint ?s)"
      using tails(2) ht irq_word [of "irq_no h"] by (auto simp: small_irqs_def word_uint_eq_iff)
    have IH: "fst (signal_loop s_off c' ?stat) = map eventfd (filter (hit s_off ?stat) c')"
      using 1(1) [OF False refl refl c'_def] tails hd(1) 1(5) by simp
    have hitself: "hit s_off stat h" if "irq_no h = uint ?s"
      using that b unfolding hit_def s by blast
    have "fst (signal_loop s_off cur stat) =
        (if irq_no h = uint ?s then [eventfd h] else []) @ fst (signal_loop s_off c' ?stat)"
      unfolding signal_loop_step [OF False c'_def] using h ht by simp
    then show ?thesis unfolding IH drop using ht fil hitself hit' [of h] by auto
  qed
qed

text \<open>Walking from the first entry of a controller misses no entry of that controller.\<close>

lemma from_first:
  assumes "ptrs_ok ms" and "first_of g (keys ms) k = p" and "p \<noteq> 0" and "\<And>m. P m \<Longrightarrow> g (irq_no m) = k"
  shows "dropWhile (\<lambda>m. m_ptr m \<noteq> p) ms \<noteq> [] \<and> filter P (dropWhile (\<lambda>m. m_ptr m \<noteq> p) ms) = filter P ms"
  using assms(1,2)
proof (induction ms)
  case Nil
  then show ?case using assms(3) by simp
next
  case (Cons x ms)
  show ?case
  proof (cases "g (irq_no x) = k")
    case True
    then show ?thesis using Cons.prems by simp
  next
    case False
    have ok: "ptrs_ok ms" "first_of g (keys ms) k = p" using Cons.prems False by (simp_all add: ptrs_ok_def)
    have "m_ptr x \<notin> m_ptr ` set ms" using Cons.prems(1) by (simp add: ptrs_ok_def)
    then have "m_ptr x \<noteq> p" using first_of_deref [OF ok(1), of g k] ok(2) assms(3) by (metis imageI)
    moreover have "\<not> P x" using False assms(4) by blast
    ultimately show ?thesis using Cons.IH [OF ok] by simp
  qed
qed

end
