(* ===== verification/Zynq_Irq.thy ===== *)
theory Zynq_Irq
  imports Irq_Controllers Kernel_Env
begin

text \<open>
  Interrupts of the Zynq platforms, \<^verbatim>\<open>zynq/zynq_irq.c\<close>: up to four controllers of 32 lines
  each, set up at device initialisation, and a handler that finds the registered event files
  behind the bits of a controller's status register. The values read from the register are an
  argument of the handler (0 once the list is used up).
\<close>

unbundle bit_operations_syntax

section \<open>Registration\<close>

definition ZYNQ_MAX_NUM_INTCS :: nat where
  [tlkm_const]: "ZYNQ_MAX_NUM_INTCS = 4"

definition zynq_irq_request_platform_irq :: "zynq_irq_mapping list pirq_fn" where
  "zynq_irq_request_platform_irq ms m cs =
     map_option (Pair 0) (add_to_controller ms m (irq_no m sdiv IRQS_PER_CONTROLLER) cs)"

definition zynq_irq_release_platform_irq :: "zynq_irq_mapping list rirq_fn" where
  "zynq_irq_release_platform_irq ms m cs =
     (let irq_controller = irq_no m sdiv IRQS_PER_CONTROLLER
      in remove_from_controller (\<lambda>i. i sdiv IRQS_PER_CONTROLLER = irq_controller) ms m irq_controller cs)"

section \<open>Handler\<close>

text \<open>The loop over the bits. The offset of the controller is added to the slot before the bit is
  cleared; for the controllers behind the first one the shift distance is at least 32,
  which C leaves undefined: \<^const>\<open>None\<close>.\<close>

partial_function (option) zynq_signal_loop ::
  "u32 \<Rightarrow> tlkm_irq_mapping list \<Rightarrow> u32 \<Rightarrow> (u64 list \<times> tlkm_irq_mapping list) option" where
  "zynq_signal_loop s_off cur stat =
     (if stat = 0 then Some ([], cur)
      else let slot = word_of_nat (ffs stat - 1) + s_off; cur' = advance cur slot
           in if unat slot < 32
              then Option.bind (zynq_signal_loop s_off cur' (stat XOR push_bit (unat slot) 1))
                     (\<lambda>(es, cur''). Some (if word_of_int (irq_no (hd cur')) = slot
                                           then (eventfd (hd cur') # es, cur'') else (es, cur'')))
              else None)"

fun zynq_rounds :: "u32 \<Rightarrow> tlkm_irq_mapping list \<Rightarrow> u32 list \<Rightarrow> (u64 list \<times> u32 list) option" where
  "zynq_rounds s_off cur [] = Some ([], [])"
| "zynq_rounds s_off cur (stat # reads) =
     (if stat = 0 then Some ([], [])
      else case zynq_signal_loop s_off cur stat of
             None \<Rightarrow> None
           | Some (es, cur') \<Rightarrow>
              (case zynq_rounds s_off cur' reads of
                 None \<Rightarrow> None
               | Some (es', acks) \<Rightarrow> Some (es @ es', stat # acks)))"

text \<open>Result: the event files signalled and the values written to the acknowledge register.\<close>

definition zynq_irq_handler :: "tlkm_irq_mapping list \<Rightarrow> zynq_irq_mapping \<Rightarrow> u32 list
    \<Rightarrow> (u64 list \<times> u32 list) option" where
  "zynq_irq_handler ms b reads =
     (if first_mapping b = 0 then Some ([], [])
      else zynq_rounds (irq_start b) (dropWhile (\<lambda>m. m_ptr m \<noteq> first_mapping b) ms) reads)"

section \<open>Set-up and removal of the controllers\<close>

datatype zcall =
    Intc_write u64 nat u32 | Intc_read u64 nat   \<comment> \<open>register of the controller at an address\<close>
  | Kzalloc_name nat
  | Request_irq int nat int    \<comment> \<open>line, index of the controller, name\<close>
  | Disable_irq int
  | Free_irq int nat           \<comment> \<open>returns the name given at the request\<close>
  | Kfree_name int

record zirq =
  intc_bases :: "zynq_irq_mapping list"
  requested_irq_num :: int

type_synonym 'r zm = "(zcall, zirq, 'r) km"

definition zynq_init_intc :: "zcall kenv \<Rightarrow> u64 \<Rightarrow> unit zm" where
  "zynq_init_intc K a = do {
     kdo K (Intc_write a 2 (- 1));
     kdo K (Intc_write a 7 3);
     kdo K (Intc_read a 0)
   }"

text \<open>The error path: the same line \<open>rirq\<close> is used for all controllers.\<close>

fun irq_init_err :: "zcall kenv \<Rightarrow> int \<Rightarrow> nat \<Rightarrow> unit zm" where
  "irq_init_err K rirq 0 = modd (\<lambda>d. d\<lparr>requested_irq_num := - 1\<rparr>)"
| "irq_init_err K rirq (Suc k) = do {
     modd (\<lambda>d. d\<lparr>requested_irq_num := int k\<rparr>);
     kdo K (Disable_irq rirq);
     kdo K (Free_irq rirq k);
     irq_init_err K rirq k
   }"

text \<open>\<open>irq_map\<close>: \<^verbatim>\<open>irq_of_parse_and_map\<close> for the device tree node; \<open>plat_base\<close>: mapping of the platform
  registers; \<open>intc_off i\<close>: base of component \<^verbatim>\<open>PLATFORM_COMPONENT_INTC\<close>\<open>i\<close>, -1 if there is none. The loop
  variable is \<open>i\<close>, the number of rounds left \<open>n\<close>.\<close>

fun irq_init_loop :: "zcall kenv \<Rightarrow> (int \<Rightarrow> int) \<Rightarrow> u64 \<Rightarrow> (nat \<Rightarrow> u64) \<Rightarrow> nat \<Rightarrow> nat \<Rightarrow> int zm" where
  "irq_init_loop K irq_map plat_base intc_off i 0 = State_Monad.return 0"
| "irq_init_loop K irq_map plat_base intc_off i (Suc n) = do {
     num \<leftarrow> getd requested_irq_num;
     let rirq = irq_map num;
     if intc_off i \<noteq> - 1
     then do {
       modd (\<lambda>d. d\<lparr>intc_bases := (intc_bases d)[i := \<lparr>first_mapping = 0, intc = plat_base + intc_off i,
          irq_start = word_of_nat (i * 32), intc_id = word_of_nat i\<rparr>]\<rparr>);
       zynq_init_intc K (plat_base + intc_off i);
       namebuf \<leftarrow> kcall K (Kzalloc_name i);
       retval \<leftarrow> kcall K (Request_irq rirq i namebuf);
       modd (\<lambda>d. d\<lparr>requested_irq_num := requested_irq_num d + 1\<rparr>);
       if retval \<noteq> 0
       then do { irq_init_err K rirq (nat (num + 1)); State_Monad.return retval }
       else irq_init_loop K irq_map plat_base intc_off (i + 1) n
     }
     else irq_init_loop K irq_map plat_base intc_off (i + 1) n
   }"

definition zynq_irq_init :: "zcall kenv \<Rightarrow> (int \<Rightarrow> int) \<Rightarrow> u64 \<Rightarrow> (nat \<Rightarrow> u64) \<Rightarrow> int zm" where
  "zynq_irq_init K irq_map plat_base intc_off = do {
     modd (\<lambda>d. d\<lparr>requested_irq_num := 0\<rparr>);
     irq_init_loop K irq_map plat_base intc_off 0 ZYNQ_MAX_NUM_INTCS
   }"

fun irq_exit_loop :: "zcall kenv \<Rightarrow> (int \<Rightarrow> int) \<Rightarrow> nat \<Rightarrow> unit zm" where
  "irq_exit_loop K irq_map 0 = State_Monad.return ()"
| "irq_exit_loop K irq_map (Suc k) = do {
     modd (\<lambda>d. d\<lparr>requested_irq_num := int k\<rparr>);
     let rirq = irq_map (int k);
     kdo K (Disable_irq rirq);
     namebuf \<leftarrow> kcall K (Free_irq rirq k);
     (if namebuf \<noteq> 0 then kdo K (Kfree_name namebuf) else State_Monad.return ());
     irq_exit_loop K irq_map k
   }"

definition zynq_irq_exit :: "zcall kenv \<Rightarrow> (int \<Rightarrow> int) \<Rightarrow> unit zm" where
  "zynq_irq_exit K irq_map = do {
     num \<leftarrow> getd requested_irq_num;
     irq_exit_loop K irq_map (nat num)
   }"

section \<open>Registration keeps table and list together\<close>

definition zynq_valid :: "s32 \<Rightarrow> bool" where
  "zynq_valid i \<longleftrightarrow> 0 \<le> i \<and> i < 128"

definition zynq_ctl :: "s32 \<Rightarrow> int" where
  "zynq_ctl i = i sdiv IRQS_PER_CONTROLLER"

definition zynq_cinv :: "(s32 \<times> u64) list \<Rightarrow> zynq_irq_mapping list \<Rightarrow> bool" where
  "zynq_cinv xs cs \<longleftrightarrow> length cs = ZYNQ_MAX_NUM_INTCS \<and> table_inv zynq_ctl xs cs
     \<and> map irq_start cs = [0, 32, 64, 96]"

lemma zynq_ctl_div: "0 \<le> i \<Longrightarrow> zynq_ctl i = i div 32"
  by (simp add: zynq_ctl_def IRQS_PER_CONTROLLER_def signed_divide_int_def sgn_if)

interpretation zynq: irq_provider zynq_irq_request_platform_irq zynq_irq_release_platform_irq zynq_cinv zynq_valid
proof
  fix ms and m :: tlkm_irq_mapping and cs
  assume a: "irqs_sorted ms" "ptrs_ok ms" "zynq_cinv (keys ms) cs" "zynq_valid (irq_no m)"
    "irq_no m \<notin> irq_no ` set ms"
  have "0 \<le> zynq_ctl (irq_no m)" "zynq_ctl (irq_no m) < int (length cs)"
    using a(3,4) by (auto simp: zynq_ctl_div zynq_valid_def zynq_cinv_def ZYNQ_MAX_NUM_INTCS_def)
  from add_to_controller_ok [where g = zynq_ctl, OF a(1,2,5) _ refl this] a(3)
  show "\<exists>r cs'. zynq_irq_request_platform_irq ms m cs = Some (r, cs') \<and>
      zynq_cinv (keys (if r = 0 then insert_mapping m ms else ms)) cs'"
    by (fastforce simp: zynq_irq_request_platform_irq_def zynq_cinv_def zynq_ctl_def)
next
  fix ms and m :: tlkm_irq_mapping and cs
  assume a: "irqs_sorted (m # ms)" "ptrs_ok (m # ms)" "list_all (zynq_valid \<circ> irq_no) (m # ms)"
    "zynq_cinv (keys (m # ms)) cs"
  have v: "zynq_valid (irq_no x)" if "x \<in> set (m # ms)" for x :: tlkm_irq_mapping using a(3) that by (auto simp: list_all_iff)
  have mono: "zynq_ctl (irq_no x) \<le> zynq_ctl (irq_no y)"
    if "x \<in> set (m # ms)" "y \<in> set ms" "irq_no x < irq_no y" for x y :: tlkm_irq_mapping
    using that v [of x] v [of y] by (simp add: zynq_ctl_div zynq_valid_def zdiv_mono1)
  have "0 \<le> zynq_ctl (irq_no m)" "zynq_ctl (irq_no m) < int (length cs)"
    using a(4) v [of m] by (auto simp: zynq_ctl_div zynq_valid_def zynq_cinv_def ZYNQ_MAX_NUM_INTCS_def)
  from remove_from_controller_ok [where g = zynq_ctl, OF a(1,2) _ refl this, where same = "\<lambda>i. zynq_ctl i = zynq_ctl (irq_no m)"] a(4) mono
  show "\<exists>cs'. zynq_irq_release_platform_irq (m # ms) m cs = Some cs' \<and> zynq_cinv (keys ms) cs'"
    by (fastforce simp: zynq_irq_release_platform_irq_def zynq_cinv_def zynq_ctl_def)
qed

text \<open>Runs of the control file: registrations of interrupts the hardware has, and the release of
  the file.\<close>

inductive zynq_irq_reach :: "tlkm_irq_mapping list \<Rightarrow> zynq_irq_mapping list \<Rightarrow> bool" where
  zynq_irq_start: "length cs = 4 \<Longrightarrow> map irq_start cs = [0, 32, 64, 96] \<Longrightarrow>
    (\<forall>b \<in> set cs. first_mapping b = 0) \<Longrightarrow> zynq_irq_reach [] cs"
| zynq_irq_reg: "zynq_irq_reach ms cs \<Longrightarrow> zynq_valid (pe_id s) \<Longrightarrow> p \<noteq> 0 \<Longrightarrow> p \<notin> m_ptr ` set ms \<Longrightarrow>
    tlkm_device_reg_int zynq_irq_request_platform_irq copy_ok p fdget s ms cs = Some (r, ms', cs') \<Longrightarrow>
    zynq_irq_reach ms' cs'"
| zynq_irq_release: "zynq_irq_reach ms cs \<Longrightarrow>
    tlkm_control_release zynq_irq_release_platform_irq None ms cs = Some (r, puts, ms', cs') \<Longrightarrow>
    zynq_irq_reach ms' cs'"

lemma zynq_irq_reach_inv: "zynq_irq_reach ms cs \<Longrightarrow> zynq.irq_inv ms cs"
proof (induction rule: zynq_irq_reach.induct)
  case (zynq_irq_start cs)
  then show ?case unfolding zynq.irq_inv_def
    by (simp add: irqs_sorted_def ptrs_ok_def zynq_cinv_def table_inv_def ZYNQ_MAX_NUM_INTCS_def)
next
  case (zynq_irq_reg ms cs s p copy_ok fdget r ms' cs')
  then show ?case using zynq.reg_int_inv [of ms cs s p copy_ok fdget] by auto
next
  case (zynq_irq_release ms cs r puts ms' cs')
  then show ?case using zynq.control_release_inv [of ms cs] by auto
qed

text \<open>For the first controller the loop is the one of the other platforms; behind it, it is
  undefined as soon as there is an interrupt.\<close>

lemma zynq_signal_loop_first: "zynq_signal_loop 0 cur stat = Some (signal_loop 0 cur stat)"
proof (induction "0 :: u32" cur stat rule: signal_loop.induct)
  case (1 cur stat)
  show ?case
  proof (cases "stat = 0")
    case True
    then show ?thesis by (simp add: zynq_signal_loop.simps signal_loop.simps)
  next
    case False
    have lt: "ffs stat - 1 < 32" using ffs_bit [OF False] by simp
    then have u: "unat (word_of_nat (ffs stat - 1) :: u32) = ffs stat - 1"
      by (simp add: unat_of_nat take_bit_nat_eq_self)
    note IH = 1 [OF False refl refl refl]
    show ?thesis using False lt u IH
      by (subst zynq_signal_loop.simps, subst signal_loop.simps)
        (simp add: Let_def case_prod_beta del: push_bit_of_1)
  qed
qed

lemma zynq_signal_loop_undefined:
  assumes "stat \<noteq> 0" and "32 \<le> unat s_off" and "unat s_off < 2 ^ 16"
  shows "zynq_signal_loop s_off cur stat = None"
proof -
  have "ffs stat - 1 < 32" using ffs_bit [OF assms(1)] by simp
  then have "uint (word_of_nat (ffs stat - 1) + s_off) = int (unat s_off + (ffs stat - 1))"
    using assms(3) by (intro slot_word) simp_all
  then have "int (unat (word_of_nat (ffs stat - 1) + s_off)) = int (unat s_off + (ffs stat - 1))" by simp
  then have "unat (word_of_nat (ffs stat - 1) + s_off) = unat s_off + (ffs stat - 1)" by linarith
  then show ?thesis using assms(1,2) by (subst zynq_signal_loop.simps) (simp add: Let_def)
qed


definition demo_ctls :: "zynq_irq_mapping list" where
  "demo_ctls = map (\<lambda>i. \<lparr>first_mapping = 0, intc = 0, irq_start = word_of_nat (i * 32), intc_id = word_of_nat i\<rparr>) [0..<4]"

lemma demo_reg:
  "\<exists>cs. zynq_irq_reach [\<lparr>m_ptr = 4096, irq_no = 3, eventfd = 77\<rparr>] cs"
proof -
  let ?s = "\<lparr>pe_id = 3, int_fd = 9\<rparr>"
  have start: "zynq_irq_reach [] demo_ctls"
    by (rule zynq_irq_start) (simp_all add: demo_ctls_def upt_conv_Cons)
  obtain r ms' cs' where r: "tlkm_device_reg_int zynq_irq_request_platform_irq True 4096 (\<lambda>_. 77) ?s [] demo_ctls
      = Some (r, ms', cs')" "r \<noteq> 0 \<longrightarrow> ms' = []" "r = 0 \<longrightarrow> set ms' = {\<lparr>m_ptr = 4096, irq_no = 3, eventfd = 77\<rparr>}"
    using zynq.reg_int_inv [OF zynq_irq_reach_inv [OF start], of ?s 4096 True "\<lambda>_. 77"]
    by (auto simp: zynq_valid_def)
  have "r = 0 \<and> ms' = [\<lparr>m_ptr = 4096, irq_no = 3, eventfd = 77\<rparr>]"
    using r(1)
    by (auto simp: tlkm_device_reg_int_def zynq_irq_request_platform_irq_def Let_def split: option.splits)
  moreover have "zynq_irq_reach ms' cs'"
    by (rule zynq_irq_reg [OF start _ _ _ r(1)]) (simp_all add: zynq_valid_def)
  ultimately show ?thesis by auto
qed


text \<open>C23: Registration of interrupts. In every reachable state the list is sorted strictly by
  interrupt number, so no number is registered twice, and each controller points to the
  first entry of its range, or nowhere if it has none; and when the file is closed, every
  event file context is given back exactly once, in order, and all controllers are empty.\<close>

theorem zynq_irq_registration:
  assumes "zynq_irq_reach ms cs"
  shows "sorted_wrt (\<lambda>a b. irq_no a < irq_no b) ms
    \<and> (\<forall>k < 4. first_mapping (cs ! k) =
         (case find (\<lambda>m. irq_no m div 32 = int k) ms of None \<Rightarrow> 0 | Some m \<Rightarrow> m_ptr m))
    \<and> (\<exists>cs'. tlkm_control_release zynq_irq_release_platform_irq None ms cs = Some (0, map eventfd ms, [], cs')
         \<and> (\<forall>k < 4. first_mapping (cs' ! k) = 0))"
proof -
  have inv: "zynq.irq_inv ms cs" by (rule zynq_irq_reach_inv [OF assms])
  have "first_of zynq_ctl (keys xs) k = (case find (\<lambda>m. irq_no m div 32 = k) xs of None \<Rightarrow> 0 | Some m \<Rightarrow> m_ptr m)"
    if "\<forall>m \<in> set xs. 0 \<le> irq_no m" for xs :: "tlkm_irq_mapping list" and k
    using that by (induction xs) (auto simp: zynq_ctl_div)
  moreover have "\<forall>m \<in> set ms. 0 \<le> irq_no m" "length cs = 4" "table_inv zynq_ctl (keys ms) cs"
    "sorted_wrt (\<lambda>a b. irq_no a < irq_no b) ms"
    using inv by (auto simp: zynq.irq_inv_def list_all_iff zynq_valid_def zynq_cinv_def
        ZYNQ_MAX_NUM_INTCS_def irqs_sorted_def)
  moreover obtain cs' where cs': "tlkm_control_release zynq_irq_release_platform_irq None ms cs
      = Some (0, map eventfd ms, [], cs')" "zynq.irq_inv [] cs'"
    using zynq.control_release_inv [OF inv] by blast
  moreover have "\<forall>k < 4. first_mapping (cs' ! k) = 0"
    using cs'(2) by (simp add: zynq.irq_inv_def zynq_cinv_def table_inv_def ZYNQ_MAX_NUM_INTCS_def)
  ultimately show ?thesis by (simp add: table_inv_def)
qed

theorem zynq_irq_registration_witness:
  "\<exists>cs cs'. tlkm_control_release zynq_irq_release_platform_irq None
     [\<lparr>m_ptr = 4096, irq_no = 3, eventfd = 77\<rparr>] cs = Some (0, [77], [], cs')"
proof -
  obtain cs where "zynq_irq_reach [\<lparr>m_ptr = 4096, irq_no = 3, eventfd = 77\<rparr>] cs" using demo_reg by blast
  from zynq_irq_registration [OF this] show ?thesis by auto
qed

text \<open>An interrupt number behind the last controller is not refused: the access to the table is
  out of range.\<close>

lemma zynq_irq_request_out_of_range:
  assumes "length cs = 4" and "128 \<le> irq_no m"
  shows "zynq_irq_request_platform_irq ms m cs = None"
proof -
  have "zynq_ctl (irq_no m) \<ge> 4" using assms(2) by (simp add: zynq_ctl_div)
  then show ?thesis using assms(1)
    by (simp add: zynq_irq_request_platform_irq_def add_to_controller_def zynq_ctl_def)
qed

text \<open>An interrupt of the second controller makes the handler shift by more than 31.\<close>

lemma zynq_irq_second_controller:
  "zynq_irq_handler [\<lparr>m_ptr = 4096, irq_no = 33, eventfd = 77\<rparr>]
     \<lparr>first_mapping = 4096, intc = 0, irq_start = 32, intc_id = 1\<rparr> [2] = None"
  using zynq_signal_loop_undefined [of 2 32] by (simp add: zynq_irq_handler_def)

text \<open>The position in the list is not reset when the status register is read again: an interrupt
  that arrives during the first round, on a lower line, is acknowledged but not signalled.\<close>

lemma zynq_irq_second_round:
  "\<exists>acks. zynq_irq_handler [\<lparr>m_ptr = 4096, irq_no = 0, eventfd = 70\<rparr>, \<lparr>m_ptr = 8192, irq_no = 1, eventfd = 71\<rparr>]
     \<lparr>first_mapping = 4096, intc = 0, irq_start = 0, intc_id = 0\<rparr> [2, 1] = Some ([71], acks)"
proof -
  have f: "ffs 2 = 2" "ffs 1 = 1" "ffs 0 = 0"
    by (simp_all add: ffs_def upt_conv_Cons bit_iff_odd drop_bit_eq_div)
  show ?thesis
    by (simp add: zynq_irq_handler_def zynq_signal_loop_first signal_loop.simps f)
qed

section \<open>Lines and names of the controllers\<close>

datatype zresource = Irq_line int nat | Irq_name int

fun zacq :: "zcall \<Rightarrow> int \<Rightarrow> zresource option" where
  "zacq (Kzalloc_name i) p = (if p = 0 then None else Some (Irq_name p))"
| "zacq (Request_irq r i n) e = (if e = 0 then Some (Irq_line r i) else None)"
| "zacq c r = None"

fun zrel :: "zcall \<Rightarrow> zresource option" where
  "zrel (Free_irq r i) = Some (Irq_line r i)"
| "zrel (Kfree_name p) = (if p = 0 then None else Some (Irq_name p))"
| "zrel c = None"

definition zlive :: "(zcall, 'd) kst \<Rightarrow> zresource multiset option" where
  "zlive s = live zacq zrel (trace s) {#}"

text \<open>The name under which a line was requested last.\<close>

fun name_of :: "(zcall \<times> int) list \<Rightarrow> int \<Rightarrow> nat \<Rightarrow> int \<Rightarrow> int" where
  "name_of [] r i d = d"
| "name_of ((Request_irq r' i' n, e) # tr) r i d =
     name_of tr r i (if r' = r \<and> i' = i \<and> e = 0 then n else d)"
| "name_of (c # tr) r i d = name_of tr r i d"

text \<open>Documented behaviour of the kernel: \<^verbatim>\<open>free_irq\<close> returns the name passed to \<^verbatim>\<open>request_irq\<close>, and
  \<^verbatim>\<open>kzalloc\<close> is assumed to succeed, as the code does.\<close>

definition irq_env :: "zcall kenv \<Rightarrow> bool" where
  "irq_env K \<longleftrightarrow> (\<forall>tr r i. K tr (Free_irq r i) = name_of tr r i 0) \<and> (\<forall>tr i. K tr (Kzalloc_name i) \<noteq> 0)"

lemma name_of_append: "name_of (tr @ tr') r i d = name_of tr' r i (name_of tr r i d)"
  by (induction tr r i d rule: name_of.induct) simp_all

text \<open>The lines and names of the first \<open>k\<close> controllers.\<close>

fun held :: "(int \<Rightarrow> int) \<Rightarrow> (nat \<Rightarrow> int) \<Rightarrow> nat \<Rightarrow> zresource multiset" where
  "held irq_map nm 0 = {#}"
| "held irq_map nm (Suc k) = {#Irq_line (irq_map (int k)) k, Irq_name (nm k)#} + held irq_map nm k"

definition irqs_up :: "(int \<Rightarrow> int) \<Rightarrow> zresource multiset \<Rightarrow> nat \<Rightarrow> (zcall, zirq) kst \<Rightarrow> bool" where
  "irqs_up irq_map rs k s \<longleftrightarrow> requested_irq_num (dat s) = int k
     \<and> (\<exists>nm. (\<forall>j < k. name_of (trace s) (irq_map (int j)) j 0 = nm j \<and> nm j \<noteq> 0)
          \<and> zlive s = Some (held irq_map nm k + rs))"

lemma held_cong: "(\<And>j. j < k \<Longrightarrow> nm j = nm' j) \<Longrightarrow> held irq_map nm k = held irq_map nm' k"
  by (induction k) simp_all

lemma irq_step_up:
  assumes "irq_env K" and "irqs_up irq_map rs k s"
    and "s' = s\<lparr>trace := trace s @ [(Intc_write a 2 (- 1), w1), (Intc_write a 7 3, w2), (Intc_read a 0, w3),
           (Kzalloc_name k, p), (Request_irq (irq_map (int k)) k p, 0)],
         dat := dat s\<lparr>intc_bases := bs, requested_irq_num := int k + 1\<rparr>\<rparr>" and "p \<noteq> 0"
  shows "irqs_up irq_map rs (Suc k) s'"
proof -
  obtain nm where nm: "\<forall>j < k. name_of (trace s) (irq_map (int j)) j 0 = nm j \<and> nm j \<noteq> 0"
      "zlive s = Some (held irq_map nm k + rs)" using assms(2) by (auto simp: irqs_up_def)
  let ?nm = "nm(k := p)"
  have "\<forall>j < Suc k. name_of (trace s') (irq_map (int j)) j 0 = ?nm j \<and> ?nm j \<noteq> 0"
    using nm(1) assms(3,4) by (auto simp: name_of_append less_Suc_eq)
  moreover have "held irq_map ?nm k = held irq_map nm k" by (rule held_cong) simp
  then have "zlive s' = Some (held irq_map ?nm (Suc k) + rs)"
    using nm(2) assms(3,4) by (simp add: zlive_def live_append)
  ultimately show ?thesis unfolding irqs_up_def using assms(3) by (auto intro!: exI [of _ ?nm])
qed

lemma irq_init_loop_up:
  assumes "irq_env K" and "\<forall>i < 4. intc_off i \<noteq> - 1 \<longleftrightarrow> i < N" and "i + n = 4"
    and "irqs_up irq_map rs (min i N) s" and "run_state (irq_init_loop K irq_map plat_base intc_off i n) s = (0, s')"
  shows "irqs_up irq_map rs (min 4 N) s'"
  using assms(3-)
proof (induction n arbitrary: i s)
  case 0
  then show ?case by simp
next
  case (Suc n)
  have i: "i < 4" using Suc.prems(1) by simp
  show ?case
  proof (cases "i < N")
    case False
    then have "intc_off i = - 1" "min i N = min (i + 1) N" using assms(2) i by auto
    then show ?thesis using Suc.IH [of "i + 1" s] Suc.prems by (simp add: Let_def)
  next
    case True
    have off: "intc_off i \<noteq> - 1" using assms(2) i True by auto
    have num: "requested_irq_num (dat s) = int i" using Suc.prems(2) True by (simp add: irqs_up_def)
    let ?a = "plat_base + intc_off i"
    obtain w1 w2 w3 p r where
      tr: "K (trace s @ [(Intc_write ?a 2 (- 1), w1), (Intc_write ?a 7 3, w2), (Intc_read ?a 0, w3)]) (Kzalloc_name i) = p"
      "K (trace s @ [(Intc_write ?a 2 (- 1), w1), (Intc_write ?a 7 3, w2), (Intc_read ?a 0, w3), (Kzalloc_name i, p)])
         (Request_irq (irq_map (int i)) i p) = r"
      "w1 = K (trace s) (Intc_write ?a 2 (- 1))"
      "w2 = K (trace s @ [(Intc_write ?a 2 (- 1), w1)]) (Intc_write ?a 7 3)"
      "w3 = K (trace s @ [(Intc_write ?a 2 (- 1), w1), (Intc_write ?a 7 3, w2)]) (Intc_read ?a 0)" by blast
    let ?b = "\<lparr>first_mapping = 0, intc = ?a, irq_start = word_of_nat (i * 32), intc_id = word_of_nat i\<rparr>"
    let ?t = "s\<lparr>trace := trace s @ [(Intc_write ?a 2 (- 1), w1), (Intc_write ?a 7 3, w2), (Intc_read ?a 0, w3),
           (Kzalloc_name i, p), (Request_irq (irq_map (int i)) i p, r)],
         dat := dat s\<lparr>intc_bases := (intc_bases (dat s))[i := ?b], requested_irq_num := int i + 1\<rparr>\<rparr>"
    have run: "run_state (irq_init_loop K irq_map plat_base intc_off i (Suc n)) s =
        (if r \<noteq> 0 then run_state (do { irq_init_err K (irq_map (int i)) (nat (int i + 1)); State_Monad.return r }) ?t
         else run_state (irq_init_loop K irq_map plat_base intc_off (i + 1) n) ?t)"
      using off num tr by (simp add: Let_def zynq_init_intc_def)
    have r0: "r = 0" using run Suc.prems(3) by (auto split: if_splits prod.splits)
    have "p \<noteq> 0" using assms(1) tr(1) by (auto simp: irq_env_def)
    then have "irqs_up irq_map rs (Suc i) ?t"
      using irq_step_up [OF assms(1), of irq_map rs i s] Suc.prems(2) True r0 by simp
    then show ?thesis
      using Suc.IH [of "i + 1" ?t] run r0 Suc.prems(1,3) True by (simp add: min_def)
  qed
qed

lemma irq_exit_loop_down:
  assumes "irq_env K" and "irqs_up irq_map rs k s"
  shows "zlive (snd (run_state (irq_exit_loop K irq_map k) s)) = Some rs
    \<and> requested_irq_num (dat (snd (run_state (irq_exit_loop K irq_map k) s))) = 0"
  using assms(2)
proof (induction k arbitrary: s)
  case 0
  then show ?case by (simp add: irqs_up_def)
next
  case (Suc k)
  obtain nm where nm: "\<forall>j < Suc k. name_of (trace s) (irq_map (int j)) j 0 = nm j \<and> nm j \<noteq> 0"
      "zlive s = Some (held irq_map nm (Suc k) + rs)" using Suc.prems by (auto simp: irqs_up_def)
  let ?r = "irq_map (int k)"
  obtain w where w: "w = K (trace s) (Disable_irq ?r)" by blast
  have free: "K (trace s @ [(Disable_irq ?r, w)]) (Free_irq ?r k) = nm k"
    using assms(1) nm(1) by (simp add: irq_env_def name_of_append)
  obtain v where v: "v = K (trace s @ [(Disable_irq ?r, w), (Free_irq ?r k, nm k)]) (Kfree_name (nm k))" by blast
  let ?t = "s\<lparr>dat := dat s\<lparr>requested_irq_num := int k\<rparr>,
    trace := trace s @ [(Disable_irq ?r, w), (Free_irq ?r k, nm k), (Kfree_name (nm k), v)]\<rparr>"
  have "run_state (irq_exit_loop K irq_map (Suc k)) s = run_state (irq_exit_loop K irq_map k) ?t"
    using nm(1) free w v by (simp add: Let_def)
  moreover have "irqs_up irq_map rs k ?t"
    unfolding irqs_up_def using nm by (auto simp: name_of_append zlive_def live_append intro!: exI [of _ nm])
  ultimately show ?case using Suc.IH [of ?t] by simp
qed


lemma irq_init_loop_succeeds:
  assumes "\<And>tr r i n. K tr (Request_irq r i n) = 0"
  shows "fst (run_state (irq_init_loop K irq_map plat_base intc_off i n) s) = 0"
  by (induction n arbitrary: i s) (simp_all add: Let_def assms case_prod_beta)

definition demo_irq_K :: "zcall kenv" where
  "demo_irq_K tr c = (case c of Free_irq r i \<Rightarrow> name_of tr r i 0 | Kzalloc_name i \<Rightarrow> int i + 1 | _ \<Rightarrow> 0)"

definition demo_zirq :: "(zcall, zirq) kst" where
  "demo_zirq = \<lparr>trace = [], dat = \<lparr>intc_bases = [], requested_irq_num = 0\<rparr>\<rparr>"

definition demo_intc_off :: "nat \<Rightarrow> u64" where
  "demo_intc_off i = (if i < 2 then word_of_nat i else - 1)"


text \<open>If the second request fails, the error path does not free the first line (it frees the
  failed line instead).\<close>

lemma zynq_irq_init_error_path:
  "run_state (irq_init_err K 33 (Suc (Suc 0))) \<lparr>trace = [(Request_irq 32 0 1, 0), (Request_irq 33 1 2, - EBUSY)], dat = d\<rparr> = (u, s')
   \<Longrightarrow> Free_irq 32 0 \<notin> fst ` set (trace s') \<and> zlive s' = None"
  by (auto simp: zlive_def EBUSY_def)

end
