(* ===== verification/Pcie_Types.thy ===== *)
theory Pcie_Types
  imports Irq_Controllers Tlkm_Status Kernel_Env
begin

text \<open>
  Data of the PCIe platforms (\<^verbatim>\<open>pcie/pcie_device.h\<close>, \<^verbatim>\<open>pcie/pcie.h\<close>) and the calls they make into
  the kernel, with the resources these calls acquire and release. Pointers, I/O addresses and
  DMA addresses returned by the kernel are integers; 0 is \<^verbatim>\<open>NULL\<close>, and -1 as the result of
  \<^verbatim>\<open>dma_map_single\<close> is \<^verbatim>\<open>DMA_MAPPING_ERROR\<close>. The theories \<open>Pcie_Irq\<close>, \<open>Pcie_Qdma\<close>, \<open>Pcie_Device\<close> and
  \<open>Pcie_Ioctl\<close> share these types.
\<close>

unbundle bit_operations_syntax

section \<open>Identifiers\<close>

definition XILINX_VENDOR_ID :: u32 where [tlkm_const]: "XILINX_VENDOR_ID = 0x10EE"
definition XILINX_DEVICE_ID :: u32 where [tlkm_const]: "XILINX_DEVICE_ID = 0x7038"
definition VERSAL_DEVICE_ID :: u32 where [tlkm_const]: "VERSAL_DEVICE_ID = 0xB03F"
definition AWS_EC2_VENDOR_ID :: u32 where [tlkm_const]: "AWS_EC2_VENDOR_ID = 0x1D0F"
definition AWS_EC2_DEVICE_ID :: u32 where [tlkm_const]: "AWS_EC2_DEVICE_ID = 0xF000"

text \<open>What the kernel knows about the PCI device: identifiers, BARs, interrupt vectors
  (\<^verbatim>\<open>pci_irq_vector\<close>), and the bus address of coherent memory.\<close>

record pci_dev =
  vendor :: u32
  device :: u32
  pci_resource_start :: "nat \<Rightarrow> u64"
  pci_resource_len :: "nat \<Rightarrow> u64"
  pci_resource_flags :: "nat \<Rightarrow> u64"
  pci_irq_vector :: "int \<Rightarrow> int"
  dma_handle :: "int \<Rightarrow> u64"

definition pcie_is_qdma_in_use :: "pci_dev \<Rightarrow> bool" where
  "pcie_is_qdma_in_use p \<longleftrightarrow> vendor p = XILINX_VENDOR_ID \<and> device p = VERSAL_DEVICE_ID"

section \<open>State of a device\<close>

definition TLKM_PCIE_NUM_DMA_BUFFERS :: nat where
  [tlkm_const]: "TLKM_PCIE_NUM_DMA_BUFFERS = 32"

definition AWS_NUM_IRQ_CONTROLLERS :: nat where
  [tlkm_const]: "AWS_NUM_IRQ_CONTROLLERS = 4"

datatype dma_direction_t = TO_DEV | FROM_DEV

record dma_buf =
  ptr :: int
  ptr_dev :: int
  buf_size :: u64
  direction :: dma_direction_t

record gp_buf =
  gp_entry :: int       \<comment> \<open>address of the list entry\<close>
  gp_ptr :: int
  gp_dev_addr :: int
  gp_buf_size :: u64
  gp_id :: u64

definition zero_dma_buf :: dma_buf where
  "zero_dma_buf = \<lparr>ptr = 0, ptr_dev = 0, buf_size = 0, direction = TO_DEV\<rparr>"

text \<open>The private data, together with the pointers to it (\<^verbatim>\<open>dev->private_data\<close> and the driver data of
  the PCI device), the device it belongs to and the performance counters of the module.\<close>

record tlkm_pcie_device =
  parent :: tlkm_device
  private_data :: int
  drvdata :: int
  counters :: tlkm_perfc_t
  phy_addr_bar0 :: u64
  phy_len_bar0 :: u64
  phy_flags_bar0 :: u64
  link_width :: u32
  link_speed :: u32
  dma_buffer :: "dma_buf list"
  gp_buffer :: "gp_buf list"
  ack_register :: int
  ack_register_aws :: int
  intc_bases :: "zynq_irq_mapping list"
  requested_irq_num :: int
  cmpt_ring :: int
  cmpt_ring_addr :: u64

definition component :: "tlkm_pcie_device \<Rightarrow> string \<Rightarrow> dev_addr_t" where
  "component d name = tlkm_status_get_component_base (parent d) (map of_char name)"

text \<open>Address of a register of the platform: \<^verbatim>\<open>dev->mmap.plat + component base + offset\<close>.\<close>

definition plat_reg :: "tlkm_pcie_device \<Rightarrow> string \<Rightarrow> u64 \<Rightarrow> int" where
  "plat_reg d name off = uint (m_plat (mmap (parent d)) + component d name + off)"

section \<open>Calls and resources\<close>

datatype irq_handler =
    Intr_handler_platform | Qdma_intr_handler_write | Qdma_intr_handler_read
  | Qdma_intr_handler_c2h_stream | Qdma_intr_handler_h2c_stream | Aws_irq_handler

datatype irq_data = Mapping u64 | Controller nat
datatype irq_name = Tlkm_pci_name | Namebuf int

text \<open>Operations that neither acquire nor release anything; a negative result of \<open>Pcie_cap_read\<close> is its
  error code.\<close>

datatype pci_op =
    Pci_set_master | Pcie_get_mps nat | Pcie_set_mps nat int | Pcie_get_readrq | Pcie_set_readrq int
  | Pcie_cap_read nat | Pcie_cap_write nat u32
  | Dma_set_mask nat | Dma_set_coherent_mask nat
  | Pci_alloc_irq_vectors u64 | Pci_free_irq_vectors
  | Ioread32 int | Iowrite32 u32 int | Readq int | Writeq u64 int
  | Mutex_lock_interruptible | Mutex_unlock
  | Dma_sync_single_for_cpu int u64 dma_direction_t | Dma_sync_single_for_device int u64 dma_direction_t
  | Pcie_teardown_svm | Pcie_launch_svm | Svm_to_device u64 u64 | Svm_to_ram u64 u64

datatype pci_call =
    Op pci_op
  | Kzalloc_pdev | Kfree_pdev int
  | Pci_enable_device | Pci_disable_device
  | Pci_request_regions | Pci_release_regions
  | Ioremap u64 u64 | Iounmap int
  | Kzalloc_name nat | Kfree_name int
  | Request_irq int irq_handler irq_data irq_name | Free_irq int irq_data
  | Dma_alloc_coherent u64 | Dma_free_coherent u64 int u64
  | Kmalloc u64 | Kfree int | Devm_kzalloc | Devm_kfree int
  | Dma_map_single int u64 dma_direction_t | Dma_unmap_single int u64 dma_direction_t
  | Pcie_init_svm | Pcie_exit_svm

abbreviation iowrite32 :: "pci_call kenv \<Rightarrow> u32 \<Rightarrow> int \<Rightarrow> (pci_call, 'd, unit) km" where
  "iowrite32 K v a \<equiv> kdo K (Op (Iowrite32 v a))"

datatype pci_resource =
    Private int | Enabled | Regions | Iomap int | Irq_line int irq_data | Irq_name int
  | Coherent int | Buffer int | Dev_entry int | Dma_mapping int u64 | Svm

text \<open>The interrupt vectors are not in this account: \<^verbatim>\<open>pci_free_irq_vectors\<close> may be called again when
  none are allocated. A DMA mapping is identified by address and length.\<close>

fun pci_acq :: "pci_call \<Rightarrow> int \<Rightarrow> pci_resource option" where
  "pci_acq Kzalloc_pdev p = (if p = 0 then None else Some (Private p))"
| "pci_acq Pci_enable_device r = (if r = 0 then Some Enabled else None)"
| "pci_acq Pci_request_regions r = (if r = 0 then Some Regions else None)"
| "pci_acq (Ioremap a n) p = (if p = 0 then None else Some (Iomap p))"
| "pci_acq (Kzalloc_name i) p = (if p = 0 then None else Some (Irq_name p))"
| "pci_acq (Request_irq v h x n) r = (if r = 0 then Some (Irq_line v x) else None)"
| "pci_acq (Dma_alloc_coherent n) p = (if p = 0 then None else Some (Coherent p))"
| "pci_acq (Kmalloc n) p = (if p = 0 then None else Some (Buffer p))"
| "pci_acq Devm_kzalloc p = (if p = 0 then None else Some (Dev_entry p))"
| "pci_acq (Dma_map_single p n d) a = (if a = - 1 then None else Some (Dma_mapping a n))"
| "pci_acq Pcie_init_svm r = (if r = 0 then Some Svm else None)"
| "pci_acq c r = None"

fun pci_rel :: "pci_call \<Rightarrow> pci_resource option" where
  "pci_rel (Kfree_pdev p) = (if p = 0 then None else Some (Private p))"
| "pci_rel Pci_disable_device = Some Enabled"
| "pci_rel Pci_release_regions = Some Regions"
| "pci_rel (Iounmap p) = Some (Iomap p)"
| "pci_rel (Kfree_name p) = (if p = 0 then None else Some (Irq_name p))"
| "pci_rel (Free_irq v x) = Some (Irq_line v x)"
| "pci_rel (Dma_free_coherent n p a) = Some (Coherent p)"
| "pci_rel (Kfree p) = (if p = 0 then None else Some (Buffer p))"
| "pci_rel (Devm_kfree p) = Some (Dev_entry p)"
| "pci_rel (Dma_unmap_single a n d) = Some (Dma_mapping a n)"
| "pci_rel Pcie_exit_svm = Some Svm"
| "pci_rel c = None"

interpretation pci: accounting pci_acq pci_rel
proof
  show "pci_acq c r = Some x \<Longrightarrow> pci_rel c = None" for c r x by (cases c) simp_all
qed

definition pci_live :: "(pci_call, 'd) kst \<Rightarrow> pci_resource multiset option" where
  "pci_live s = live pci_acq pci_rel (trace s) {#}"

type_synonym 'r pci_m = "(pci_call, tlkm_pcie_device, 'r) km"
type_synonym pci_st = "(pci_call, tlkm_pcie_device) kst"

lemma pci_owns: "pci.owns rs P s \<longleftrightarrow> pci_live s = Some rs \<and> P (dat s)"
  by (simp add: pci.owns_def pci_live_def)

lemma pci_live_snoc:
  "pci_live s = Some rs \<Longrightarrow> pci_live (s\<lparr>trace := trace s @ [(c, r)]\<rparr>) =
    (case pci_acq c r of Some x \<Rightarrow> Some (add_mset x rs)
     | None \<Rightarrow> (case pci_rel c of Some x \<Rightarrow> if x \<in># rs then Some (rs - {#x#}) else None | None \<Rightarrow> Some rs))"
  by (simp add: pci_live_def live_snoc)

end
