(* ===== verification/Pcie_Irq.thy ===== *)
theory Pcie_Irq
  imports Pcie_Types
begin

text \<open>
  Interrupts of the PCIe platforms. On the plain platform (\<^verbatim>\<open>pcie/pcie_irq.c\<close>) every user interrupt
  has an MSI-X vector of its own; on Versal the first vectors belong to the QDMA core, whose
  handlers are in \<^verbatim>\<open>pcie/pcie_qdma.c\<close>. On AWS F1 (\<^verbatim>\<open>pcie/pcie_irq_aws.c\<close>) the first four interrupts
  are direct ones, and the others are demultiplexed by four controllers.
\<close>

unbundle bit_operations_syntax

section \<open>One vector per interrupt\<close>

definition QDMA_IRQ_VEC_C2H :: int where [tlkm_const]: "QDMA_IRQ_VEC_C2H = 0"
definition QDMA_IRQ_VEC_H2C :: int where [tlkm_const]: "QDMA_IRQ_VEC_H2C = 1"
definition QDMA_IRQ_VEC_C2H_ST :: int where [tlkm_const]: "QDMA_IRQ_VEC_C2H_ST = 2"
definition QDMA_IRQ_VEC_H2C_ST :: int where [tlkm_const]: "QDMA_IRQ_VEC_H2C_ST = 3"

definition pcie_irqs_init :: "pci_call kenv \<Rightarrow> pci_dev \<Rightarrow> int pci_m" where
  "pcie_irqs_init K p = do {
     modd (\<lambda>d. d\<lparr>ack_register := plat_reg d ''PLATFORM_COMPONENT_INTC0'' 0x8120\<rparr>);
     gier \<leftarrow> getd (\<lambda>d. plat_reg d ''PLATFORM_COMPONENT_INTC0'' 0x8104);
     (if pcie_is_qdma_in_use p then iowrite32 K 1 gier else State_Monad.return ());
     State_Monad.return 0
   }"

definition pcie_irqs_exit :: "pci_call kenv \<Rightarrow> pci_dev \<Rightarrow> unit pci_m" where
  "pcie_irqs_exit K p = do {
     gier \<leftarrow> getd (\<lambda>d. plat_reg d ''PLATFORM_COMPONENT_INTC0'' 0x8104);
     if pcie_is_qdma_in_use p then iowrite32 K 0 gier else State_Monad.return ()
   }"

definition pcie_irqs_request_platform_irq :: "pci_call kenv \<Rightarrow> pci_dev \<Rightarrow> tlkm_irq_mapping \<Rightarrow> int pci_m" where
  "pcie_irqs_request_platform_irq K p m =
     (if irq_no m = QDMA_IRQ_VEC_H2C \<and> pcie_is_qdma_in_use p
      then kcall K (Request_irq (pci_irq_vector p QDMA_IRQ_VEC_H2C) Qdma_intr_handler_write (Mapping (m_ptr m)) Tlkm_pci_name)
      else if irq_no m = QDMA_IRQ_VEC_C2H \<and> pcie_is_qdma_in_use p
      then kcall K (Request_irq (pci_irq_vector p QDMA_IRQ_VEC_C2H) Qdma_intr_handler_read (Mapping (m_ptr m)) Tlkm_pci_name)
      else if irq_no m = QDMA_IRQ_VEC_C2H_ST \<and> pcie_is_qdma_in_use p
      then kcall K (Request_irq (pci_irq_vector p QDMA_IRQ_VEC_C2H_ST) Qdma_intr_handler_c2h_stream (Mapping (m_ptr m)) Tlkm_pci_name)
      else if irq_no m = QDMA_IRQ_VEC_H2C_ST \<and> pcie_is_qdma_in_use p
      then kcall K (Request_irq (pci_irq_vector p QDMA_IRQ_VEC_H2C_ST) Qdma_intr_handler_h2c_stream (Mapping (m_ptr m)) Tlkm_pci_name)
      else kcall K (Request_irq (pci_irq_vector p (irq_no m)) Intr_handler_platform (Mapping (m_ptr m)) Tlkm_pci_name))"

definition pcie_irqs_release_platform_irq :: "pci_call kenv \<Rightarrow> pci_dev \<Rightarrow> tlkm_irq_mapping \<Rightarrow> unit pci_m" where
  "pcie_irqs_release_platform_irq K p m = kdo K (Free_irq (pci_irq_vector p (irq_no m)) (Mapping (m_ptr m)))"

section \<open>Handlers\<close>

text \<open>Result: the signals, each with its count, and the register written with its value; the
  registers of the PIDX update block are named by their index.\<close>

definition signal_n :: "u64 \<Rightarrow> u32 \<Rightarrow> (u64 \<times> u32) list" where
  "signal_n e n = (if e \<noteq> 0 then [(e, n)] else [])"

definition intr_handler_platform :: "tlkm_irq_mapping \<Rightarrow> (u64 \<times> u32) list \<times> u32" where
  "intr_handler_platform m = (signal_n (eventfd m) 1, word_of_int (irq_no m))"

definition QDMA_IRQ_ARM :: u32 where [tlkm_const]: "QDMA_IRQ_ARM = push_bit 16 1"
definition QDMA_DMAP_SEL_CMPT_TRIG_USER :: u32 where [tlkm_const]: "QDMA_DMAP_SEL_CMPT_TRIG_USER = push_bit 24 3"
definition QDMA_DMAP_SEL_CMPT_WRB_EN :: u32 where [tlkm_const]: "QDMA_DMAP_SEL_CMPT_WRB_EN = push_bit 27 1"
definition QDMA_DMAP_SEL_CMPT_IRQ_EN :: u32 where [tlkm_const]: "QDMA_DMAP_SEL_CMPT_IRQ_EN = push_bit 28 1"
definition QDMA_CMPT_RING_SZ :: u32 where [tlkm_const]: "QDMA_CMPT_RING_SZ = 64"

datatype pidx_reg = Int_cidx_0 | H2c_dsc_pidx_0 | C2h_dsc_pidx_0 | Wrb_cidx_0
  | Int_cidx_1 | H2c_dsc_pidx_1 | C2h_dsc_pidx_1 | Wrb_cidx_1

definition qdma_intr_handler_read :: "tlkm_irq_mapping \<Rightarrow> (u64 \<times> u32) list \<times> pidx_reg \<times> u32" where
  "qdma_intr_handler_read m = (signal_n (eventfd m) 1, C2h_dsc_pidx_0, QDMA_IRQ_ARM)"

definition qdma_intr_handler_write :: "tlkm_irq_mapping \<Rightarrow> (u64 \<times> u32) list \<times> pidx_reg \<times> u32" where
  "qdma_intr_handler_write m = (signal_n (eventfd m) 1, H2c_dsc_pidx_0, QDMA_IRQ_ARM)"

definition qdma_intr_handler_h2c_stream :: "tlkm_irq_mapping \<Rightarrow> (u64 \<times> u32) list \<times> pidx_reg \<times> u32" where
  "qdma_intr_handler_h2c_stream m = (signal_n (eventfd m) 1, H2c_dsc_pidx_1, QDMA_IRQ_ARM)"

text \<open>The argument is the last word of the completion ring: the status entry of the queue, with the
  bit fields \<^verbatim>\<open>pidx\<close> and \<^verbatim>\<open>cidx\<close> of 16 bits each.\<close>

definition qdma_intr_handler_c2h_stream :: "u64 \<Rightarrow> tlkm_irq_mapping \<Rightarrow> (u64 \<times> u32) list \<times> pidx_reg \<times> u32" where
  "qdma_intr_handler_c2h_stream cmpl_stat m =
     (let pidx = ucast (take_bit 16 cmpl_stat) :: u32; cidx = ucast (take_bit 16 (drop_bit 16 cmpl_stat)) :: u32;
          idx_diff = (if pidx < cidx then pidx + QDMA_CMPT_RING_SZ - 1 - cidx else pidx - cidx)
      in (signal_n (eventfd m) idx_diff, Wrb_cidx_1,
          QDMA_DMAP_SEL_CMPT_TRIG_USER OR QDMA_DMAP_SEL_CMPT_IRQ_EN OR QDMA_DMAP_SEL_CMPT_WRB_EN OR pidx))"

section \<open>AWS F1\<close>

definition NUM_DIRECT_IRQS :: int where [tlkm_const]: "NUM_DIRECT_IRQS = 4"

definition get_xdma_reg_addr :: "u32 \<Rightarrow> u32 \<Rightarrow> u32 \<Rightarrow> u32" where
  "get_xdma_reg_addr target channel off = push_bit 12 target OR push_bit 8 channel OR off"

definition aws_ec2_configure_xdma :: "pci_call kenv \<Rightarrow> pci_dev \<Rightarrow> int pci_m" where
  "aws_ec2_configure_xdma K p = do {
     bar2 \<leftarrow> kcall K (Ioremap (pci_resource_start p 2) (pci_resource_len p 2));
     if bar2 = 0 then State_Monad.return (- ENODEV)
     else do {
       kdo K (Op (Ioread32 (bar2 + uint (get_xdma_reg_addr 2 0 0))));
       iowrite32 K 0x03020100 (bar2 + uint (get_xdma_reg_addr 2 0 0x80));
       iowrite32 K 0x07060504 (bar2 + uint (get_xdma_reg_addr 2 0 0x84));
       iowrite32 K 0x0b0a0908 (bar2 + uint (get_xdma_reg_addr 2 0 0x88));
       iowrite32 K 0x0f0e0d0c (bar2 + uint (get_xdma_reg_addr 2 0 0x8c));
       iowrite32 K 0xffff (bar2 + uint (get_xdma_reg_addr 2 0 0x04));
       kdo K (Op (Ioread32 (bar2 + uint (get_xdma_reg_addr 2 0 0x04))));
       kdo K (Iounmap bar2);
       State_Monad.return 0
     }
   }"

text \<open>The handler: \<open>reads\<close> are the values of the controller's status register, 0 once they are used
  up. Reading the register again is the only acknowledgement.\<close>

fun aws_rounds :: "u32 \<Rightarrow> tlkm_irq_mapping list \<Rightarrow> u32 list \<Rightarrow> u64 list" where
  "aws_rounds s_off cur [] = []"
| "aws_rounds s_off cur (stat # reads) =
     (if stat = 0 then []
      else let (es, cur') = signal_loop s_off cur stat in es @ aws_rounds s_off cur' reads)"

definition aws_irq_handler :: "tlkm_irq_mapping list \<Rightarrow> zynq_irq_mapping \<Rightarrow> u32 list \<Rightarrow> u64 list" where
  "aws_irq_handler ms b reads =
     (if first_mapping b = 0 then []
      else aws_rounds (irq_start b) (dropWhile (\<lambda>m. m_ptr m \<noteq> first_mapping b) ms) reads)"

text \<open>The error path frees the vector of the failed request for all controllers.\<close>

fun aws_init_err :: "pci_call kenv \<Rightarrow> int \<Rightarrow> nat \<Rightarrow> unit pci_m" where
  "aws_init_err K vec 0 = modd (\<lambda>d. d\<lparr>requested_irq_num := - 1\<rparr>)"
| "aws_init_err K vec (Suc k) = do {
     modd (\<lambda>d. d\<lparr>requested_irq_num := int k\<rparr>);
     kdo K (Free_irq vec (Controller k));
     aws_init_err K vec k
   }"

fun aws_init_loop :: "pci_call kenv \<Rightarrow> pci_dev \<Rightarrow> nat \<Rightarrow> nat \<Rightarrow> int pci_m" where
  "aws_init_loop K p i 0 = State_Monad.return 0"
| "aws_init_loop K p i (Suc n) = do {
     let rirq = NUM_DIRECT_IRQS + int i;
     modd (\<lambda>d. d\<lparr>intc_bases := (intc_bases d)[i := \<lparr>first_mapping = 0,
        intc = word_of_int (ack_register_aws d) + word_of_nat (4 * i),
        irq_start = word_of_int (int i * IRQS_PER_CONTROLLER + NUM_DIRECT_IRQS), intc_id = word_of_nat i\<rparr>]\<rparr>);
     namebuf \<leftarrow> kcall K (Kzalloc_name i);
     err \<leftarrow> kcall K (Request_irq (pci_irq_vector p rirq) Aws_irq_handler (Controller i) (Namebuf namebuf));
     modd (\<lambda>d. d\<lparr>requested_irq_num := requested_irq_num d + 1\<rparr>);
     if err \<noteq> 0
     then do { aws_init_err K (pci_irq_vector p rirq) (Suc i); State_Monad.return err }
     else aws_init_loop K p (Suc i) n
   }"

definition pcie_aws_irqs_init :: "pci_call kenv \<Rightarrow> pci_dev \<Rightarrow> int pci_m" where
  "pcie_aws_irqs_init K p = do {
     err \<leftarrow> aws_ec2_configure_xdma K p;
     r \<leftarrow> pcie_irqs_init K p;
     modd (\<lambda>d. d\<lparr>ack_register_aws := plat_reg d ''PLATFORM_COMPONENT_INTC0'' 0x8124\<rparr>);
     modd (\<lambda>d. d\<lparr>requested_irq_num := 0\<rparr>);
     aws_init_loop K p 0 AWS_NUM_IRQ_CONTROLLERS
   }"

fun aws_exit_loop :: "pci_call kenv \<Rightarrow> pci_dev \<Rightarrow> nat \<Rightarrow> unit pci_m" where
  "aws_exit_loop K p 0 = State_Monad.return ()"
| "aws_exit_loop K p (Suc k) = do {
     modd (\<lambda>d. d\<lparr>requested_irq_num := int k\<rparr>);
     namebuf \<leftarrow> kcall K (Free_irq (pci_irq_vector p (NUM_DIRECT_IRQS + int k)) (Controller k));
     (if namebuf \<noteq> 0 then kdo K (Kfree_name namebuf) else State_Monad.return ());
     aws_exit_loop K p k
   }"

definition pcie_aws_irqs_exit :: "pci_call kenv \<Rightarrow> pci_dev \<Rightarrow> unit pci_m" where
  "pcie_aws_irqs_exit K p = do {
     pcie_irqs_exit K p;
     num \<leftarrow> getd requested_irq_num;
     aws_exit_loop K p (nat num)
   }"

text \<open>The result of the request for a direct interrupt is dropped.\<close>

definition pcie_aws_irqs_request_platform_irq :: "pci_call kenv \<Rightarrow> pci_dev \<Rightarrow> pci_st pirq_fn" where
  "pcie_aws_irqs_request_platform_irq K p ms m s =
     (let shifted_irq_no = irq_no m - NUM_DIRECT_IRQS;
          irq_controller = shifted_irq_no sdiv IRQS_PER_CONTROLLER
      in if irq_no m < NUM_DIRECT_IRQS
         then Some (0, snd (run_state (pcie_irqs_request_platform_irq K p m) s))
         else map_option (\<lambda>cs. (0, s\<lparr>dat := (dat s)\<lparr>intc_bases := cs\<rparr>\<rparr>))
                (add_to_controller ms m irq_controller (intc_bases (dat s))))"

definition pcie_aws_irqs_release_platform_irq :: "pci_call kenv \<Rightarrow> pci_dev \<Rightarrow> pci_st rirq_fn" where
  "pcie_aws_irqs_release_platform_irq K p ms m s =
     (let shifted_irq_no = irq_no m - NUM_DIRECT_IRQS;
          irq_controller = shifted_irq_no sdiv IRQS_PER_CONTROLLER
      in if irq_no m < NUM_DIRECT_IRQS
         then Some (snd (run_state (pcie_irqs_release_platform_irq K p m) s))
         else map_option (\<lambda>cs. s\<lparr>dat := (dat s)\<lparr>intc_bases := cs\<rparr>\<rparr>)
                (remove_from_controller (\<lambda>i. (i - NUM_DIRECT_IRQS) sdiv IRQS_PER_CONTROLLER = irq_controller)
                   ms m irq_controller (intc_bases (dat s))))"

section \<open>Registration on the plain platform\<close>

definition line_of :: "pci_dev \<Rightarrow> s32 \<times> u64 \<Rightarrow> pci_resource" where
  "line_of p x = Irq_line (pci_irq_vector p (fst x)) (Mapping (snd x))"

definition pcie_cinv :: "pci_dev \<Rightarrow> pci_resource multiset \<Rightarrow> (s32 \<times> u64) list \<Rightarrow> pci_st \<Rightarrow> bool" where
  "pcie_cinv p rs xs s \<longleftrightarrow> pci_live s = Some (mset (map (line_of p) xs) + rs)"

lemma mset_insert_mapping: "mset (insert_mapping m ms) = add_mset m (mset ms)"
  by (induction ms) (auto simp: add_mset_commute)

lemma lines_insert:
  "mset (map (line_of p) (keys (insert_mapping m ms))) = add_mset (line_of p (irq_no m, m_ptr m)) (mset (map (line_of p) (keys ms)))"
  by (simp only: mset_map mset_insert_mapping image_mset_add_mset)

lemma request_run:
  assumes "pci_live s = Some rs"
  shows "\<exists>r s'. run_state (pcie_irqs_request_platform_irq K p m) s = (r, s') \<and> dat s' = dat s
    \<and> pci_live s' = Some (if r = 0 then add_mset (line_of p (irq_no m, m_ptr m)) rs else rs)
    \<and> ((\<forall>tr v h x n. K tr (Request_irq v h x n) = 0) \<longrightarrow> r = 0)"
proof -
  have "\<exists>h. pcie_irqs_request_platform_irq K p m =
      kcall K (Request_irq (pci_irq_vector p (irq_no m)) h (Mapping (m_ptr m)) Tlkm_pci_name)"
    unfolding pcie_irqs_request_platform_irq_def by (simp split: if_split) blast
  then obtain h where "pcie_irqs_request_platform_irq K p m =
      kcall K (Request_irq (pci_irq_vector p (irq_no m)) h (Mapping (m_ptr m)) Tlkm_pci_name)" ..
  then show ?thesis using assms by (simp add: pci_live_snoc line_of_def)
qed

lemma release_run:
  assumes "pci_live s = Some (add_mset (line_of p (irq_no m, m_ptr m)) rs)"
  shows "\<exists>s'. run_state (pcie_irqs_release_platform_irq K p m) s = ((), s') \<and> dat s' = dat s
    \<and> pci_live s' = Some rs"
  using assms by (simp add: pcie_irqs_release_platform_irq_def pci_live_snoc line_of_def)

abbreviation pcie_pirq :: "pci_call kenv \<Rightarrow> pci_dev \<Rightarrow> pci_st pirq_fn" where
  "pcie_pirq K p ms m s \<equiv> Some (run_state (pcie_irqs_request_platform_irq K p m) s)"

abbreviation pcie_rirq :: "pci_call kenv \<Rightarrow> pci_dev \<Rightarrow> pci_st rirq_fn" where
  "pcie_rirq K p ms m s \<equiv> Some (snd (run_state (pcie_irqs_release_platform_irq K p m) s))"

interpretation pcie: irq_provider "pcie_pirq K p" "pcie_rirq K p" "pcie_cinv p rs" "\<lambda>_. True" for K p rs
proof
  fix ms s and m :: tlkm_irq_mapping
  assume "pcie_cinv p rs (keys ms) s"
  from request_run [OF this [unfolded pcie_cinv_def], of K p m] obtain r s' where
    run: "run_state (pcie_irqs_request_platform_irq K p m) s = (r, s')"
    "pci_live s' = Some (if r = 0 then add_mset (line_of p (irq_no m, m_ptr m)) (mset (map (line_of p) (keys ms)) + rs)
       else mset (map (line_of p) (keys ms)) + rs)" by blast
  have "pcie_cinv p rs (keys (if r = 0 then insert_mapping m ms else ms)) s'"
    unfolding pcie_cinv_def run(2) using lines_insert [of p m ms] by (cases "r = 0") (simp_all del: map_map)
  then show "\<exists>r s'. pcie_pirq K p ms m s = Some (r, s') \<and>
      pcie_cinv p rs (keys (if r = 0 then insert_mapping m ms else ms)) s'"
    using run(1) by blast
next
  fix ms s and m :: tlkm_irq_mapping
  assume "pcie_cinv p rs (keys (m # ms)) s"
  then have "pci_live s = Some (add_mset (line_of p (irq_no m, m_ptr m)) (mset (map (line_of p) (keys ms)) + rs))"
    by (simp add: pcie_cinv_def)
  from release_run [OF this, of K]
  show "\<exists>s'. pcie_rirq K p (m # ms) m s = Some s' \<and> pcie_cinv p rs (keys ms) s'"
    by (auto simp: pcie_cinv_def)
qed

inductive pcie_irq_reach :: "pci_call kenv \<Rightarrow> pci_dev \<Rightarrow> pci_resource multiset \<Rightarrow> tlkm_irq_mapping list \<Rightarrow> pci_st \<Rightarrow> bool"
  for K p rs where
  pcie_irq_start: "pci_live s = Some rs \<Longrightarrow> pcie_irq_reach K p rs [] s"
| pcie_irq_reg: "pcie_irq_reach K p rs ms s \<Longrightarrow> q \<noteq> 0 \<Longrightarrow> q \<notin> m_ptr ` set ms \<Longrightarrow>
    tlkm_device_reg_int (pcie_pirq K p) copy_ok q fdget x ms s = Some (r, ms', s') \<Longrightarrow> pcie_irq_reach K p rs ms' s'"
| pcie_irq_release: "pcie_irq_reach K p rs ms s \<Longrightarrow>
    tlkm_control_release (pcie_rirq K p) None ms s = Some (r, puts, ms', s') \<Longrightarrow> pcie_irq_reach K p rs ms' s'"

lemma pcie_irq_reach_inv: "pcie_irq_reach K p rs ms s \<Longrightarrow> pcie.irq_inv p rs ms s"
proof (induction rule: pcie_irq_reach.induct)
  case (pcie_irq_start s)
  then show ?case unfolding pcie.irq_inv_def by (simp add: irqs_sorted_def ptrs_ok_def pcie_cinv_def)
next
  case (pcie_irq_reg ms s q copy_ok fdget x r ms' s')
  then show ?case using pcie.reg_int_inv [where K = K and copy_ok = copy_ok and fdget = fdget and s = x, OF pcie_irq_reg.IH _ pcie_irq_reg.hyps(2,3)] by auto
next
  case (pcie_irq_release ms s r puts ms' s')
  then show ?case using pcie.control_release_inv [where K = K, OF pcie_irq_release.IH] by auto
qed

text \<open>C25: Interrupt lines on the PCIe platforms. Whatever interrupts have been registered, also
  unsuccessfully, the driver holds exactly one line per entry of the list; closing the file
  frees exactly these lines and gives back every event file context once.\<close>

theorem pcie_irq_lines:
  assumes "pcie_irq_reach K p rs ms s"
  shows "pci_live s = Some (mset (map (\<lambda>m. Irq_line (pci_irq_vector p (irq_no m)) (Mapping (m_ptr m))) ms) + rs)
    \<and> (\<exists>s'. tlkm_control_release (pcie_rirq K p) None ms s = Some (0, map eventfd ms, [], s') \<and> pci_live s' = Some rs)"
proof -
  have inv: "pcie.irq_inv p rs ms s" by (rule pcie_irq_reach_inv [OF assms])
  then have "pci_live s = Some (mset (map (line_of p) (keys ms)) + rs)" by (simp add: pcie.irq_inv_def pcie_cinv_def)
  moreover have "map (line_of p) (keys ms) = map (\<lambda>m. Irq_line (pci_irq_vector p (irq_no m)) (Mapping (m_ptr m))) ms"
    by (simp add: line_of_def comp_def)
  moreover obtain s' where "tlkm_control_release (pcie_rirq K p) None ms s = Some (0, map eventfd ms, [], s')"
      "pcie.irq_inv p rs [] s'" using pcie.control_release_inv [where K = K, OF inv] by blast
  ultimately show ?thesis by (auto simp: pcie.irq_inv_def pcie_cinv_def simp del: map_map)
qed

definition demo_pci :: pci_dev where
  "demo_pci = \<lparr>vendor = XILINX_VENDOR_ID, device = VERSAL_DEVICE_ID, pci_resource_start = (\<lambda>i. word_of_nat i * 0x100000),
     pci_resource_len = (\<lambda>_. 0x20000), pci_resource_flags = (\<lambda>_. 0), pci_irq_vector = (\<lambda>i. i + 32),
     dma_handle = (\<lambda>p. word_of_int p)\<rparr>"

theorem pcie_irq_lines_witness:
  "\<forall>d. \<exists>s' s''. pcie_irq_reach (\<lambda>_ _. 0) demo_pci {#} [\<lparr>m_ptr = 4096, irq_no = 3, eventfd = 77\<rparr>] s'
     \<and> pci_live s' = Some {#Irq_line 35 (Mapping 4096)#} \<and> pci_live s'' = Some {#}
     \<and> tlkm_control_release (pcie_rirq (\<lambda>_ _. 0) demo_pci) None [\<lparr>m_ptr = 4096, irq_no = 3, eventfd = 77\<rparr>] s' = Some (0, [77], [], s'')"
proof
  fix d :: tlkm_pcie_device
  let ?s = "\<lparr>trace = [], dat = d\<rparr>" and ?K = "\<lambda>_ _. 0" and ?ms = "[\<lparr>m_ptr = 4096, irq_no = 3, eventfd = 77\<rparr>]"
  have start: "pcie_irq_reach ?K demo_pci {#} [] ?s" by (rule pcie_irq_start) (simp add: pci_live_def)
  let ?s' = "snd (run_state (pcie_irqs_request_platform_irq ?K demo_pci \<lparr>m_ptr = 4096, irq_no = 3, eventfd = 0\<rparr>) ?s)"
  have "tlkm_device_reg_int (pcie_pirq ?K demo_pci) True 4096 (\<lambda>_. 77) \<lparr>pe_id = 3, int_fd = 9\<rparr> [] ?s = Some (0, ?ms, ?s')"
    by (simp add: tlkm_device_reg_int_def pcie_irqs_request_platform_irq_def Let_def)
  from pcie_irq_reg [OF start _ _ this] have "pcie_irq_reach ?K demo_pci {#} ?ms ?s'" by simp
  from pcie_irq_lines [OF this] this
  show "\<exists>s' s''. pcie_irq_reach ?K demo_pci {#} ?ms s' \<and> pci_live s' = Some {#Irq_line 35 (Mapping 4096)#}
      \<and> pci_live s'' = Some {#} \<and> tlkm_control_release (pcie_rirq ?K demo_pci) None ?ms s' = Some (0, [77], [], s'')"
    by (auto simp: demo_pci_def)
qed

text \<open>The handler of the completion queue signals once per completion: the distance of the two
  indices in the ring of 63 entries.\<close>

lemma c2h_stream_count:
  assumes "pidx < 63" and "cidx < 63" and "eventfd m \<noteq> 0"
  shows "\<exists>v. qdma_intr_handler_c2h_stream (word_of_nat (pidx + 65536 * cidx)) m =
    ([(eventfd m, word_of_nat ((63 + pidx - cidx) mod 63))], Wrb_cidx_1, v)"
proof -
  let ?w = "word_of_nat (pidx + 65536 * cidx) :: u64"
  have "pidx + 65536 * cidx < 2 ^ 64" using assms by simp
  then have w: "unat ?w = pidx + 65536 * cidx" by (simp only: unat_of_nat take_bit_nat_eq_self_iff)  simp
  have "unat (take_bit 16 ?w) = pidx"
    unfolding unsigned_take_bit_eq w using assms by (simp add: take_bit_eq_mod)
  then have p: "ucast (take_bit 16 ?w) = (word_of_nat pidx :: u32)" by (metis of_nat_unat)
  have "unat (take_bit 16 (drop_bit 16 ?w)) = cidx"
    unfolding unsigned_take_bit_eq unsigned_drop_bit_eq w using assms by (simp add: take_bit_eq_mod drop_bit_eq_div)
  then have c: "ucast (take_bit 16 (drop_bit 16 ?w)) = (word_of_nat cidx :: u32)" by (metis of_nat_unat)
  have "(word_of_nat pidx :: u32) < word_of_nat cidx \<longleftrightarrow> pidx < cidx"
    using assms by (simp add: word_less_nat_alt unat_of_nat take_bit_nat_eq_self)
  moreover have "word_of_nat pidx + 64 - 1 - (word_of_nat cidx :: u32) = word_of_nat ((63 + pidx - cidx) mod 63)" if "pidx < cidx"
    using that assms by (simp add: of_nat_diff)
  moreover have "word_of_nat pidx - (word_of_nat cidx :: u32) = word_of_nat ((63 + pidx - cidx) mod 63)" if "\<not> pidx < cidx"
  proof -
    have "(63 + pidx - cidx) mod 63 = pidx - cidx" using that assms by (simp add: mod_if)
    then show ?thesis using that by (simp add: of_nat_diff)
  qed
  ultimately show ?thesis using assms(3)
    unfolding qdma_intr_handler_c2h_stream_def p c Let_def signal_n_def QDMA_CMPT_RING_SZ_def
    by (cases "pidx < cidx") simp_all
qed

section \<open>Registration and dispatch on AWS F1\<close>

text \<open>The controller of an interrupt; the direct interrupts have none.\<close>

definition aws_ctl :: "s32 \<Rightarrow> int" where
  "aws_ctl i = (if i < NUM_DIRECT_IRQS then - 1 else (i - NUM_DIRECT_IRQS) sdiv IRQS_PER_CONTROLLER)"

definition aws_valid :: "s32 \<Rightarrow> bool" where
  "aws_valid i \<longleftrightarrow> 0 \<le> i \<and> i < 132"

text \<open>Requests succeed; the driver relies on it for the direct interrupts.\<close>

definition irq_requests_ok :: "pci_call kenv \<Rightarrow> bool" where
  "irq_requests_ok K \<longleftrightarrow> (\<forall>tr v h x n. K tr (Request_irq v h x n) = 0)"

definition direct :: "(s32 \<times> u64) list \<Rightarrow> (s32 \<times> u64) list" where
  "direct xs = filter (\<lambda>x. fst x < NUM_DIRECT_IRQS) xs"

definition aws_cinv :: "pci_call kenv \<Rightarrow> pci_dev \<Rightarrow> pci_resource multiset \<Rightarrow> (s32 \<times> u64) list \<Rightarrow> pci_st \<Rightarrow> bool" where
  "aws_cinv K p rs xs s \<longleftrightarrow> irq_requests_ok K
     \<and> pci_live s = Some (mset (map (line_of p) (direct xs)) + rs)
     \<and> length (intc_bases (dat s)) = 4 \<and> map irq_start (intc_bases (dat s)) = [4, 36, 68, 100]
     \<and> table_inv aws_ctl xs (intc_bases (dat s))"

lemma aws_ctl_div: "4 \<le> i \<Longrightarrow> aws_ctl i = (i - 4) div 32"
  by (simp add: aws_ctl_def IRQS_PER_CONTROLLER_def NUM_DIRECT_IRQS_def signed_divide_int_def sgn_if)

lemma aws_ctl_mono: "i < j \<Longrightarrow> aws_ctl i \<le> aws_ctl j"
  using aws_ctl_div [of i] aws_ctl_div [of j]
  by (cases "i < 4"; cases "j < 4") (auto simp: aws_ctl_def NUM_DIRECT_IRQS_def zdiv_mono1 intro: order.trans [of "- 1" 0])

lemma direct_insert:
  "image_mset (line_of p) (mset (direct (keys (insert_mapping m ms)))) =
    (if irq_no m < NUM_DIRECT_IRQS then {#line_of p (irq_no m, m_ptr m)#} else {#}) + image_mset (line_of p) (mset (direct (keys ms)))"
  by (induction ms) (auto simp: direct_def add_mset_commute)

lemma table_inv_direct:
  assumes "irq_no m < NUM_DIRECT_IRQS"
  shows "table_inv aws_ctl (keys (insert_mapping m ms)) cs \<longleftrightarrow> table_inv aws_ctl (keys ms) cs"
    and "table_inv aws_ctl (keys (m # ms)) cs \<longleftrightarrow> table_inv aws_ctl (keys ms) cs"
proof -
  have "aws_ctl (irq_no m) \<noteq> int k" for k using assms by (simp add: aws_ctl_def)
  then show "table_inv aws_ctl (keys (insert_mapping m ms)) cs \<longleftrightarrow> table_inv aws_ctl (keys ms) cs"
    "table_inv aws_ctl (keys (m # ms)) cs \<longleftrightarrow> table_inv aws_ctl (keys ms) cs"
    by (simp_all add: table_inv_def first_of_insert_other)
qed

lemma aws_request_ok:
  assumes "irqs_sorted ms" and "ptrs_ok ms" and "aws_cinv K p rs (keys ms) s" and "aws_valid (irq_no m)"
    and "irq_no m \<notin> irq_no ` set ms"
  shows "\<exists>s'. pcie_aws_irqs_request_platform_irq K p ms m s = Some (0, s') \<and> aws_cinv K p rs (keys (insert_mapping m ms)) s'"
proof (cases "irq_no m < NUM_DIRECT_IRQS")
  case True
  from assms(3) have "pci_live s = Some (mset (map (line_of p) (direct (keys ms))) + rs)" by (simp add: aws_cinv_def)
  from request_run [OF this, of K p m] assms(3) obtain s' where
    s': "run_state (pcie_irqs_request_platform_irq K p m) s = (0, s')" "dat s' = dat s"
    "pci_live s' = Some (add_mset (line_of p (irq_no m, m_ptr m)) (mset (map (line_of p) (direct (keys ms))) + rs))"
    by (auto simp: aws_cinv_def irq_requests_ok_def)
  then have "aws_cinv K p rs (keys (insert_mapping m ms)) s'"
    using assms(3) True table_inv_direct [OF True] by (simp add: aws_cinv_def direct_insert del: map_map)
  then show ?thesis using True s'(1) by (simp add: pcie_aws_irqs_request_platform_irq_def)
next
  case False
  have c: "0 \<le> aws_ctl (irq_no m)" "aws_ctl (irq_no m) < int (length (intc_bases (dat s)))"
    using False assms(3,4) by (auto simp: aws_ctl_div NUM_DIRECT_IRQS_def aws_valid_def aws_cinv_def)
  from add_to_controller_ok [where g = aws_ctl, OF assms(1,2,5) _ refl c] assms(3)
  obtain cs' where "add_to_controller ms m (aws_ctl (irq_no m)) (intc_bases (dat s)) = Some cs'"
    "length cs' = 4" "map irq_start cs' = [4, 36, 68, 100]" "table_inv aws_ctl (keys (insert_mapping m ms)) cs'"
    by (auto simp: aws_cinv_def)
  then show ?thesis using assms(3) False
    by (simp add: pcie_aws_irqs_request_platform_irq_def aws_cinv_def direct_insert aws_ctl_def pci_live_def
        del: map_map)
qed

lemma aws_release_ok:
  assumes "irqs_sorted (m # ms)" and "ptrs_ok (m # ms)" and "list_all (aws_valid \<circ> irq_no) (m # ms)"
    and "aws_cinv K p rs (keys (m # ms)) s"
  shows "\<exists>s'. pcie_aws_irqs_release_platform_irq K p (m # ms) m s = Some s' \<and> aws_cinv K p rs (keys ms) s'"
proof (cases "irq_no m < NUM_DIRECT_IRQS")
  case True
  from assms(4) True have "pci_live s = Some (add_mset (line_of p (irq_no m, m_ptr m)) (mset (map (line_of p) (direct (keys ms))) + rs))"
    by (simp add: aws_cinv_def direct_def)
  from release_run [OF this, of K] obtain s' where
    s': "run_state (pcie_irqs_release_platform_irq K p m) s = ((), s')" "dat s' = dat s"
    "pci_live s' = Some (mset (map (line_of p) (direct (keys ms))) + rs)" by blast
  then have "aws_cinv K p rs (keys ms) s'"
    using assms(4) table_inv_direct(2) [OF True] by (simp add: aws_cinv_def del: map_map)
  then show ?thesis using True s'(1) by (simp add: pcie_aws_irqs_release_platform_irq_def)
next
  case False
  have v: "aws_valid (irq_no m)" using assms(3) by simp
  have c: "0 \<le> aws_ctl (irq_no m)" "aws_ctl (irq_no m) < int (length (intc_bases (dat s)))"
    using False assms(4) v by (auto simp: aws_ctl_div NUM_DIRECT_IRQS_def aws_valid_def aws_cinv_def)
  have same: "(irq_no x - NUM_DIRECT_IRQS) sdiv IRQS_PER_CONTROLLER = aws_ctl (irq_no m) \<longleftrightarrow> aws_ctl (irq_no x) = aws_ctl (irq_no m)"
    if "x \<in> set ms" for x
    using assms(1) that False by (auto simp: aws_ctl_def irqs_sorted_def)
  have t: "table_inv aws_ctl (keys (m # ms)) (intc_bases (dat s))" using assms(4) by (simp only: aws_cinv_def)
  have "\<exists>cs'. remove_from_controller (\<lambda>i. (i - NUM_DIRECT_IRQS) sdiv IRQS_PER_CONTROLLER = aws_ctl (irq_no m))
      (m # ms) m (aws_ctl (irq_no m)) (intc_bases (dat s)) = Some cs' \<and> length cs' = length (intc_bases (dat s))
    \<and> map irq_start cs' = map irq_start (intc_bases (dat s)) \<and> table_inv aws_ctl (keys ms) cs'"
    by (rule remove_from_controller_ok [where g = aws_ctl, OF assms(1,2) t refl c])
      (use same aws_ctl_mono in auto)
  then show ?thesis using assms(4) False
    by (auto simp: pcie_aws_irqs_release_platform_irq_def aws_cinv_def direct_def aws_ctl_def pci_live_def
        simp del: map_map)
qed

interpretation aws: irq_provider "pcie_aws_irqs_request_platform_irq K p" "pcie_aws_irqs_release_platform_irq K p"
  "aws_cinv K p rs" aws_valid for K p rs
proof
  fix ms s and m :: tlkm_irq_mapping
  assume "irqs_sorted ms" "ptrs_ok ms" "aws_cinv K p rs (keys ms) s" "aws_valid (irq_no m)" "irq_no m \<notin> irq_no ` set ms"
  from aws_request_ok [OF this]
  show "\<exists>r s'. pcie_aws_irqs_request_platform_irq K p ms m s = Some (r, s') \<and>
      aws_cinv K p rs (keys (if r = 0 then insert_mapping m ms else ms)) s'" by force
next
  fix ms s and m :: tlkm_irq_mapping
  assume "irqs_sorted (m # ms)" "ptrs_ok (m # ms)" "list_all (aws_valid \<circ> irq_no) (m # ms)" "aws_cinv K p rs (keys (m # ms)) s"
  from aws_release_ok [OF this]
  show "\<exists>s'. pcie_aws_irqs_release_platform_irq K p (m # ms) m s = Some s' \<and> aws_cinv K p rs (keys ms) s'" .
qed

inductive aws_irq_reach :: "pci_call kenv \<Rightarrow> pci_dev \<Rightarrow> pci_resource multiset \<Rightarrow> tlkm_irq_mapping list \<Rightarrow> pci_st \<Rightarrow> bool"
  for K p rs where
  aws_irq_start: "irq_requests_ok K \<Longrightarrow> pci_live s = Some rs \<Longrightarrow> map irq_start (intc_bases (dat s)) = [4, 36, 68, 100] \<Longrightarrow>
    (\<forall>b \<in> set (intc_bases (dat s)). first_mapping b = 0) \<Longrightarrow> aws_irq_reach K p rs [] s"
| aws_irq_reg: "aws_irq_reach K p rs ms s \<Longrightarrow> aws_valid (pe_id x) \<Longrightarrow> q \<noteq> 0 \<Longrightarrow> q \<notin> m_ptr ` set ms \<Longrightarrow>
    tlkm_device_reg_int (pcie_aws_irqs_request_platform_irq K p) copy_ok q fdget x ms s = Some (r, ms', s') \<Longrightarrow>
    aws_irq_reach K p rs ms' s'"
| aws_irq_release: "aws_irq_reach K p rs ms s \<Longrightarrow>
    tlkm_control_release (pcie_aws_irqs_release_platform_irq K p) None ms s = Some (r, puts, ms', s') \<Longrightarrow>
    aws_irq_reach K p rs ms' s'"

lemma aws_irq_reach_inv: "aws_irq_reach K p rs ms s \<Longrightarrow> aws.irq_inv K p rs ms s"
proof (induction rule: aws_irq_reach.induct)
  case (aws_irq_start s)
  have "length (intc_bases (dat s)) = 4"
    using arg_cong [OF aws_irq_start.hyps(3), of length] by simp
  then show ?case using aws_irq_start unfolding aws.irq_inv_def
    by (simp add: irqs_sorted_def ptrs_ok_def aws_cinv_def table_inv_def direct_def)
next
  case (aws_irq_reg ms s x q copy_ok fdget r ms' s')
  then show ?case
    using aws.reg_int_inv [where copy_ok = copy_ok and fdget = fdget and s = x, OF aws_irq_reg.IH aws_irq_reg.hyps(2-4)] by auto
next
  case (aws_irq_release ms s r puts ms' s')
  then show ?case using aws.control_release_inv [OF aws_irq_release.IH] by auto
qed


definition demo_aws_bases :: "zynq_irq_mapping list" where
  "demo_aws_bases = map (\<lambda>i. \<lparr>first_mapping = 0, intc = 0, irq_start = word_of_nat (4 + i * 32), intc_id = word_of_nat i\<rparr>) [0..<4]"


section \<open>Controllers of AWS F1: lines and names\<close>

text \<open>The name buffer under which a line was requested last.\<close>

definition name_step :: "int \<Rightarrow> irq_data \<Rightarrow> pci_call \<times> int \<Rightarrow> int \<Rightarrow> int" where
  "name_step v x = (\<lambda>(c, r) n.
     case c of Request_irq v' h x' (Namebuf q) \<Rightarrow> if v' = v \<and> x' = x \<and> r = 0 then q else n | _ \<Rightarrow> n)"

definition irq_name_of :: "(pci_call \<times> int) list \<Rightarrow> int \<Rightarrow> irq_data \<Rightarrow> int" where
  "irq_name_of tr v x = fold (name_step v x) tr 0"

text \<open>Documented behaviour of the kernel: \<^verbatim>\<open>free_irq\<close> returns the name passed to \<^verbatim>\<open>request_irq\<close>; \<^verbatim>\<open>kzalloc\<close> is
  assumed to succeed, as the code does.\<close>

definition aws_irq_env :: "pci_call kenv \<Rightarrow> bool" where
  "aws_irq_env K \<longleftrightarrow> (\<forall>tr v k. K tr (Free_irq v (Controller k)) = irq_name_of tr v (Controller k))
     \<and> (\<forall>tr i. K tr (Kzalloc_name i) \<noteq> 0)"

fun aws_held :: "pci_dev \<Rightarrow> (nat \<Rightarrow> int) \<Rightarrow> nat \<Rightarrow> pci_resource multiset" where
  "aws_held p nm 0 = {#}"
| "aws_held p nm (Suc k) = {#Irq_line (pci_irq_vector p (4 + int k)) (Controller k), Irq_name (nm k)#} + aws_held p nm k"

definition aws_up :: "pci_dev \<Rightarrow> pci_resource multiset \<Rightarrow> nat \<Rightarrow> pci_st \<Rightarrow> bool" where
  "aws_up p rs k s \<longleftrightarrow> requested_irq_num (dat s) = int k
     \<and> (\<exists>nm. (\<forall>j < k. irq_name_of (trace s) (pci_irq_vector p (4 + int j)) (Controller j) = nm j \<and> nm j \<noteq> 0)
          \<and> pci_live s = Some (aws_held p nm k + rs))"

lemma irq_name_of_append: "irq_name_of (tr @ tr') v x = fold (name_step v x) tr' (irq_name_of tr v x)"
  by (simp add: irq_name_of_def)

lemma aws_held_cong: "(\<And>j. j < k \<Longrightarrow> nm j = nm' j) \<Longrightarrow> aws_held p nm k = aws_held p nm' k"
  by (induction k) simp_all

lemma aws_step_up:
  assumes "aws_up p rs k s" and "q \<noteq> 0"
    and "trace s' = (trace s @ [(Kzalloc_name k, q)]) @ [(Request_irq (pci_irq_vector p (4 + int k)) h (Controller k) (Namebuf q), 0)]"
    and "requested_irq_num (dat s') = int k + 1"
  shows "aws_up p rs (Suc k) s'"
proof -
  obtain nm where nm: "\<forall>j < k. irq_name_of (trace s) (pci_irq_vector p (4 + int j)) (Controller j) = nm j \<and> nm j \<noteq> 0"
      "pci_live s = Some (aws_held p nm k + rs)" using assms(1) by (auto simp: aws_up_def)
  let ?nm = "nm(k := q)"
  have "\<forall>j < Suc k. irq_name_of (trace s') (pci_irq_vector p (4 + int j)) (Controller j) = ?nm j \<and> ?nm j \<noteq> 0"
    using nm(1) assms(2,3) by (auto simp: irq_name_of_append name_step_def less_Suc_eq)
  moreover have "aws_held p ?nm k = aws_held p nm k" by (rule aws_held_cong) simp
  then have "pci_live s' = Some (aws_held p ?nm (Suc k) + rs)"
    using nm(2) assms(2,3) by (simp add: pci_live_def live_append)
  ultimately show ?thesis unfolding aws_up_def using assms(4) by (auto intro!: exI [of _ ?nm])
qed

lemma aws_init_loop_up:
  assumes "aws_irq_env K" and "aws_up p rs i s" and "run_state (aws_init_loop K p i n) s = (0, s')"
  shows "aws_up p rs (i + n) s'"
  using assms(2,3)
proof (induction n arbitrary: i s)
  case (Suc n)
  let ?v = "pci_irq_vector p (4 + int i)"
  obtain q r where q: "q = K (trace s) (Kzalloc_name i)"
      "r = K (trace s @ [(Kzalloc_name i, q)]) (Request_irq ?v Aws_irq_handler (Controller i) (Namebuf q))" by blast
  define t where "t = s\<lparr>trace := (trace s @ [(Kzalloc_name i, q)]) @ [(Request_irq ?v Aws_irq_handler (Controller i) (Namebuf q), r)],
    dat := (dat s)\<lparr>intc_bases := (intc_bases (dat s))[i := \<lparr>first_mapping = 0,
        intc = word_of_int (ack_register_aws (dat s)) + word_of_nat (4 * i),
        irq_start = word_of_int (int i * IRQS_PER_CONTROLLER + NUM_DIRECT_IRQS), intc_id = word_of_nat i\<rparr>],
      requested_irq_num := int i + 1\<rparr>\<rparr>"
  have num: "requested_irq_num (dat s) = int i" using Suc.prems(1) by (simp add: aws_up_def)
  have run: "run_state (aws_init_loop K p i (Suc n)) s =
      (if r \<noteq> 0 then run_state (do { aws_init_err K ?v (Suc i); State_Monad.return r }) t
       else run_state (aws_init_loop K p (Suc i) n) t)"
    using num q unfolding t_def by (simp add: Let_def NUM_DIRECT_IRQS_def)
  have r0: "r = 0"
  proof (rule ccontr)
    assume "r \<noteq> 0"
    then have "run_state (do { aws_init_err K ?v (Suc i); State_Monad.return r }) t = (0, s')" using run Suc.prems(2) by simp
    then show False using \<open>r \<noteq> 0\<close> by (auto split: prod.splits)
  qed
  have "q \<noteq> 0" using assms(1) q(1) by (simp add: aws_irq_env_def)
  then have "aws_up p rs (Suc i) t"
    by (rule aws_step_up [OF Suc.prems(1), where h = Aws_irq_handler]) (simp_all add: t_def r0)
  then show ?case using Suc.IH [of "Suc i" t] run r0 Suc.prems(2) by simp
qed simp

text \<open>The table after the set-up: empty controllers with consecutive ranges.\<close>

definition aws_row :: "pci_st \<Rightarrow> nat \<Rightarrow> bool" where
  "aws_row s j \<longleftrightarrow> irq_start (intc_bases (dat s) ! j) = word_of_nat (32 * j + 4) \<and> first_mapping (intc_bases (dat s) ! j) = 0"

lemma aws_init_loop_table:
  assumes "length (intc_bases (dat s)) = i + n" and "\<forall>j < i. aws_row s j"
    and "run_state (aws_init_loop K p i n) s = (0, s')"
  shows "length (intc_bases (dat s')) = i + n \<and> (\<forall>j < i + n. aws_row s' j)"
  using assms
proof (induction n arbitrary: i s)
  case (Suc n)
  let ?row = "\<lparr>first_mapping = 0, intc = word_of_int (ack_register_aws (dat s)) + word_of_nat (4 * i),
        irq_start = word_of_int (int i * IRQS_PER_CONTROLLER + NUM_DIRECT_IRQS), intc_id = word_of_nat i\<rparr>"
  obtain t where t: "run_state (aws_init_loop K p (Suc i) n) t = (0, s')"
      "intc_bases (dat t) = (intc_bases (dat s))[i := ?row]"
    using Suc.prems(3) by (auto simp: Let_def split: if_splits prod.splits)
  have "aws_row t i"
    using t(2) Suc.prems(1) by (simp add: aws_row_def IRQS_PER_CONTROLLER_def NUM_DIRECT_IRQS_def mult.commute)
  moreover have "aws_row t j" if "j < i" for j
    using Suc.prems(2) that t(2) by (simp add: aws_row_def)
  ultimately have "\<forall>j < Suc i. aws_row t j" by (simp add: less_Suc_eq)
  moreover have "length (intc_bases (dat t)) = Suc i + n" using t(2) Suc.prems(1) by simp
  ultimately show ?case using Suc.IH [of t "Suc i"] t(1) by simp
qed simp

lemma aws_exit_loop_down:
  assumes "aws_irq_env K" and "aws_up p rs k s"
  shows "pci_live (snd (run_state (aws_exit_loop K p k) s)) = Some rs"
  using assms(2)
proof (induction k arbitrary: s)
  case 0
  then show ?case by (simp add: aws_up_def)
next
  case (Suc k)
  obtain nm where nm: "\<forall>j < Suc k. irq_name_of (trace s) (pci_irq_vector p (4 + int j)) (Controller j) = nm j \<and> nm j \<noteq> 0"
      "pci_live s = Some (aws_held p nm (Suc k) + rs)" using Suc.prems by (auto simp: aws_up_def)
  let ?v = "pci_irq_vector p (4 + int k)"
  have free: "K (trace s) (Free_irq ?v (Controller k)) = nm k"
    using assms(1) nm(1) by (simp add: aws_irq_env_def)
  obtain v where v: "v = K (trace s @ [(Free_irq ?v (Controller k), nm k)]) (Kfree_name (nm k))" by blast
  define t where "t = s\<lparr>dat := (dat s)\<lparr>requested_irq_num := int k\<rparr>,
    trace := (trace s @ [(Free_irq ?v (Controller k), nm k)]) @ [(Kfree_name (nm k), v)]\<rparr>"
  have "run_state (aws_exit_loop K p (Suc k)) s = run_state (aws_exit_loop K p k) t"
    using nm(1) free v unfolding t_def by (simp add: Let_def NUM_DIRECT_IRQS_def)
  moreover have "aws_up p rs k t"
    unfolding aws_up_def t_def using nm
    by (auto simp: irq_name_of_append name_step_def pci_live_def live_append intro!: exI [of _ nm])
  ultimately show ?case using Suc.IH [of t] by simp
qed

lemma aws_configure_owns:
  "triple (pci.owns rs P) (aws_ec2_configure_xdma K p) (\<lambda>_. pci.owns rs P)"
  by (rule tripleI)
    (auto simp: aws_ec2_configure_xdma_def pci_owns pci_live_def live_append Let_def split: if_splits)

lemma irqs_init_exit_owns:
  "triple (pci.owns rs (\<lambda>d. P (intc_bases d))) (pcie_irqs_init K p) (\<lambda>r s. r = 0 \<and> pci.owns rs (\<lambda>d. P (intc_bases d)) s)"
  "triple (pci.owns rs Q) (pcie_irqs_exit K p) (\<lambda>_. pci.owns rs Q)"
  by (rule tripleI, auto simp: pcie_irqs_init_def pcie_irqs_exit_def pci_owns pci_live_def live_append split: if_splits)+

text \<open>C27: Set-up and removal of the interrupts on AWS F1. If all controller lines can be requested,
  the table then describes four empty controllers for the ranges that begin at interrupts 4,
  36, 68 and 100, and the removal frees exactly the four lines and their names.\<close>

theorem aws_irqs_init_exit:
  assumes "aws_irq_env K" and "pci_live s = Some rs" and "length (intc_bases (dat s)) = AWS_NUM_IRQ_CONTROLLERS"
    and "run_state (pcie_aws_irqs_init K p) s = (0, s')"
  shows "map irq_start (intc_bases (dat s')) = [4, 36, 68, 100] \<and> (\<forall>b \<in> set (intc_bases (dat s')). first_mapping b = 0)
    \<and> pci_live (snd (run_state (pcie_aws_irqs_exit K p) s')) = Some rs"
proof -
  let ?L = "\<lambda>d :: tlkm_pcie_device. length (intc_bases d) = 4"
  have o0: "pci.owns rs ?L s" using assms(2,3) by (simp add: pci_owns AWS_NUM_IRQ_CONTROLLERS_def)
  obtain e s1 where s1: "run_state (aws_ec2_configure_xdma K p) s = (e, s1)" by (metis surj_pair)
  obtain r2 s2 where s2: "run_state (pcie_irqs_init K p) s1 = (r2, s2)" by (metis surj_pair)
  have o2: "pci.owns rs ?L s2"
    using tripleD [OF irqs_init_exit_owns(1) tripleD [OF aws_configure_owns o0 s1] s2] by blast
  define t where "t = s2\<lparr>dat := (dat s2)\<lparr>ack_register_aws := plat_reg (dat s2) ''PLATFORM_COMPONENT_INTC0'' 0x8124,
    requested_irq_num := 0\<rparr>\<rparr>"
  have run: "run_state (aws_init_loop K p 0 4) t = (0, s')"
    using assms(4) s1 s2 unfolding t_def by (simp add: pcie_aws_irqs_init_def AWS_NUM_IRQ_CONTROLLERS_def)
  have "aws_up p rs 0 t" using o2 by (simp add: aws_up_def t_def pci_live_def pci_owns)
  with run have up: "aws_up p rs 4 s'" using aws_init_loop_up [OF assms(1), of p rs 0 t 4 s'] by simp
  have "length (intc_bases (dat t)) = 0 + 4" using o2 by (simp add: t_def pci_owns)
  then have tab: "length (intc_bases (dat s')) = 4" "\<forall>j < 4. aws_row s' j"
    using aws_init_loop_table [of t 0 4 K p s'] run by simp_all
  have "map irq_start (intc_bases (dat s')) = map (\<lambda>j. word_of_nat (32 * j + 4)) [0..<4]"
    by (rule nth_equalityI) (use tab in \<open>simp_all add: aws_row_def\<close>)
  then have st: "map irq_start (intc_bases (dat s')) = [4, 36, 68, 100]" by (simp add: upt_conv_Cons)
  have fm: "\<forall>b \<in> set (intc_bases (dat s')). first_mapping b = 0"
    using tab by (auto simp: in_set_conv_nth aws_row_def)
  obtain s3 where s3: "run_state (pcie_irqs_exit K p) s' = ((), s3)" by (metis surj_pair old.unit.exhaust)
  have up3: "aws_up p rs 4 s3"
    using up s3 by (auto simp: aws_up_def pcie_irqs_exit_def pci_live_def live_append irq_name_of_append name_step_def split: if_splits)
  have "pci_live (snd (run_state (pcie_aws_irqs_exit K p) s')) = Some rs"
    using aws_exit_loop_down [OF assms(1) up3] s3 up3 by (simp add: pcie_aws_irqs_exit_def aws_up_def)
  then show ?thesis using st fm by blast
qed

definition demo_pci_K :: "pci_call kenv" where
  "demo_pci_K tr c = (case c of
     Free_irq v x \<Rightarrow> irq_name_of tr v x
   | Request_irq v h x n \<Rightarrow> 0 | Pci_enable_device \<Rightarrow> 0 | Pci_request_regions \<Rightarrow> 0 | Pcie_init_svm \<Rightarrow> 0
   | Op (Pci_alloc_irq_vectors n) \<Rightarrow> uint n
   | Op x \<Rightarrow> 0
   | _ \<Rightarrow> int (length tr) + 1)"

lemma aws_init_loop_succeeds:
  "fst (run_state (aws_init_loop demo_pci_K p i n) s) = 0"
  by (induction n arbitrary: i s) (simp_all add: Let_def demo_pci_K_def case_prod_beta)

theorem aws_irqs_init_exit_witness:
  "\<forall>d. \<exists>s'. run_state (pcie_aws_irqs_init demo_pci_K demo_pci) \<lparr>trace = [], dat = d\<lparr>intc_bases := demo_aws_bases\<rparr>\<rparr> = (0, s')
     \<and> pci_live (snd (run_state (pcie_aws_irqs_exit demo_pci_K demo_pci) s')) = Some {#}"
proof
  fix d :: tlkm_pcie_device
  let ?s = "\<lparr>trace = [], dat = d\<lparr>intc_bases := demo_aws_bases\<rparr>\<rparr> :: pci_st"
  let ?run = "run_state (pcie_aws_irqs_init demo_pci_K demo_pci) ?s"
  have "fst ?run = 0"
    by (simp add: pcie_aws_irqs_init_def case_prod_beta aws_init_loop_succeeds)
  then have run: "?run = (0, snd ?run)" by (metis prod.collapse)
  have "aws_irq_env demo_pci_K" by (simp add: aws_irq_env_def demo_pci_K_def)
  moreover have "pci_live ?s = Some {#}" by (simp add: pci_live_def)
  moreover have "length (intc_bases (dat ?s)) = AWS_NUM_IRQ_CONTROLLERS"
    by (simp add: demo_aws_bases_def AWS_NUM_IRQ_CONTROLLERS_def)
  ultimately show "\<exists>s'. ?run = (0, s') \<and> pci_live (snd (run_state (pcie_aws_irqs_exit demo_pci_K demo_pci) s')) = Some {#}"
    using aws_irqs_init_exit [OF _ _ _ run] run by blast
qed

text \<open>A failed request for a direct interrupt goes unnoticed: the interrupt is registered as if it
  had succeeded.\<close>

lemma aws_direct_request_ignored:
  assumes "irq_no m < NUM_DIRECT_IRQS"
  shows "\<exists>s'. pcie_aws_irqs_request_platform_irq K p ms m s = Some (0, s')"
  using assms by (simp add: pcie_aws_irqs_request_platform_irq_def)

end
