(* ===== verification/Pcie_Qdma.thy ===== *)
theory Pcie_Qdma
  imports Pcie_Irq
begin

text \<open>
  Set-up and removal of the QDMA core of Versal devices, \<^verbatim>\<open>pcie/pcie_qdma.c\<close>: the registers of BAR 2
  are mapped for the time of the set-up, the queue contexts are cleared and programmed through
  the indirect context registers, and the completion ring is allocated. Bit fields are laid out
  from the least significant bit, as the compiler does on this platform.
\<close>

unbundle bit_operations_syntax

section \<open>Indirect contexts\<close>

definition QDMA_TRQ_SEL_FMAP :: u64 where [tlkm_const]: "QDMA_TRQ_SEL_FMAP = 0x400"
definition QDMA_CTXT_REG_OFF :: u64 where [tlkm_const]: "QDMA_CTXT_REG_OFF = 0x800"
definition QDMA_QID2VEC_REG_OFF :: u64 where [tlkm_const]: "QDMA_QID2VEC_REG_OFF = 0xA80"
definition QDMA_C2H_BUF_SIZE_OFF :: u64 where [tlkm_const]: "QDMA_C2H_BUF_SIZE_OFF = 0xAB0"
definition QDMA_C2H_MM_CTRL_OFF :: u64 where [tlkm_const]: "QDMA_C2H_MM_CTRL_OFF = 0x1004"
definition QDMA_H2C_MM_CTRL_OFF :: u64 where [tlkm_const]: "QDMA_H2C_MM_CTRL_OFF = 0x1204"
definition QDMA_PIDX_UPD_OFF :: u64 where [tlkm_const]: "QDMA_PIDX_UPD_OFF = 0x6400"

definition QDMA_CTXT_CMD_CLR :: u32 where [tlkm_const]: "QDMA_CTXT_CMD_CLR = 0"
definition QDMA_CTXT_CMD_WR :: u32 where [tlkm_const]: "QDMA_CTXT_CMD_WR = 1"
definition QDMA_CTXT_CMD_INV :: u32 where [tlkm_const]: "QDMA_CTXT_CMD_INV = 3"
definition QDMA_CTXT_BUSY :: u32 where [tlkm_const]: "QDMA_CTXT_BUSY = 1"

definition QDMA_CTXT_SELC_DEC_SW_C2H :: u32 where [tlkm_const]: "QDMA_CTXT_SELC_DEC_SW_C2H = 0"
definition QDMA_CTXT_SELC_DEC_SW_H2C :: u32 where [tlkm_const]: "QDMA_CTXT_SELC_DEC_SW_H2C = 1"
definition QDMA_CTXT_SELC_DEC_HW_C2H :: u32 where [tlkm_const]: "QDMA_CTXT_SELC_DEC_HW_C2H = 2"
definition QDMA_CTXT_SELC_DEC_HW_H2C :: u32 where [tlkm_const]: "QDMA_CTXT_SELC_DEC_HW_H2C = 3"
definition QDMA_CTXT_SELC_DEC_CR_C2H :: u32 where [tlkm_const]: "QDMA_CTXT_SELC_DEC_CR_C2H = 4"
definition QDMA_CTXT_SELC_DEC_CR_H2C :: u32 where [tlkm_const]: "QDMA_CTXT_SELC_DEC_CR_H2C = 5"
definition QDMA_CTXT_SELC_WRB :: u32 where [tlkm_const]: "QDMA_CTXT_SELC_WRB = 6"
definition QDMA_CTXT_SELC_PFTCH :: u32 where [tlkm_const]: "QDMA_CTXT_SELC_PFTCH = 7"

definition QDMA_SW_DESC_CTXT_QEN :: u32 where [tlkm_const]: "QDMA_SW_DESC_CTXT_QEN = 1"
definition QDMA_SW_DESC_CTXT_BYPASS :: u32 where [tlkm_const]: "QDMA_SW_DESC_CTXT_BYPASS = push_bit 18 1"
definition QDMA_SW_DESC_CTXT_IRQ_EN :: u32 where [tlkm_const]: "QDMA_SW_DESC_CTXT_IRQ_EN = push_bit 21 1"
definition QDMA_SW_DESC_CTXT_IS_MM :: u32 where [tlkm_const]: "QDMA_SW_DESC_CTXT_IS_MM = push_bit 31 1"
definition QDMA_PFCH_CTXT_BYP :: u32 where [tlkm_const]: "QDMA_PFCH_CTXT_BYP = 1"
definition QDMA_PFCH_CTXT_VALID :: u32 where [tlkm_const]: "QDMA_PFCH_CTXT_VALID = push_bit 13 1"
definition QDMA_CMPT_BUF_SZ :: u32 where [tlkm_const]: "QDMA_CMPT_BUF_SZ = 0x8000"
definition QDMA_MM_QID :: u32 where [tlkm_const]: "QDMA_MM_QID = 0"
definition QDMA_ST_QID :: u32 where [tlkm_const]: "QDMA_ST_QID = 1"
definition DESC_GEN_ID :: u64 where [tlkm_const]: "DESC_GEN_ID = 0xDE5C1000"

text \<open>Offsets in \<^verbatim>\<open>struct qdma_ctxt_reg\<close>.\<close>

definition ctxt_data_off :: "nat \<Rightarrow> int" where "ctxt_data_off i = 4 + 4 * int i"
definition ctxt_mask_off :: "nat \<Rightarrow> int" where "ctxt_mask_off i = 20 + 4 * int i"
definition ctxt_cmd_off :: int where "ctxt_cmd_off = 36"

text \<open>Polling of the busy bit: \<open>n\<close> reads are left.\<close>

fun qdma_poll :: "pci_call kenv \<Rightarrow> int \<Rightarrow> nat \<Rightarrow> int pci_m" where
  "qdma_poll K cmd 0 = State_Monad.return 1"
| "qdma_poll K cmd (Suc n) = do {
     v \<leftarrow> kcall K (Op (Ioread32 cmd));
     if word_of_int v AND QDMA_CTXT_BUSY = 0 then State_Monad.return 0 else qdma_poll K cmd n
   }"

fun iowrite_words :: "pci_call kenv \<Rightarrow> u32 list \<Rightarrow> int \<Rightarrow> unit pci_m" where
  "iowrite_words K [] a = State_Monad.return ()"
| "iowrite_words K (w # ws) a = do { iowrite32 K w a; iowrite_words K ws (a + 4) }"

definition qdma_cmd_word :: "u32 \<Rightarrow> u32 \<Rightarrow> u32 \<Rightarrow> u32" where
  "qdma_cmd_word ctxt_sel cmd qid =
     push_bit 1 (ctxt_sel AND 0xF) OR push_bit 5 cmd OR push_bit 7 (qid AND 0x7FF)"

definition qdma_program_ind_context :: "pci_call kenv \<Rightarrow> int \<Rightarrow> u32 list \<Rightarrow> u32 list \<Rightarrow> u32 \<Rightarrow> u32 \<Rightarrow> int pci_m" where
  "qdma_program_ind_context K ctxt_regs msk data ctxt_sel qid = do {
     iowrite_words K msk (ctxt_regs + ctxt_mask_off 0);
     iowrite_words K data (ctxt_regs + ctxt_data_off 0);
     iowrite32 K (qdma_cmd_word ctxt_sel QDMA_CTXT_CMD_WR qid) (ctxt_regs + ctxt_cmd_off);
     qdma_poll K (ctxt_regs + ctxt_cmd_off) 99
   }"

definition qdma_clear_ind_context :: "pci_call kenv \<Rightarrow> int \<Rightarrow> u32 \<Rightarrow> u32 \<Rightarrow> int pci_m" where
  "qdma_clear_ind_context K ctxt_regs ctxt_sel qid = do {
     iowrite32 K (qdma_cmd_word ctxt_sel QDMA_CTXT_CMD_CLR qid) (ctxt_regs + ctxt_cmd_off);
     qdma_poll K (ctxt_regs + ctxt_cmd_off) 99
   }"

text \<open>The command word is computed here, but not written.\<close>

definition qdma_inv_ind_context :: "pci_call kenv \<Rightarrow> int \<Rightarrow> u32 \<Rightarrow> u32 \<Rightarrow> int pci_m" where
  "qdma_inv_ind_context K ctxt_regs ctxt_sel qid =
     (let w_val = qdma_cmd_word ctxt_sel QDMA_CTXT_CMD_INV qid
      in qdma_poll K (ctxt_regs + ctxt_cmd_off) 99)"

section \<open>Contents of the contexts\<close>

text \<open>A structure with bit fields is a list of widths and values, from the least significant bit.\<close>

fun pack_bits :: "(nat \<times> u64) list \<Rightarrow> nat \<Rightarrow> nat" where
  "pack_bits [] k = 0"
| "pack_bits ((n, v) # fs) k = push_bit k (take_bit n (unat v)) + pack_bits fs (k + n)"

definition words_of :: "nat \<Rightarrow> u32 list" where
  "words_of v = map (\<lambda>i. word_of_nat (drop_bit (32 * i) v)) [0..<4]"

record qdma_sw_desc_ctxt =
  sw_pidx :: u64
  irq_arm :: u64
  sw_qen :: u64
  fcrd_en :: u64
  wbi_chk :: u64
  wbi_intrl_en :: u64
  sw_fnc_id :: u64
  rng_sz :: u64
  dsc_size :: u64
  sw_bypass :: u64
  mm_chn :: u64
  wbk_en :: u64
  irq_en :: u64
  port_id :: u64
  irq_no_last :: u64
  sw_err :: u64
  err_wb_sent :: u64
  irq_req :: u64
  mrkr_dis :: u64
  is_mm :: u64
  dsc_base :: u64

definition sw_desc_zero :: qdma_sw_desc_ctxt where
  "sw_desc_zero = \<lparr>sw_pidx = 0, irq_arm = 0, sw_qen = 0, fcrd_en = 0, wbi_chk = 0, wbi_intrl_en = 0, sw_fnc_id = 0,
     rng_sz = 0, dsc_size = 0, sw_bypass = 0, mm_chn = 0, wbk_en = 0, irq_en = 0, port_id = 0, irq_no_last = 0,
     sw_err = 0, err_wb_sent = 0, irq_req = 0, mrkr_dis = 0, is_mm = 0, dsc_base = 0\<rparr>"

definition sw_desc_words :: "qdma_sw_desc_ctxt \<Rightarrow> u32 list" where
  "sw_desc_words c = words_of (pack_bits [(16, sw_pidx c), (1, irq_arm c), (15, 0), (1, sw_qen c), (1, fcrd_en c),
     (1, wbi_chk c), (1, wbi_intrl_en c), (8, sw_fnc_id c), (4, rng_sz c), (2, dsc_size c), (1, sw_bypass c),
     (1, mm_chn c), (1, wbk_en c), (1, irq_en c), (3, port_id c), (1, irq_no_last c), (2, sw_err c),
     (1, err_wb_sent c), (1, irq_req c), (1, mrkr_dis c), (1, is_mm c), (64, dsc_base c)] 0)"

record qdma_cmpl_ctxt =
  en_stat_desc :: u64
  en_int :: u64
  trig_mode :: u64
  cm_fnc_id :: u64
  counter_idx :: u64
  timer_idx :: u64
  int_st :: u64
  color :: u64
  qsize_idx :: u64
  baddr_high_l :: u64
  baddr_high_h :: u64
  desc_size :: u64
  cm_pidx :: u64
  cm_cidx :: u64
  cm_valid :: u64
  cm_err :: u64
  user_trig_pend :: u64
  timer_running :: u64
  full_upd :: u64

definition cmpl_zero :: qdma_cmpl_ctxt where
  "cmpl_zero = \<lparr>en_stat_desc = 0, en_int = 0, trig_mode = 0, cm_fnc_id = 0, counter_idx = 0, timer_idx = 0, int_st = 0,
     color = 0, qsize_idx = 0, baddr_high_l = 0, baddr_high_h = 0, desc_size = 0, cm_pidx = 0, cm_cidx = 0,
     cm_valid = 0, cm_err = 0, user_trig_pend = 0, timer_running = 0, full_upd = 0\<rparr>"

definition cmpl_words :: "qdma_cmpl_ctxt \<Rightarrow> u32 list" where
  "cmpl_words c = words_of (pack_bits [(1, en_stat_desc c), (1, en_int c), (3, trig_mode c), (8, cm_fnc_id c),
     (4, counter_idx c), (4, timer_idx c), (2, int_st c), (1, color c), (4, qsize_idx c), (36, baddr_high_l c),
     (22, baddr_high_h c), (2, desc_size c), (16, cm_pidx c), (16, cm_cidx c), (1, cm_valid c), (2, cm_err c),
     (1, user_trig_pend c), (1, timer_running c), (1, full_upd c), (2, 0)] 0)"

text \<open>The contexts the set-up programs: software contexts of the memory-mapped queues and of the two
  stream queues, prefetch context, completion context.\<close>

definition mm_sw_words :: "u32 list" where
  "mm_sw_words = [QDMA_IRQ_ARM,
     QDMA_SW_DESC_CTXT_QEN OR QDMA_SW_DESC_CTXT_BYPASS OR QDMA_SW_DESC_CTXT_IRQ_EN OR QDMA_SW_DESC_CTXT_IS_MM, 0, 0]"

definition c2h_st_ctxt :: qdma_sw_desc_ctxt where
  "c2h_st_ctxt = sw_desc_zero\<lparr>sw_qen := 1, fcrd_en := 1, sw_bypass := 1\<rparr>"

definition h2c_st_ctxt :: qdma_sw_desc_ctxt where
  "h2c_st_ctxt = sw_desc_zero\<lparr>irq_arm := 1, sw_qen := 1, sw_bypass := 1, irq_en := 1\<rparr>"

definition pftch_words :: "u32 list" where
  "pftch_words = [QDMA_PFCH_CTXT_BYP, QDMA_PFCH_CTXT_VALID, 0, 0]"

definition cmpl_ctxt :: "u64 \<Rightarrow> qdma_cmpl_ctxt" where
  "cmpl_ctxt ring_addr = cmpl_zero\<lparr>en_stat_desc := 1, en_int := 1, trig_mode := 3, qsize_idx := 0,
     baddr_high_l := drop_bit 6 ring_addr AND 0xFFFFFFFFF,
     baddr_high_h := drop_bit 36 (drop_bit 6 ring_addr) AND 0x3FFFFF, cm_valid := 1, full_upd := 1\<rparr>"

section \<open>Set-up\<close>

fun iounmap_all :: "pci_call kenv \<Rightarrow> int list \<Rightarrow> unit pci_m" where
  "iounmap_all K [] = State_Monad.return ()"
| "iounmap_all K (a # as) = do { kdo K (Iounmap a); iounmap_all K as }"

text \<open>The mappings, in the order of the code; \<open>maps\<close> holds those made so far, the latest first. If one
  fails, the labels at the end of the function undo them in this order.\<close>

fun qdma_map_regs :: "pci_call kenv \<Rightarrow> u64 \<Rightarrow> (u64 \<times> u64) list \<Rightarrow> int list \<Rightarrow> int list option pci_m" where
  "qdma_map_regs K bar [] maps = State_Monad.return (Some maps)"
| "qdma_map_regs K bar ((off, len) # regs) maps = do {
     a \<leftarrow> kcall K (Ioremap (bar + off) len);
     if a = 0 then do { iounmap_all K maps; State_Monad.return None }
     else qdma_map_regs K bar regs (a # maps)
   }"

definition qdma_regs :: "(u64 \<times> u64) list" where
  "qdma_regs = [(QDMA_CTXT_REG_OFF, 40), (QDMA_QID2VEC_REG_OFF, 8), (QDMA_C2H_MM_CTRL_OFF, 4),
     (QDMA_H2C_MM_CTRL_OFF, 4), (QDMA_TRQ_SEL_FMAP, 4), (QDMA_C2H_BUF_SIZE_OFF, 4), (0x204, 4)]"

text \<open>The results of clearing are or-ed together.\<close>

fun qdma_clear_all :: "pci_call kenv \<Rightarrow> int \<Rightarrow> (u32 \<times> u32) list \<Rightarrow> int \<Rightarrow> int pci_m" where
  "qdma_clear_all K ctxt [] res = State_Monad.return res"
| "qdma_clear_all K ctxt ((sel, qid) # xs) res = do {
     r \<leftarrow> qdma_clear_ind_context K ctxt sel qid;
     qdma_clear_all K ctxt xs (res OR r)
   }"

definition qdma_contexts :: "(u32 \<times> u32) list" where
  "qdma_contexts =
     [(QDMA_CTXT_SELC_DEC_SW_C2H, QDMA_MM_QID), (QDMA_CTXT_SELC_DEC_HW_C2H, QDMA_MM_QID),
      (QDMA_CTXT_SELC_DEC_CR_C2H, QDMA_MM_QID), (QDMA_CTXT_SELC_DEC_SW_H2C, QDMA_MM_QID),
      (QDMA_CTXT_SELC_DEC_HW_H2C, QDMA_MM_QID), (QDMA_CTXT_SELC_DEC_CR_H2C, QDMA_MM_QID),
      (QDMA_CTXT_SELC_DEC_SW_C2H, QDMA_ST_QID), (QDMA_CTXT_SELC_DEC_HW_C2H, QDMA_ST_QID),
      (QDMA_CTXT_SELC_DEC_CR_C2H, QDMA_ST_QID), (QDMA_CTXT_SELC_DEC_SW_H2C, QDMA_ST_QID),
      (QDMA_CTXT_SELC_DEC_HW_H2C, QDMA_ST_QID), (QDMA_CTXT_SELC_DEC_CR_H2C, QDMA_ST_QID),
      (QDMA_CTXT_SELC_PFTCH, QDMA_ST_QID), (QDMA_CTXT_SELC_WRB, QDMA_ST_QID)]"

fun qdma_inv_all :: "pci_call kenv \<Rightarrow> int \<Rightarrow> (u32 \<times> u32) list \<Rightarrow> unit pci_m" where
  "qdma_inv_all K ctxt [] = State_Monad.return ()"
| "qdma_inv_all K ctxt ((sel, qid) # xs) = do { _ \<leftarrow> qdma_inv_ind_context K ctxt sel qid; qdma_inv_all K ctxt xs }"

text \<open>The labels from \<^verbatim>\<open>fail_cmpt_st\<close> to the end: invalidate the contexts programmed so far, the latest
  first, free the ring, unmap.\<close>

definition qdma_fail :: "pci_call kenv \<Rightarrow> int \<Rightarrow> (u32 \<times> u32) list \<Rightarrow> int list \<Rightarrow> int pci_m" where
  "qdma_fail K ctxt invs maps = do {
     qdma_inv_all K ctxt invs;
     ring \<leftarrow> getd cmpt_ring;
     addr \<leftarrow> getd cmpt_ring_addr;
     kdo K (Dma_free_coherent 512 ring addr);
     iounmap_all K maps;
     State_Monad.return (- EACCES)
   }"

definition qdma_program_all :: "pci_call kenv \<Rightarrow> int \<Rightarrow> int \<Rightarrow> int list \<Rightarrow> int pci_m" where
  "qdma_program_all K ctxt ack maps = do {
     let ones = replicate 4 0xFFFFFFFF;
     let ring_size_reg = maps ! 0;
     let buf_size_reg = maps ! 1;
     r \<leftarrow> qdma_program_ind_context K ctxt ones mm_sw_words QDMA_CTXT_SELC_DEC_SW_C2H QDMA_MM_QID;
     if r \<noteq> 0 then qdma_fail K ctxt [] (ack # maps) else do {
     r \<leftarrow> qdma_program_ind_context K ctxt ones mm_sw_words QDMA_CTXT_SELC_DEC_SW_H2C QDMA_MM_QID;
     if r \<noteq> 0 then qdma_fail K ctxt [(QDMA_CTXT_SELC_DEC_SW_C2H, QDMA_MM_QID)] (ack # maps) else do {
     iowrite32 K QDMA_CMPT_BUF_SZ buf_size_reg;
     iowrite32 K QDMA_CMPT_RING_SZ ring_size_reg;
     r \<leftarrow> qdma_program_ind_context K ctxt ones (sw_desc_words c2h_st_ctxt) QDMA_CTXT_SELC_DEC_SW_C2H QDMA_ST_QID;
     if r \<noteq> 0 then qdma_fail K ctxt [(QDMA_CTXT_SELC_DEC_SW_H2C, QDMA_MM_QID), (QDMA_CTXT_SELC_DEC_SW_C2H, QDMA_MM_QID)] (ack # maps) else do {
     r \<leftarrow> qdma_program_ind_context K ctxt ones (sw_desc_words h2c_st_ctxt) QDMA_CTXT_SELC_DEC_SW_H2C QDMA_ST_QID;
     if r \<noteq> 0 then qdma_fail K ctxt [(QDMA_CTXT_SELC_DEC_SW_C2H, QDMA_ST_QID), (QDMA_CTXT_SELC_DEC_SW_H2C, QDMA_MM_QID),
         (QDMA_CTXT_SELC_DEC_SW_C2H, QDMA_MM_QID)] (ack # maps) else do {
     r \<leftarrow> qdma_program_ind_context K ctxt [0xFFFFFFFF, 0xFFFFFFFF, 0, 0] pftch_words QDMA_CTXT_SELC_PFTCH QDMA_ST_QID;
     if r \<noteq> 0 then qdma_fail K ctxt [(QDMA_CTXT_SELC_DEC_SW_H2C, QDMA_ST_QID), (QDMA_CTXT_SELC_DEC_SW_C2H, QDMA_ST_QID),
         (QDMA_CTXT_SELC_DEC_SW_H2C, QDMA_MM_QID), (QDMA_CTXT_SELC_DEC_SW_C2H, QDMA_MM_QID)] (ack # maps) else do {
     addr \<leftarrow> getd cmpt_ring_addr;
     r \<leftarrow> qdma_program_ind_context K ctxt ones (cmpl_words (cmpl_ctxt addr)) QDMA_CTXT_SELC_WRB QDMA_ST_QID;
     if r \<noteq> 0 then qdma_fail K ctxt [(QDMA_CTXT_SELC_PFTCH, QDMA_ST_QID), (QDMA_CTXT_SELC_DEC_SW_H2C, QDMA_ST_QID),
         (QDMA_CTXT_SELC_DEC_SW_C2H, QDMA_ST_QID), (QDMA_CTXT_SELC_DEC_SW_H2C, QDMA_MM_QID),
         (QDMA_CTXT_SELC_DEC_SW_C2H, QDMA_MM_QID)] (ack # maps)
     else State_Monad.return 0 }}}}}
   }"

text \<open>Routing of the queues and start of the engines.\<close>

definition qdma_start :: "pci_call kenv \<Rightarrow> int list \<Rightarrow> unit pci_m" where
  "qdma_start K maps = do {
     let fmap_reg = maps ! 2;
     let h2c_mm_ctrl = maps ! 3;
     let c2h_mm_ctrl = maps ! 4;
     let qid2vec_regs = maps ! 5;
     iowrite32 K QDMA_MM_QID qid2vec_regs;
     iowrite32 K (word_of_int QDMA_IRQ_VEC_C2H OR push_bit 9 (word_of_int QDMA_IRQ_VEC_H2C)) (qid2vec_regs + 4);
     iowrite32 K QDMA_ST_QID qid2vec_regs;
     iowrite32 K (word_of_int QDMA_IRQ_VEC_C2H_ST OR push_bit 9 (word_of_int QDMA_IRQ_VEC_H2C_ST)) (qid2vec_regs + 4);
     iowrite32 K (push_bit 11 2) fmap_reg;
     iowrite32 K 1 c2h_mm_ctrl;
     iowrite32 K 1 h2c_mm_ctrl;
     ack \<leftarrow> getd ack_register_aws;
     iowrite32 K (QDMA_DMAP_SEL_CMPT_TRIG_USER OR QDMA_DMAP_SEL_CMPT_IRQ_EN OR QDMA_DMAP_SEL_CMPT_WRB_EN) (ack + 28)
   }"

definition desc_gen_present :: "int \<Rightarrow> bool" where
  "desc_gen_present v \<longleftrightarrow> (word_of_int v :: u64) AND 0xFFFFFFFF = DESC_GEN_ID"

definition pcie_qdma_init :: "pci_call kenv \<Rightarrow> pci_dev \<Rightarrow> int pci_m" where
  "pcie_qdma_init K p = do {
     id_reg \<leftarrow> getd (\<lambda>d. plat_reg d ''PLATFORM_COMPONENT_DMA0'' 24);
     reset_reg \<leftarrow> getd (\<lambda>d. plat_reg d ''PLATFORM_COMPONENT_DMA0'' 256);
     v \<leftarrow> kcall K (Op (Readq id_reg));
     if \<not> desc_gen_present v then State_Monad.return (- ENODEV) else do {
     kdo K (Op (Writeq 1 reset_reg));
     let qdma_bar_start = pci_resource_start p 2;
     if pci_resource_len p 2 < 0x18010 then State_Monad.return (- ENODEV) else do {
     mo \<leftarrow> qdma_map_regs K qdma_bar_start qdma_regs [];
     (case mo of None \<Rightarrow> State_Monad.return (- EFAULT) | Some maps \<Rightarrow> do {
        ack \<leftarrow> kcall K (Ioremap (qdma_bar_start + QDMA_PIDX_UPD_OFF) 32);
        modd (\<lambda>d. d\<lparr>ack_register_aws := ack\<rparr>);
        if ack = 0 then do { iounmap_all K maps; State_Monad.return (- EFAULT) } else do {
        ring \<leftarrow> kcall K (Dma_alloc_coherent 512);
        modd (\<lambda>d. d\<lparr>cmpt_ring := ring, cmpt_ring_addr := dma_handle p ring\<rparr>);
        if ring = 0 then do { iounmap_all K (ack # maps); State_Monad.return (- ENOMEM) } else do {
        let ctxt_regs = maps ! 6;
        res \<leftarrow> qdma_clear_all K ctxt_regs qdma_contexts 0;
        if res \<noteq> 0 then qdma_fail K ctxt_regs [] (ack # maps) else do {
        r \<leftarrow> qdma_program_all K ctxt_regs ack maps;
        if r \<noteq> 0 then State_Monad.return r else do {
        qdma_start K maps;
        iounmap_all K maps;
        State_Monad.return 0
     }}}}}) }}
   }"

section \<open>Removal\<close>

definition qdma_stop_engine :: "pci_call kenv \<Rightarrow> u64 \<Rightarrow> int \<Rightarrow> int pci_m" where
  "qdma_stop_engine K reg res = do {
     a \<leftarrow> kcall K (Ioremap reg 4);
     if a = 0 then State_Monad.return (- EFAULT)
     else do { iowrite32 K 0 a; kdo K (Iounmap a); State_Monad.return res }
   }"

definition pcie_qdma_exit :: "pci_call kenv \<Rightarrow> pci_dev \<Rightarrow> int pci_m" where
  "pcie_qdma_exit K p = do {
     id_reg \<leftarrow> getd (\<lambda>d. plat_reg d ''PLATFORM_COMPONENT_DMA0'' 24);
     ring \<leftarrow> getd cmpt_ring;
     addr \<leftarrow> getd cmpt_ring_addr;
     (if addr \<noteq> 0
      then do { kdo K (Dma_free_coherent 512 ring addr); modd (\<lambda>d. d\<lparr>cmpt_ring_addr := 0, cmpt_ring := 0\<rparr>) }
      else State_Monad.return ());
     v \<leftarrow> kcall K (Op (Readq id_reg));
     if \<not> desc_gen_present v then State_Monad.return (- ENODEV) else do {
     ack \<leftarrow> getd ack_register_aws;
     kdo K (Iounmap ack);
     let qdma_bar_start = pci_resource_start p 2;
     res1 \<leftarrow> qdma_stop_engine K (qdma_bar_start + QDMA_H2C_MM_CTRL_OFF) 0;
     res2 \<leftarrow> qdma_stop_engine K (qdma_bar_start + QDMA_C2H_MM_CTRL_OFF) res1;
     ctxt_regs \<leftarrow> kcall K (Ioremap (qdma_bar_start + QDMA_CTXT_REG_OFF) 40);
     if ctxt_regs = 0 then State_Monad.return (- EFAULT) else do {
     r1 \<leftarrow> qdma_inv_ind_context K ctxt_regs QDMA_CTXT_SELC_DEC_SW_C2H QDMA_MM_QID;
     r2 \<leftarrow> qdma_inv_ind_context K ctxt_regs QDMA_CTXT_SELC_DEC_SW_H2C QDMA_MM_QID;
     kdo K (Iounmap ctxt_regs);
     State_Monad.return (if r1 OR r2 \<noteq> 0 then - EACCES else res2)
   }}}"

section \<open>Resources\<close>

lemma poll_owns: "triple (pci.owns rs P) (qdma_poll K a n) (\<lambda>_. pci.owns rs P)"
  by (induction n) (auto intro!: triple_return triple_bind [OF pci.owns_neutral(2)] triple_if)

lemma iowrite_words_owns: "triple (pci.owns rs P) (iowrite_words K ws a) (\<lambda>_. pci.owns rs P)"
  by (induction ws arbitrary: a) (auto intro!: triple_return triple_bind [OF pci.owns_neutral(1)])

lemma program_owns: "triple (pci.owns rs P) (qdma_program_ind_context K ctxt msk data sel qid) (\<lambda>_. pci.owns rs P)"
  unfolding qdma_program_ind_context_def
  by (rule triple_bind [OF iowrite_words_owns], rule triple_bind [OF iowrite_words_owns],
      rule triple_bind [OF pci.owns_neutral(1)], simp_all add: poll_owns)

lemma clear_owns: "triple (pci.owns rs P) (qdma_clear_ind_context K ctxt sel qid) (\<lambda>_. pci.owns rs P)"
  unfolding qdma_clear_ind_context_def
  by (rule triple_bind [OF pci.owns_neutral(1)]) (simp_all add: poll_owns)

lemma clear_all_owns: "triple (pci.owns rs P) (qdma_clear_all K ctxt xs res) (\<lambda>_. pci.owns rs P)"
  by (induction xs arbitrary: res) (auto intro!: triple_return triple_bind [OF clear_owns])

lemma inv_owns: "triple (pci.owns rs P) (qdma_inv_ind_context K ctxt sel qid) (\<lambda>_. pci.owns rs P)"
  by (simp add: qdma_inv_ind_context_def poll_owns)

lemma inv_all_owns: "triple (pci.owns rs P) (qdma_inv_all K ctxt xs) (\<lambda>_. pci.owns rs P)"
  by (induction xs) (auto intro!: triple_return triple_bind [OF inv_owns])

lemma iounmap_all_owns: "triple (pci.owns (mset (map Iomap as) + rs) P) (iounmap_all K as) (\<lambda>_. pci.owns rs P)"
  by (induction as) (auto intro!: triple_return triple_bind [OF pci.owns_release(1)])

lemma map_regs_owns:
  "triple (pci.owns (mset (map Iomap maps) + rs) P) (qdma_map_regs K bar regs maps)
     (\<lambda>mo. case mo of None \<Rightarrow> pci.owns rs P | Some maps' \<Rightarrow> pci.owns (mset (map Iomap maps') + rs) P)"
proof (induction regs arbitrary: maps)
  case Nil
  then show ?case by (auto intro!: triple_return)
next
  case (Cons x regs)
  obtain off len where x: "x = (off, len)" by (cases x)
  have fail: "triple (pci.owns (mset (map Iomap maps) + rs) P) (do { iounmap_all K maps; State_Monad.return None })
     (\<lambda>mo. case mo of None \<Rightarrow> pci.owns rs P | Some maps' \<Rightarrow> pci.owns (mset (map Iomap maps') + rs) P)"
    by (rule triple_bind [OF iounmap_all_owns], rule triple_return) simp
  show ?case unfolding x qdma_map_regs.simps
    by (rule triple_bind [OF pci.owns_acquire], simp, rule triple_if)
      (use fail Cons.IH [of "_ # maps"] in simp_all)
qed

text \<open>The ring is held.\<close>

definition ring_at :: "int \<Rightarrow> (tlkm_pcie_device \<Rightarrow> bool) \<Rightarrow> tlkm_pcie_device \<Rightarrow> bool" where
  "ring_at ring P d \<longleftrightarrow> cmpt_ring d = ring \<and> P d"

lemma qdma_fail_owns:
  "triple (pci.owns (add_mset (Coherent ring) (mset (map Iomap maps) + rs)) (ring_at ring P)) (qdma_fail K ctxt invs maps)
     (\<lambda>r s. r = - EACCES \<and> pci.owns rs (ring_at ring P) s)"
proof (rule tripleI)
  fix s r s'
  assume o: "pci.owns (add_mset (Coherent ring) (mset (map Iomap maps) + rs)) (ring_at ring P) s"
    and run: "run_state (qdma_fail K ctxt invs maps) s = (r, s')"
  obtain s1 where s1: "run_state (qdma_inv_all K ctxt invs) s = ((), s1)" by (metis surj_pair old.unit.exhaust)
  have o1: "pci.owns (add_mset (Coherent ring) (mset (map Iomap maps) + rs)) (ring_at ring P) s1"
    by (rule tripleD [OF inv_all_owns o s1])
  then have ring: "cmpt_ring (dat s1) = ring" by (simp add: pci_owns ring_at_def)
  obtain s2 where s2: "run_state (kdo K (Dma_free_coherent 512 ring (cmpt_ring_addr (dat s1)))) s1 = ((), s2)" by simp
  have o2: "pci.owns (mset (map Iomap maps) + rs) (ring_at ring P) s2"
    by (rule tripleD [OF pci.owns_release(1) o1 s2]) simp
  obtain s3 where s3: "run_state (iounmap_all K maps) s2 = ((), s3)" by (metis surj_pair old.unit.exhaust)
  have "r = - EACCES \<and> s' = s3" using run s1 s2 s3 ring by (simp add: qdma_fail_def)
  then show "r = - EACCES \<and> pci.owns rs (ring_at ring P) s'" using tripleD [OF iounmap_all_owns o2 s3] by simp
qed

text \<open>One step of the programming: either the next one follows, or everything is undone.\<close>

definition qdma_outcome where
  "qdma_outcome R rs P r s \<longleftrightarrow> pci.owns (if r = (0 :: int) then R else rs) P s"

lemma program_step:
  assumes "triple (pci.owns R P) cont Q" and "triple (pci.owns R P) fail Q"
  shows "triple (pci.owns R P) (do { r \<leftarrow> qdma_program_ind_context K ctxt msk data sel qid; if r \<noteq> 0 then fail else cont }) Q"
  by (rule triple_bind [OF program_owns], rule triple_if) (rule assms(2), rule assms(1))

lemma fail_outcome:
  "triple (pci.owns (add_mset (Coherent ring) (mset (map Iomap (ack # maps)) + rs)) (ring_at ring P)) (qdma_fail K ctxt invs (ack # maps))
     (qdma_outcome R rs (ring_at ring P))"
  by (rule triple_conseq [OF qdma_fail_owns]) (auto simp: qdma_outcome_def EACCES_def)

lemma program_all_owns:
  fixes rs :: "pci_resource multiset"
  defines "R \<equiv> \<lambda>ring ack maps. add_mset (Coherent ring) (mset (map Iomap (ack # maps)) + rs)"
  shows "triple (pci.owns (R ring ack maps) (ring_at ring P)) (qdma_program_all K ctxt ack maps)
     (qdma_outcome (R ring ack maps) rs (ring_at ring P))"
proof -
  have fail: "triple (pci.owns (R ring ack maps) (ring_at ring P)) (qdma_fail K ctxt invs (ack # maps))
      (qdma_outcome (R ring ack maps) rs (ring_at ring P))" for invs
    unfolding R_def by (rule fail_outcome)
  have fin: "triple (pci.owns (R ring ack maps) (ring_at ring P)) (State_Monad.return 0)
      (qdma_outcome (R ring ack maps) rs (ring_at ring P))"
    by (rule triple_return) (simp add: qdma_outcome_def)
  have get: "triple (pci.owns (R ring ack maps) (ring_at ring P)) (do { a \<leftarrow> getd cmpt_ring_addr; f a }) Q"
    if "\<And>a. triple (pci.owns (R ring ack maps) (ring_at ring P)) (f a) Q" for f :: "u64 \<Rightarrow> int pci_m" and Q
    by (rule triple_bind [OF triple_getd that], assumption)
  have wr: "triple (pci.owns (R ring ack maps) (ring_at ring P)) (do { iowrite32 K v a; m }) Q"
    if "triple (pci.owns (R ring ack maps) (ring_at ring P)) m Q" for v a and m :: "int pci_m" and Q
    by (rule triple_bind [OF pci.owns_neutral(1)]) (simp_all add: that)
  show ?thesis unfolding qdma_program_all_def Let_def
    by (intro program_step wr get fin fail)
qed

lemma start_owns: "triple (pci.owns rs P) (qdma_start K maps) (\<lambda>_. pci.owns rs P)"
  by (rule tripleI) (auto simp: qdma_start_def Let_def pci_owns pci_live_def live_append)

text \<open>What a set-up leaves behind: nothing if it fails, the mapping of the PIDX registers and the
  completion ring otherwise.\<close>

definition qdma_held :: "pci_dev \<Rightarrow> pci_resource multiset \<Rightarrow> (tlkm_pcie_device \<Rightarrow> bool) \<Rightarrow> pci_st \<Rightarrow> bool" where
  "qdma_held p rs P s \<longleftrightarrow> (\<exists>ack ring. ring \<noteq> 0 \<and> pci.owns ({#Coherent ring, Iomap ack#} + rs)
     (\<lambda>d. P d \<and> ack_register_aws d = ack \<and> cmpt_ring d = ring \<and> cmpt_ring_addr d = dma_handle p ring) s)"

text \<open>\<open>P\<close> does not depend on the fields the set-up writes.\<close>

definition qdma_stable :: "(tlkm_pcie_device \<Rightarrow> bool) \<Rightarrow> bool" where
  "qdma_stable P \<longleftrightarrow> (\<forall>d a r h. P (d\<lparr>ack_register_aws := a\<rparr>) = P d \<and> P (d\<lparr>cmpt_ring := r, cmpt_ring_addr := h\<rparr>) = P d
     \<and> P (d\<lparr>cmpt_ring_addr := h, cmpt_ring := r\<rparr>) = P d)"

lemma qdma_after_ring:
  assumes "ring \<noteq> 0" and "\<And>d. Q d \<Longrightarrow> P d \<and> ack_register_aws d = ack \<and> cmpt_ring_addr d = dma_handle p ring"
  shows "triple (pci.owns (add_mset (Coherent ring) (mset (map Iomap (ack # maps)) + rs)) (ring_at ring Q))
    (do {
        let ctxt_regs = maps ! 6;
        res \<leftarrow> qdma_clear_all K ctxt_regs qdma_contexts 0;
        if res \<noteq> 0 then qdma_fail K ctxt_regs [] (ack # maps) else do {
        r \<leftarrow> qdma_program_all K ctxt_regs ack maps;
        if r \<noteq> 0 then State_Monad.return r else do {
        qdma_start K maps;
        iounmap_all K maps;
        State_Monad.return 0
     }}})
    (\<lambda>r s. if r = 0 then qdma_held p rs P s else pci.owns rs P s)"
proof -
  let ?R = "add_mset (Coherent ring) (mset (map Iomap (ack # maps)) + rs)"
  let ?Q = "\<lambda>r s. if r = (0 :: int) then qdma_held p rs P s else pci.owns rs P s"
  have held: "pci.owns ({#Coherent ring, Iomap ack#} + rs) (ring_at ring Q) s \<Longrightarrow> qdma_held p rs P s" for s
    unfolding qdma_held_def using assms by (auto simp: pci_owns ring_at_def)
  have free: "pci.owns rs (ring_at ring Q) s \<Longrightarrow> pci.owns rs P s" for s
    using assms(2) by (auto simp: pci_owns ring_at_def)
  have eq: "?R = mset (map Iomap maps) + ({#Coherent ring, Iomap ack#} + rs)" by simp
  have last: "triple (pci.owns ?R (ring_at ring Q)) (do { qdma_start K maps; iounmap_all K maps; State_Monad.return 0 }) ?Q"
    unfolding eq by (rule triple_bind [OF start_owns], rule triple_bind [OF iounmap_all_owns], rule triple_return) (simp add: held)
  have err: "triple (qdma_outcome ?R rs (ring_at ring Q) r) (State_Monad.return r) ?Q" if "r \<noteq> 0" for r
    by (rule triple_return) (use that in \<open>simp add: qdma_outcome_def free\<close>)
  have ok: "triple (qdma_outcome ?R rs (ring_at ring Q) r) (do { qdma_start K maps; iounmap_all K maps; State_Monad.return 0 }) ?Q"
    if "\<not> r \<noteq> 0" for r
    by (rule triple_pre [OF last]) (use that in \<open>simp add: qdma_outcome_def\<close>)
  have fail: "triple (pci.owns ?R (ring_at ring Q)) (qdma_fail K ctxt [] (ack # maps)) ?Q" for ctxt
    by (rule triple_conseq [OF qdma_fail_owns]) (auto simp: EACCES_def free)
  show ?thesis unfolding Let_def
    by (rule triple_bind [OF clear_all_owns], rule triple_if [OF fail], rule triple_bind [OF program_all_owns], rule triple_if [OF err ok])
      auto
qed

lemma triple_option:
  "triple P m Q \<Longrightarrow> (\<And>x. triple (P' x) (n x) Q) \<Longrightarrow>
   triple (case v of None \<Rightarrow> P | Some x \<Rightarrow> P' x) (case v of None \<Rightarrow> m | Some x \<Rightarrow> n x) Q"
  by (cases v) simp_all

lemma qdma_init_owns:
  assumes "qdma_stable P"
  shows "triple (pci.owns rs P) (pcie_qdma_init K p) (\<lambda>r s. if r = 0 then qdma_held p rs P s else pci.owns rs P s)"
proof -
  let ?Q = "\<lambda>r s. if r = (0 :: int) then qdma_held p rs P s else pci.owns rs P s"
  have err: "triple (pci.owns rs P) (State_Monad.return r) ?Q" if "r \<noteq> 0" for r
    by (rule triple_return) (simp add: that)
  have unmap: "triple (pci.owns (mset (map Iomap as) + rs) P') (do { iounmap_all K as; State_Monad.return r }) ?Q"
    if "r \<noteq> 0" "\<And>d. P' d \<Longrightarrow> P d" for as r P'
    by (rule triple_bind [OF iounmap_all_owns], rule triple_return) (use that in \<open>auto simp: pci_owns\<close>)
  have maps: "triple (pci.owns rs P) (qdma_map_regs K bar qdma_regs [])
      (\<lambda>mo. case mo of None \<Rightarrow> pci.owns rs P | Some maps \<Rightarrow> pci.owns (mset (map Iomap maps) + rs) P)" for bar
    using map_regs_owns [of "[]" rs P K bar qdma_regs] by simp
  let ?A = "\<lambda>ack d. P d \<and> ack_register_aws d = ack"
  let ?B = "\<lambda>ack ring. ring_at ring (\<lambda>d. ?A ack d \<and> cmpt_ring_addr d = dma_handle p ring)"
  let ?M = "\<lambda>ack maps. do {
        let ctxt_regs = maps ! 6;
        res \<leftarrow> qdma_clear_all K ctxt_regs qdma_contexts 0;
        if res \<noteq> 0 then qdma_fail K ctxt_regs [] (ack # maps) else do {
        r \<leftarrow> qdma_program_all K ctxt_regs ack maps;
        if r \<noteq> 0 then State_Monad.return r else do {
        qdma_start K maps;
        iounmap_all K maps;
        State_Monad.return 0
     }}}"
  have ring: "triple (pci.owns (mset (map Iomap (ack # maps)) + rs) (?A ack)) (do {
        ring \<leftarrow> kcall K (Dma_alloc_coherent 512);
        modd (\<lambda>d. d\<lparr>cmpt_ring := ring, cmpt_ring_addr := dma_handle p ring\<rparr>);
        if ring = 0 then do { iounmap_all K (ack # maps); State_Monad.return (- ENOMEM) } else ?M ack maps }) ?Q" for ack maps
  proof (rule triple_bind [OF pci.owns_acquire], simp, rule triple_bind [OF pci.owns_modd])
    show "?B ack r (d\<lparr>cmpt_ring := r, cmpt_ring_addr := dma_handle p r\<rparr>)" if "?A ack d" for r d
      using that assms by (simp add: ring_at_def qdma_stable_def)
    have z: "triple (pci.owns (mset (map Iomap (ack # maps)) + rs) (?B ack 0)) (do { iounmap_all K (ack # maps); State_Monad.return (- ENOMEM) }) ?Q"
      by (rule unmap) (auto simp: ring_at_def ENOMEM_def)
    have nz: "triple (pci.owns (add_mset (Coherent r) (mset (map Iomap (ack # maps)) + rs)) (?B ack r)) (?M ack maps) ?Q" if "r \<noteq> 0" for r
      by (rule qdma_after_ring [OF that]) simp
    show "triple (pci.owns (case pci_acq (Dma_alloc_coherent 512) r of None \<Rightarrow> mset (map Iomap (ack # maps)) + rs
         | Some x \<Rightarrow> add_mset x (mset (map Iomap (ack # maps)) + rs)) (?B ack r))
        (if r = 0 then do { iounmap_all K (ack # maps); State_Monad.return (- ENOMEM) } else ?M ack maps) ?Q" for r
      by (cases "r = 0") (use z nz [of r] in \<open>simp_all only: pci_acq.simps if_True if_False option.case simp_thms\<close>)
  qed
  have ack: "triple (pci.owns (mset (map Iomap maps) + rs) P) (do {
        ack \<leftarrow> kcall K (Ioremap a 32);
        modd (\<lambda>d. d\<lparr>ack_register_aws := ack\<rparr>);
        if ack = 0 then do { iounmap_all K maps; State_Monad.return (- EFAULT) } else m ack }) ?Q"
    if m: "\<And>ack. triple (pci.owns (mset (map Iomap (ack # maps)) + rs) (?A ack)) (m ack) ?Q" for a m maps
  proof (rule triple_bind [OF pci.owns_acquire], simp, rule triple_bind [OF pci.owns_modd])
    show "?A r (d\<lparr>ack_register_aws := r\<rparr>)" if "P d" for r d
      using that assms by (simp add: qdma_stable_def)
    have z: "triple (pci.owns (mset (map Iomap maps) + rs) (?A 0)) (do { iounmap_all K maps; State_Monad.return (- EFAULT) }) ?Q"
      by (rule unmap) (auto simp: EFAULT_def)
    have nz: "triple (pci.owns (add_mset (Iomap r) (mset (map Iomap maps) + rs)) (?A r)) (m r) ?Q" for r
      using m [of r] by simp
    show "triple (pci.owns (case pci_acq (Ioremap a 32) r of None \<Rightarrow> mset (map Iomap maps) + rs
         | Some x \<Rightarrow> add_mset x (mset (map Iomap maps) + rs)) (?A r))
        (if r = 0 then do { iounmap_all K maps; State_Monad.return (- EFAULT) } else m r) ?Q" for r
      by (cases "r = 0") (use z nz [of r] in \<open>simp_all only: pci_acq.simps if_True if_False option.case simp_thms\<close>)
  qed
  show ?thesis unfolding pcie_qdma_init_def
    apply (rule triple_bind [OF triple_getd], assumption)
    apply (rule triple_bind [OF triple_getd], assumption)
    apply (rule triple_bind [OF pci.owns_neutral(2)], simp, simp)
    apply (rule triple_if)
     apply (rule err, simp add: ENODEV_def)
    apply (rule triple_bind [OF pci.owns_neutral(1)], simp, simp)
    apply (simp only: Let_def)
    apply (rule triple_if)
     apply (rule err, simp add: ENODEV_def)
    apply (rule triple_bind [OF maps])
    apply (rule triple_option)
     apply (rule err, simp add: EFAULT_def)
    apply (rule ack)
    apply (rule ring [unfolded Let_def])
    done
qed

lemma stop_engine_owns:
  "res \<in> {0, - EFAULT} \<Longrightarrow> triple (pci.owns rs P) (qdma_stop_engine K a res) (\<lambda>r s. r \<in> {0, - EFAULT} \<and> pci.owns rs P s)"
  by (rule tripleI) (auto simp: qdma_stop_engine_def pci_owns pci_live_def live_append split: if_splits)

lemma qdma_exit_owns:
  assumes "qdma_stable P" and "\<And>ring. ring \<noteq> 0 \<Longrightarrow> dma_handle p ring \<noteq> 0"
  shows "triple (qdma_held p rs P) (pcie_qdma_exit K p)
    (\<lambda>r s. if r = - ENODEV then \<exists>ack. pci.owns (add_mset (Iomap ack) rs) P s else pci.owns rs P s)"
proof (rule tripleI)
  fix s r s'
  let ?Q = "\<lambda>r s. if r = - ENODEV then \<exists>ack. pci.owns (add_mset (Iomap ack) rs) P s else pci.owns rs P s"
  assume "qdma_held p rs P s" and run: "run_state (pcie_qdma_exit K p) s = (r, s')"
  then obtain ack ring where o: "ring \<noteq> 0" "pci.owns ({#Coherent ring, Iomap ack#} + rs)
     (\<lambda>d. P d \<and> ack_register_aws d = ack \<and> cmpt_ring d = ring \<and> cmpt_ring_addr d = dma_handle p ring) s"
    by (auto simp: qdma_held_def)
  let ?A = "\<lambda>d. P d \<and> ack_register_aws d = ack"
  have addr: "cmpt_ring_addr (dat s) \<noteq> 0" "cmpt_ring (dat s) = ring" using o assms(2) by (auto simp: pci_owns)
  define s1 where "s1 = snd (run_state (do { kdo K (Dma_free_coherent 512 ring (cmpt_ring_addr (dat s)));
      modd (\<lambda>d. d\<lparr>cmpt_ring_addr := 0, cmpt_ring := 0\<rparr>) }) s)"
  have o1: "pci.owns (add_mset (Iomap ack) rs) ?A s1"
    using o assms(1) by (simp add: s1_def pci_owns pci_live_def live_append qdma_stable_def)
  let ?rest = "do {
     v \<leftarrow> kcall K (Op (Readq (plat_reg (dat s) ''PLATFORM_COMPONENT_DMA0'' 24)));
     if \<not> desc_gen_present v then State_Monad.return (- ENODEV) else do {
     ack \<leftarrow> getd ack_register_aws;
     kdo K (Iounmap ack);
     let qdma_bar_start = pci_resource_start p 2;
     res1 \<leftarrow> qdma_stop_engine K (qdma_bar_start + QDMA_H2C_MM_CTRL_OFF) 0;
     res2 \<leftarrow> qdma_stop_engine K (qdma_bar_start + QDMA_C2H_MM_CTRL_OFF) res1;
     ctxt_regs \<leftarrow> kcall K (Ioremap (qdma_bar_start + QDMA_CTXT_REG_OFF) 40);
     if ctxt_regs = 0 then State_Monad.return (- EFAULT) else do {
     r1 \<leftarrow> qdma_inv_ind_context K ctxt_regs QDMA_CTXT_SELC_DEC_SW_C2H QDMA_MM_QID;
     r2 \<leftarrow> qdma_inv_ind_context K ctxt_regs QDMA_CTXT_SELC_DEC_SW_H2C QDMA_MM_QID;
     kdo K (Iounmap ctxt_regs);
     State_Monad.return (if r1 OR r2 \<noteq> 0 then - EACCES else res2)
   }}}"
  have run1: "run_state ?rest s1 = (r, s')"
    using run addr unfolding s1_def by (simp add: pcie_qdma_exit_def case_prod_beta)
  have unmapped: "triple (pci.owns (add_mset (Iomap ack) rs) ?A) (do { a \<leftarrow> getd ack_register_aws; kdo K (Iounmap a); m }) Q"
    if "triple (pci.owns rs ?A) m Q" for m :: "int pci_m" and Q
  proof (rule tripleI)
    fix t q t'
    assume t: "pci.owns (add_mset (Iomap ack) rs) ?A t"
      and "run_state (do { a \<leftarrow> getd ack_register_aws; kdo K (Iounmap a); m }) t = (q, t')"
    then have "run_state m (t\<lparr>trace := trace t @ [(Iounmap ack, K (trace t) (Iounmap ack))]\<rparr>) = (q, t')"
      by (simp add: pci_owns)
    moreover have "pci.owns rs ?A (t\<lparr>trace := trace t @ [(Iounmap ack, K (trace t) (Iounmap ack))]\<rparr>)"
      using t by (simp add: pci_owns pci_live_def live_append)
    ultimately show "Q q t'" using tripleD [OF that] by blast
  qed
  have tail: "triple (pci.owns (case pci_acq (Ioremap a 40) x of None \<Rightarrow> rs | Some y \<Rightarrow> add_mset y rs) ?A)
      (if x = 0 then State_Monad.return (- EFAULT) else do {
     r1 \<leftarrow> qdma_inv_ind_context K x QDMA_CTXT_SELC_DEC_SW_C2H QDMA_MM_QID;
     r2 \<leftarrow> qdma_inv_ind_context K x QDMA_CTXT_SELC_DEC_SW_H2C QDMA_MM_QID;
     kdo K (Iounmap x);
     State_Monad.return (if r1 OR r2 \<noteq> 0 then - EACCES else res2) }) ?Q" if "res2 \<in> {0, - EFAULT}" for a x res2
  proof (cases "x = 0")
    case True
    then show ?thesis by (auto intro!: triple_return simp: pci_owns EFAULT_def ENODEV_def)
  next
    case False
    have "triple (pci.owns (add_mset (Iomap x) rs) ?A) (do {
     r1 \<leftarrow> qdma_inv_ind_context K x QDMA_CTXT_SELC_DEC_SW_C2H QDMA_MM_QID;
     r2 \<leftarrow> qdma_inv_ind_context K x QDMA_CTXT_SELC_DEC_SW_H2C QDMA_MM_QID;
     kdo K (Iounmap x);
     State_Monad.return (if r1 OR r2 \<noteq> 0 then - EACCES else res2) }) ?Q"
      by (rule triple_bind [OF inv_owns], rule triple_bind [OF inv_owns], rule triple_bind [OF pci.owns_release(1)], simp, rule triple_return)
        (use that in \<open>auto simp: pci_owns errno_defs\<close>)
    then show ?thesis using False by simp
  qed
  have "triple (pci.owns (add_mset (Iomap ack) rs) ?A) ?rest ?Q"
    unfolding Let_def
    apply (rule triple_bind [OF pci.owns_neutral(2)], simp, simp)
    apply (rule triple_if)
     apply (rule triple_return, auto simp: pci_owns) []
    apply (rule unmapped)
    apply (rule triple_bind [OF stop_engine_owns], simp)
    apply (rule triple_assume)
    apply (rule triple_bind [OF stop_engine_owns], assumption)
    apply (rule triple_assume)
    apply (rule triple_bind [OF pci.owns_acquire], simp)
    apply (rule tail, assumption)
    done
  from tripleD [OF this o1 run1] show "?Q r s'" .
qed


text \<open>Hardware that answers: identification of the descriptor generator, busy bit never set.\<close>

definition demo_qdma_K :: "pci_call kenv" where
  "demo_qdma_K tr c = (case c of Op (Readq a) \<Rightarrow> 0xDE5C1000 | Op x \<Rightarrow> 0 | _ \<Rightarrow> 4096)"

lemma demo_poll: "fst (run_state (qdma_poll demo_qdma_K a 99) s) = 0"
proof -
  have "fst (run_state (qdma_poll demo_qdma_K a (Suc 98)) s) = 0" by (simp only: qdma_poll.simps) (simp add: demo_qdma_K_def)
  then show ?thesis by simp
qed

lemma demo_program: "fst (run_state (qdma_program_ind_context demo_qdma_K ctxt msk data sel qid) s) = 0"
  by (simp add: qdma_program_ind_context_def case_prod_beta demo_poll)

lemma demo_clear: "fst (run_state (qdma_clear_all demo_qdma_K ctxt xs 0) s) = 0"
  by (induction xs arbitrary: s) (auto simp: qdma_clear_ind_context_def case_prod_beta demo_poll)

lemma demo_map_regs:
  "fst (run_state (qdma_map_regs demo_qdma_K bar regs maps) s) = Some (replicate (length regs) 4096 @ maps)"
proof (induction regs arbitrary: maps s)
  case (Cons x regs)
  then show ?case by (cases x) (simp add: demo_qdma_K_def replicate_app_Cons_same)
qed simp

lemma demo_program_all: "fst (run_state (qdma_program_all demo_qdma_K ctxt ack maps) s) = 0"
  by (simp add: qdma_program_all_def Let_def case_prod_beta demo_program)

lemma demo_qdma_init: "fst (run_state (pcie_qdma_init demo_qdma_K (demo_pci\<lparr>dma_handle := (\<lambda>_. 4096)\<rparr>)) s) = 0"
proof -
  have "demo_qdma_K tr (Op (Readq a)) = 0xDE5C1000" for tr a by (simp add: demo_qdma_K_def)
  moreover have "demo_qdma_K tr (Ioremap a n) = 4096" "demo_qdma_K tr (Dma_alloc_coherent n) = 4096" for tr a n
    by (simp_all add: demo_qdma_K_def)
  moreover have "desc_gen_present 0xDE5C1000" by (simp add: desc_gen_present_def DESC_GEN_ID_def)
  ultimately show ?thesis
    by (simp add: pcie_qdma_init_def Let_def case_prod_beta demo_map_regs demo_clear demo_program_all demo_pci_def)
qed

lemma demo_qdma_exit: "fst (run_state (pcie_qdma_exit demo_qdma_K p) s) = 0"
proof -
  have "demo_qdma_K tr (Op (Readq a)) = 0xDE5C1000" "demo_qdma_K tr (Ioremap a' n) = 4096" for tr a a' n
    by (simp_all add: demo_qdma_K_def)
  moreover have "desc_gen_present 0xDE5C1000" by (simp add: desc_gen_present_def DESC_GEN_ID_def)
  ultimately show ?thesis
    by (simp add: pcie_qdma_exit_def qdma_stop_engine_def qdma_inv_ind_context_def Let_def case_prod_beta demo_poll)
qed


section \<open>What is programmed\<close>

text \<open>The context of the memory-mapped queues is built from masks; it is the structure with the
  fields enable, bypass, interrupt and memory-mapped set, and the interrupt armed.\<close>

lemma mm_context_fields:
  "mm_sw_words = sw_desc_words (sw_desc_zero\<lparr>irq_arm := 1, sw_qen := 1, sw_bypass := 1, irq_en := 1, is_mm := 1\<rparr>)"
  by (simp add: mm_sw_words_def sw_desc_words_def words_of_def sw_desc_zero_def upt_conv_Cons push_bit_eq_mult drop_bit_eq_div
      take_bit_eq_mod QDMA_IRQ_ARM_def QDMA_SW_DESC_CTXT_QEN_def QDMA_SW_DESC_CTXT_BYPASS_def QDMA_SW_DESC_CTXT_IRQ_EN_def
      QDMA_SW_DESC_CTXT_IS_MM_def)

text \<open>The two parts of the ring address in the completion context make up the address of the ring,
  which the hardware requires to be a multiple of 64.\<close>

lemma cmpl_ring_address:
  assumes "64 dvd unat ring_addr"
  shows "64 * (unat (baddr_high_l (cmpl_ctxt ring_addr)) + 2 ^ 36 * unat (baddr_high_h (cmpl_ctxt ring_addr))) = unat ring_addr"
proof -
  have m: "(0xFFFFFFFFF :: u64) = mask 36" "(0x3FFFFF :: u64) = mask 22" by (simp_all add: mask_eq_exp_minus_1)
  let ?a = "unat ring_addr"
  have l: "unat (baddr_high_l (cmpl_ctxt ring_addr)) = ?a div 64 mod 2 ^ 36"
    by (simp add: cmpl_ctxt_def cmpl_zero_def m flip: take_bit_eq_mask)
      (simp only: unsigned_take_bit_eq unsigned_drop_bit_eq, simp add: take_bit_eq_mod drop_bit_eq_div)
  have h: "unat (baddr_high_h (cmpl_ctxt ring_addr)) = ?a div 64 div 2 ^ 36 mod 2 ^ 22"
    by (simp add: cmpl_ctxt_def cmpl_zero_def m flip: take_bit_eq_mask)
      (simp only: unsigned_take_bit_eq unsigned_drop_bit_eq, simp add: take_bit_eq_mod drop_bit_eq_div flip: div_mult2_eq)
  have "?a div 64 div 2 ^ 36 < 2 ^ 22"
    using unat_64_less [of ring_addr] by (simp add: div_mult2_eq [symmetric] less_mult_imp_div_less)
  then have "?a div 64 mod 2 ^ 36 + 2 ^ 36 * (?a div 64 div 2 ^ 36 mod 2 ^ 22) = ?a div 64"
    by (simp add: mod_mult_div_eq)
  then show ?thesis unfolding l h using assms by simp
qed

text \<open>The invalidation of a context only polls: the command is never written.\<close>

lemma qdma_inv_writes_nothing:
  assumes "run_state (qdma_inv_ind_context K ctxt sel qid) s = (r, s')"
  shows "\<exists>tr. trace s' = trace s @ tr \<and> (\<forall>c r. (c, r) \<in> set tr \<longrightarrow> c = Op (Ioread32 (ctxt + ctxt_cmd_off)))"
proof -
  have "\<exists>tr. trace (snd (run_state (qdma_poll K a n) s)) = trace s @ tr \<and> (\<forall>c r. (c, r) \<in> set tr \<longrightarrow> c = Op (Ioread32 a))" for a n
  proof (induction n arbitrary: s)
    case (Suc n)
    let ?t = "s\<lparr>trace := trace s @ [(Op (Ioread32 a), K (trace s) (Op (Ioread32 a)))]\<rparr>"
    obtain tr where "trace (snd (run_state (qdma_poll K a n) ?t)) = trace ?t @ tr"
      "\<forall>c r. (c, r) \<in> set tr \<longrightarrow> c = Op (Ioread32 a)" using Suc [of ?t] by blast
    then show ?case by auto
  qed simp
  then show ?thesis using assms by (simp add: qdma_inv_ind_context_def Let_def) (metis snd_conv)
qed

end
