(* ===== verification/Pcie_Device.thy ===== *)
theory Pcie_Device
  imports Pcie_Qdma
begin

text \<open>
  Life cycle of a PCIe device, \<^verbatim>\<open>pcie/pcie_device.c\<close>: claiming and configuring the PCI device,
  creation and destruction of the private data, initialisation of the subsystems, DMA buffers,
  and closing of the device file. \<open>en_svm\<close> stands for the compile-time option \<^verbatim>\<open>EN_SVM\<close>; the calls into
  the SVM part are calls of the environment.
\<close>

unbundle bit_operations_syntax

section \<open>Claiming the device\<close>

definition claim_device :: "pci_call kenv \<Rightarrow> pci_dev \<Rightarrow> int pci_m" where
  "claim_device K p = do {
     err \<leftarrow> kcall K Pci_enable_device;
     if err \<noteq> 0 then State_Monad.return (- ENODEV) else do {
     kdo K (Op Pci_set_master);
     err \<leftarrow> kcall K Pci_request_regions;
     if err \<noteq> 0 then do { kdo K Pci_disable_device; State_Monad.return (- ENODEV) } else do {
     modd (\<lambda>d. d\<lparr>gp_buffer := [], drvdata := private_data d\<rparr>);
     modd (\<lambda>d. d\<lparr>phy_addr_bar0 := pci_resource_start p 0, phy_len_bar0 := pci_resource_len p 0,
        phy_flags_bar0 := pci_resource_flags p 0\<rparr>);
     modd (\<lambda>d. d\<lparr>parent := (parent d)\<lparr>base_offset := phy_addr_bar0 d\<rparr>\<rparr>);
     State_Monad.return 0
   }}}"

definition release_device :: "pci_call kenv \<Rightarrow> unit pci_m" where
  "release_device K = do {
     modd (\<lambda>d. d\<lparr>drvdata := 0\<rparr>);
     kdo K Pci_release_regions;
     kdo K Pci_disable_device
   }"

section \<open>Configuration\<close>

text \<open>The bridges between the device and the root bus, the nearest first, as \<^verbatim>\<open>bus->self\<close> leads to them.\<close>

record bridge =
  pcie_mpss :: nat
  on_root_bus :: bool

fun mps_max :: "int \<Rightarrow> bridge list \<Rightarrow> int" where
  "mps_max m [] = m"
| "mps_max m (b # bs) =
     (let m' = min m (push_bit (pcie_mpss b) 128) in if on_root_bus b then m' else mps_max m' bs)"

text \<open>Bridge number \<open>i\<close> is the first of the list; the device itself is number 0.\<close>

fun set_bridges_mps :: "pci_call kenv \<Rightarrow> int \<Rightarrow> nat \<Rightarrow> bridge list \<Rightarrow> unit pci_m" where
  "set_bridges_mps K m i [] = State_Monad.return ()"
| "set_bridges_mps K m i (b # bs) = do {
     mps_p \<leftarrow> kcall K (Op (Pcie_get_mps i));
     (if mps_p < m then kdo K (Op (Pcie_set_mps i m)) else State_Monad.return ());
     if on_root_bus b then State_Monad.return () else set_bridges_mps K m (Suc i) bs
   }"

definition PCI_EXP_DEVCTL :: nat where [tlkm_const]: "PCI_EXP_DEVCTL = 8"
definition PCI_EXP_DEVCTL_EXT_TAG :: u32 where [tlkm_const]: "PCI_EXP_DEVCTL_EXT_TAG = 0x100"
definition PCI_EXP_LNKSTA :: nat where [tlkm_const]: "PCI_EXP_LNKSTA = 18"
definition PCI_EXP_LNKSTA_CLS :: u32 where [tlkm_const]: "PCI_EXP_LNKSTA_CLS = 0xF"
definition PCI_EXP_LNKSTA_NLW :: u32 where [tlkm_const]: "PCI_EXP_LNKSTA_NLW = 0x3F0"

definition tune_pcie_parameters :: "pci_call kenv \<Rightarrow> nat \<Rightarrow> bridge list \<Rightarrow> unit pci_m" where
  "tune_pcie_parameters K mpss bridges = do {
     kdo K (Op Pcie_get_readrq);
     let mps_m = mps_max (push_bit mpss 128) bridges;
     set_bridges_mps K mps_m 1 bridges;
     kdo K (Op (Pcie_set_mps 0 mps_m));
     kdo K (Op (Pcie_set_readrq 4096));
     ret \<leftarrow> kcall K (Op (Pcie_cap_read PCI_EXP_DEVCTL));
     let ectl = word_of_int ret;
     if ret \<ge> 0 \<and> ectl AND PCI_EXP_DEVCTL_EXT_TAG = 0
     then kdo K (Op (Pcie_cap_write PCI_EXP_DEVCTL (ectl OR PCI_EXP_DEVCTL_EXT_TAG)))
     else State_Monad.return ()
   }"

definition configure_device :: "pci_call kenv \<Rightarrow> nat \<Rightarrow> bridge list \<Rightarrow> int pci_m" where
  "configure_device K mpss bridges = do {
     tune_pcie_parameters K mpss bridges;
     r \<leftarrow> kcall K (Op (Dma_set_mask 64));
     if r = 0 then do { kdo K (Op (Dma_set_coherent_mask 64)); State_Monad.return 0 } else do {
     r \<leftarrow> kcall K (Op (Dma_set_mask 32));
     if r = 0 then do { kdo K (Op (Dma_set_coherent_mask 32)); State_Monad.return 0 }
     else State_Monad.return (- ENODEV)
   }}"

definition claim_msi :: "pci_call kenv \<Rightarrow> int pci_m" where
  "claim_msi K = do {
     no_int \<leftarrow> getd (\<lambda>d. number_of_interrupts (cls (parent d)));
     err \<leftarrow> kcall K (Op (Pci_alloc_irq_vectors no_int));
     State_Monad.return (if err \<le> 0 then - ENOSPC else 0)
   }"

definition release_msi :: "pci_call kenv \<Rightarrow> unit pci_m" where
  "release_msi K = kdo K (Op Pci_free_irq_vectors)"

definition report_link_status :: "pci_call kenv \<Rightarrow> unit pci_m" where
  "report_link_status K = do {
     ret \<leftarrow> kcall K (Op (Pcie_cap_read PCI_EXP_LNKSTA));
     let ctrl_reg = ((if ret \<ge> 0 then word_of_int ret else 0) :: u32);
     modd (\<lambda>d. d\<lparr>link_width := drop_bit 4 (ctrl_reg AND PCI_EXP_LNKSTA_NLW), link_speed := ctrl_reg AND PCI_EXP_LNKSTA_CLS\<rparr>);
     modd (\<lambda>d. d\<lparr>counters := tlkm_perfc_set perfc.link_speed (dev_id (parent d)) (link_speed d) (counters d)\<rparr>);
     modd (\<lambda>d. d\<lparr>counters := tlkm_perfc_set perfc.link_width (dev_id (parent d)) (link_width d) (counters d)\<rparr>)
   }"

section \<open>Creation and destruction\<close>

definition zero_ctl :: zynq_irq_mapping where
  "zero_ctl = \<lparr>first_mapping = 0, intc = 0, irq_start = 0, intc_id = 0\<rparr>"

definition zero_pdev :: "int \<Rightarrow> tlkm_pcie_device \<Rightarrow> tlkm_pcie_device" where
  "zero_pdev q d = \<lparr>parent = parent d, private_data = q, drvdata = drvdata d, counters = counters d,
     phy_addr_bar0 = 0, phy_len_bar0 = 0, phy_flags_bar0 = 0, link_width = 0, link_speed = 0,
     dma_buffer = replicate TLKM_PCIE_NUM_DMA_BUFFERS zero_dma_buf, gp_buffer = [], ack_register = 0, ack_register_aws = 0,
     intc_bases = replicate AWS_NUM_IRQ_CONTROLLERS zero_ctl, requested_irq_num = 0, cmpt_ring = 0, cmpt_ring_addr = 0\<rparr>"

definition pcie_device_create :: "pci_call kenv \<Rightarrow> pci_dev \<Rightarrow> nat \<Rightarrow> bridge list \<Rightarrow> int pci_m" where
  "pcie_device_create K p mpss bridges = do {
     pdev \<leftarrow> kcall K Kzalloc_pdev;
     if pdev = 0 then State_Monad.return (- ENOMEM) else do {
     modd (zero_pdev pdev);
     ret \<leftarrow> claim_device K p;
     if ret \<noteq> 0
     then do { kdo K (Kfree_pdev pdev); modd (\<lambda>d. d\<lparr>private_data := 0\<rparr>); State_Monad.return ret }
     else do {
     ret \<leftarrow> configure_device K mpss bridges;
     if ret \<noteq> 0
     then do { release_device K; kdo K (Kfree_pdev pdev); modd (\<lambda>d. d\<lparr>private_data := 0\<rparr>); State_Monad.return ret }
     else do {
     report_link_status K;
     modd (\<lambda>d. d\<lparr>dma_buffer := replicate TLKM_PCIE_NUM_DMA_BUFFERS zero_dma_buf\<rparr>);
     State_Monad.return 0
   }}}}"

definition pcie_device_destroy :: "pci_call kenv \<Rightarrow> unit pci_m" where
  "pcie_device_destroy K = do {
     pdev \<leftarrow> getd private_data;
     release_msi K;
     release_device K;
     kdo K (Kfree_pdev pdev);
     modd (\<lambda>d. d\<lparr>private_data := 0\<rparr>)
   }"

section \<open>Subsystems\<close>

definition init_svm_step :: "pci_call kenv \<Rightarrow> bool \<Rightarrow> int pci_m" where
  "init_svm_step K en_svm = do {
     mmu_base \<leftarrow> getd (\<lambda>d. component d ''PLATFORM_COMPONENT_MMU'');
     if en_svm \<and> mmu_base \<noteq> - 1
     then do {
       ret \<leftarrow> kcall K Pcie_init_svm;
       if ret \<noteq> 0 then do { release_msi K; State_Monad.return ret } else State_Monad.return 0 }
     else State_Monad.return 0
   }"

definition pcie_device_init_subsystems :: "pci_call kenv \<Rightarrow> pci_dev \<Rightarrow> bool \<Rightarrow> int pci_m" where
  "pcie_device_init_subsystems K p en_svm = do {
     gpio_base \<leftarrow> getd (\<lambda>d. component d ''PLATFORM_COMPONENT_MEM_GPIO'');
     gpio_reg \<leftarrow> getd (\<lambda>d. plat_reg d ''PLATFORM_COMPONENT_MEM_GPIO'' 0);
     (if gpio_base \<noteq> - 1 then kdo K (Op (Ioread32 gpio_reg)) else State_Monad.return ());
     ret \<leftarrow> (if pcie_is_qdma_in_use p then pcie_qdma_init K p else State_Monad.return 0);
     if ret \<noteq> 0 then State_Monad.return ret else do {
     ret \<leftarrow> claim_msi K;
     if ret \<noteq> 0 then State_Monad.return ret else init_svm_step K en_svm
   }}"

definition pcie_device_exit_subsystems :: "pci_call kenv \<Rightarrow> pci_dev \<Rightarrow> bool \<Rightarrow> unit pci_m" where
  "pcie_device_exit_subsystems K p en_svm = do {
     mmu_base \<leftarrow> getd (\<lambda>d. component d ''PLATFORM_COMPONENT_MMU'');
     (if en_svm \<and> mmu_base \<noteq> - 1 then kdo K Pcie_exit_svm else State_Monad.return ());
     release_msi K;
     if pcie_is_qdma_in_use p then do { r \<leftarrow> pcie_qdma_exit K p; State_Monad.return () } else State_Monad.return ()
   }"

section \<open>DMA buffers\<close>

text \<open>The functions work on a buffer descriptor, which they are passed by reference.\<close>

definition pcie_device_dma_allocate_buffer :: "pci_call kenv \<Rightarrow> dma_buf \<Rightarrow> (pci_call, 'd, int \<times> dma_buf) km" where
  "pcie_device_dma_allocate_buffer K b = do {
     q \<leftarrow> kcall K (Kmalloc (buf_size b));
     if q \<noteq> 0 then do {
       h \<leftarrow> kcall K (Dma_map_single q (buf_size b) (direction b));
       State_Monad.return (if h = - 1 then - EFAULT else 0, b\<lparr>ptr := q, ptr_dev := h\<rparr>) }
     else State_Monad.return (- EFAULT, b\<lparr>ptr := 0\<rparr>)
   }"

definition pcie_device_dma_free_buffer :: "pci_call kenv \<Rightarrow> dma_buf \<Rightarrow> (pci_call, 'd, dma_buf) km" where
  "pcie_device_dma_free_buffer K b = do {
     (if ptr_dev b \<noteq> 0 then kdo K (Dma_unmap_single (ptr_dev b) (buf_size b) (direction b)) else State_Monad.return ());
     (if ptr b \<noteq> 0 then kdo K (Kfree (ptr b)) else State_Monad.return ());
     State_Monad.return (b\<lparr>ptr_dev := 0, ptr := 0\<rparr>)
   }"

definition pcie_device_dma_sync_buffer_cpu :: "pci_call kenv \<Rightarrow> dma_buf \<Rightarrow> (pci_call, 'd, int) km" where
  "pcie_device_dma_sync_buffer_cpu K b = do {
     kdo K (Op (Dma_sync_single_for_cpu (ptr_dev b) (buf_size b) (direction b)));
     State_Monad.return 0
   }"

definition pcie_device_dma_sync_buffer_dev :: "pci_call kenv \<Rightarrow> dma_buf \<Rightarrow> (pci_call, 'd, int) km" where
  "pcie_device_dma_sync_buffer_dev K b = do {
     kdo K (Op (Dma_sync_single_for_device (ptr_dev b) (buf_size b) (direction b)));
     State_Monad.return 0
   }"

text \<open>The buffer number is taken from the address without a check; \<^const>\<open>None\<close> is an access outside the
  table. \<open>virt_to_phys\<close> is the kernel's translation.\<close>

definition pcie_device_addr2map_off :: "(int \<Rightarrow> int) \<Rightarrow> dev_addr_t \<Rightarrow> tlkm_pcie_device \<Rightarrow> int option" where
  "pcie_device_addr2map_off virt_to_phys addr d =
     (let buffer_requested = addr div 4096 - 4
      in if unat buffer_requested < length (dma_buffer d)
         then let q = ptr (dma_buffer d ! unat buffer_requested) in Some (if q \<noteq> 0 then virt_to_phys q else 0)
         else None)"

section \<open>Closing the device file\<close>

fun close_dma_buffers :: "pci_call kenv \<Rightarrow> nat \<Rightarrow> nat \<Rightarrow> unit pci_m" where
  "close_dma_buffers K i 0 = State_Monad.return ()"
| "close_dma_buffers K i (Suc n) = do {
     b \<leftarrow> getd (\<lambda>d. dma_buffer d ! i);
     (if ptr b \<noteq> 0 then do {
        b' \<leftarrow> pcie_device_dma_free_buffer K b;
        modd (\<lambda>d. d\<lparr>dma_buffer := (dma_buffer d)[i := b'\<lparr>buf_size := 0\<rparr>]\<rparr>) }
      else State_Monad.return ());
     close_dma_buffers K (Suc i) n
   }"

fun close_gp_buffers :: "pci_call kenv \<Rightarrow> gp_buf list \<Rightarrow> unit pci_m" where
  "close_gp_buffers K [] = State_Monad.return ()"
| "close_gp_buffers K (b # bs) = do {
     (if gp_dev_addr b \<noteq> 0 then kdo K (Dma_unmap_single (gp_dev_addr b) (gp_buf_size b) FROM_DEV) else State_Monad.return ());
     kdo K (Kfree (gp_ptr b));
     modd (\<lambda>d. d\<lparr>gp_buffer := bs\<rparr>);
     kdo K (Devm_kfree (gp_entry b));
     close_gp_buffers K bs
   }"

definition pcie_device_miscdev_close :: "pci_call kenv \<Rightarrow> bool \<Rightarrow> unit pci_m" where
  "pcie_device_miscdev_close K en_svm = do {
     close_dma_buffers K 0 TLKM_PCIE_NUM_DMA_BUFFERS;
     bs \<leftarrow> getd gp_buffer;
     close_gp_buffers K bs;
     mmu_base \<leftarrow> getd (\<lambda>d. component d ''PLATFORM_COMPONENT_MMU'');
     if en_svm \<and> mmu_base \<noteq> - 1 then kdo K (Op Pcie_teardown_svm) else State_Monad.return ()
   }"

section \<open>Configuration uses what the whole path supports\<close>

text \<open>The part of the path up to the root bus.\<close>

fun to_root :: "bridge list \<Rightarrow> bridge list" where
  "to_root [] = []"
| "to_root (b # bs) = (if on_root_bus b then [b] else b # to_root bs)"

lemma mps_max_le: "mps_max m bs \<le> m"
proof (induction m bs rule: mps_max.induct)
  case (2 m b bs)
  show ?case
  proof (cases "on_root_bus b")
    case False
    then show ?thesis using 2 [OF refl False] by (simp add: Let_def)
  qed (simp add: Let_def)
qed simp

text \<open>The maximum payload size set is the least one supported on the path to the root.\<close>

lemma mps_max_min: "mps_max m bs = Min (insert m ((\<lambda>b. push_bit (pcie_mpss b) 128) ` set (to_root bs)))"
proof (induction m bs rule: mps_max.induct)
  case (2 m b bs)
  show ?case
  proof (cases "on_root_bus b")
    case True
    then show ?thesis by (simp add: Let_def)
  next
    case False
    have e: "insert m ((\<lambda>b. push_bit (pcie_mpss b) 128) ` set (to_root (b # bs)))
        = insert m (insert (push_bit (pcie_mpss b) 128) ((\<lambda>b. push_bit (pcie_mpss b) 128) ` set (to_root bs)))"
      using False by simp
    show ?thesis unfolding e using 2 [OF refl False] False
      by (cases "to_root bs = []") (simp_all add: Let_def min.assoc)
  qed
qed simp

lemma set_bridges_owns: "triple (pci.owns rs P) (set_bridges_mps K m i bs) (\<lambda>_. pci.owns rs P)"
proof (induction bs arbitrary: i)
  case Nil
  then show ?case by (simp add: triple_return)
next
  case (Cons b bs)
  have set: "triple (pci.owns rs P) (if c then kdo K (Op (Pcie_set_mps i m)) else State_Monad.return ()) (\<lambda>_. pci.owns rs P)" for c
    by (cases c) (simp_all add: pci.owns_neutral(1) triple_return)
  show ?case unfolding set_bridges_mps.simps
    by (rule triple_bind [OF pci.owns_neutral(2)], simp, simp, rule triple_bind [OF set], rule triple_if)
      (simp_all add: triple_return Cons.IH)
qed

lemma tune_owns: "triple (pci.owns rs P) (tune_pcie_parameters K mpss bs) (\<lambda>_. pci.owns rs P)"
  unfolding tune_pcie_parameters_def Let_def
  by (rule triple_bind [OF pci.owns_neutral(1)], simp, simp, rule triple_bind [OF set_bridges_owns],
      rule triple_bind [OF pci.owns_neutral(1)], simp, simp, rule triple_bind [OF pci.owns_neutral(1)], simp, simp,
      rule triple_bind [OF pci.owns_neutral(2)], simp, simp, rule triple_if)
    (simp_all add: pci.owns_neutral(1) triple_return)

lemma configure_owns: "triple (pci.owns rs P) (configure_device K mpss bs) (\<lambda>_. pci.owns rs P)"
  unfolding configure_device_def
  by (rule triple_bind [OF tune_owns], rule tripleI)
    (auto simp: pci_owns pci_live_def live_append split: if_splits)

section \<open>Creation holds all or nothing\<close>

definition fresh_pdev :: "int \<Rightarrow> tlkm_pcie_device \<Rightarrow> bool" where
  "fresh_pdev q d \<longleftrightarrow> private_data d = q \<and> dma_buffer d = replicate TLKM_PCIE_NUM_DMA_BUFFERS zero_dma_buf \<and> gp_buffer d = []
     \<and> length (intc_bases d) = AWS_NUM_IRQ_CONTROLLERS"

lemma create_owns:
  "triple (pci.owns rs (\<lambda>_. True)) (pcie_device_create K p mpss bs)
     (\<lambda>r s. if r = 0 then \<exists>q. q \<noteq> 0 \<and> pci.owns ({#Private q, Enabled, Regions#} + rs) (fresh_pdev q) s
            else pci.owns rs (\<lambda>_. True) s)"
proof (rule tripleI)
  fix s r s'
  assume o: "pci.owns rs (\<lambda>_. True) s" and run: "run_state (pcie_device_create K p mpss bs) s = (r, s')"
  define q where "q = K (trace s) Kzalloc_pdev"
  show "if r = 0 then \<exists>q. q \<noteq> 0 \<and> pci.owns ({#Private q, Enabled, Regions#} + rs) (fresh_pdev q) s' else pci.owns rs (\<lambda>_. True) s'"
  proof (cases "q = 0")
    case True
    then have "r = - ENOMEM \<and> s' = s\<lparr>trace := trace s @ [(Kzalloc_pdev, q)]\<rparr>" using run by (simp add: pcie_device_create_def q_def)
    then show ?thesis using o True by (simp add: pci_owns pci_live_def live_append ENOMEM_def)
  next
    case False
    define s1 where "s1 = s\<lparr>trace := trace s @ [(Kzalloc_pdev, q)], dat := zero_pdev q (dat s)\<rparr>"
    have o1: "pci.owns (add_mset (Private q) rs) (fresh_pdev q) s1"
      using o False by (simp add: s1_def pci_owns pci_live_def live_append fresh_pdev_def zero_pdev_def)
    obtain c s2 where c: "run_state (claim_device K p) s1 = (c, s2)" by (metis surj_pair)
    have o2: "if c = 0 then pci.owns ({#Enabled, Regions#} + add_mset (Private q) rs) (fresh_pdev q) s2
        else pci.owns (add_mset (Private q) rs) (fresh_pdev q) s2"
      using c o1 by (auto simp: claim_device_def pci_owns pci_live_def live_append fresh_pdev_def ENODEV_def split: if_splits)
    show ?thesis
    proof (cases "c = 0")
      case False
      then have "r = c \<and> s' = s2\<lparr>trace := trace s2 @ [(Kfree_pdev q, K (trace s2) (Kfree_pdev q))], dat := (dat s2)\<lparr>private_data := 0\<rparr>\<rparr>"
        using run c \<open>q \<noteq> 0\<close> by (simp add: pcie_device_create_def q_def s1_def)
      then show ?thesis using o2 False \<open>q \<noteq> 0\<close> by (simp add: pci_owns pci_live_def live_append)
    next
      case True
      obtain e s3 where e: "run_state (configure_device K mpss bs) s2 = (e, s3)" by (metis surj_pair)
      have o3: "pci.owns ({#Enabled, Regions#} + add_mset (Private q) rs) (fresh_pdev q) s3"
        using tripleD [OF configure_owns _ e] o2 True by simp
      have run3: "run_state (if e \<noteq> 0
           then do { release_device K; kdo K (Kfree_pdev q); modd (\<lambda>d. d\<lparr>private_data := 0\<rparr>); State_Monad.return e }
           else do { report_link_status K; modd (\<lambda>d. d\<lparr>dma_buffer := replicate TLKM_PCIE_NUM_DMA_BUFFERS zero_dma_buf\<rparr>); State_Monad.return 0 }) s3 = (r, s')"
        using run c e True \<open>q \<noteq> 0\<close> by (cases "e = 0") (simp_all add: pcie_device_create_def q_def s1_def)
      show ?thesis
      proof (cases "e = 0")
        case False
        then show ?thesis using run3 o3 \<open>q \<noteq> 0\<close>
          by (auto simp: release_device_def pci_owns pci_live_def live_append)
      next
        case True
        then have "r = 0 \<and> pci.owns ({#Private q, Enabled, Regions#} + rs) (fresh_pdev q) s'"
          using run3 o3 by (auto simp: report_link_status_def Let_def pci_owns pci_live_def live_append fresh_pdev_def add_mset_commute)
        then show ?thesis using \<open>q \<noteq> 0\<close> by auto
      qed
    qed
  qed
qed

lemma destroy_owns:
  assumes "q \<noteq> 0"
  shows "triple (pci.owns ({#Private q, Enabled, Regions#} + rs) (\<lambda>d. private_data d = q)) (pcie_device_destroy K) (\<lambda>_. pci.owns rs (\<lambda>_. True))"
  by (rule tripleI) (use assms in \<open>auto simp: pcie_device_destroy_def release_msi_def release_device_def pci_owns pci_live_def live_append\<close>)

section \<open>Subsystems hold all or nothing\<close>

definition has_svm :: "bool \<Rightarrow> tlkm_pcie_device \<Rightarrow> bool" where
  "has_svm en_svm d \<longleftrightarrow> en_svm \<and> component d ''PLATFORM_COMPONENT_MMU'' \<noteq> - 1"

definition core_held :: "pci_dev \<Rightarrow> pci_resource multiset \<Rightarrow> (tlkm_pcie_device \<Rightarrow> bool) \<Rightarrow> pci_st \<Rightarrow> bool" where
  "core_held p rs P s \<longleftrightarrow> (if pcie_is_qdma_in_use p then qdma_held p rs P s else pci.owns rs P s)"

definition subsystems_held :: "pci_dev \<Rightarrow> bool \<Rightarrow> pci_resource multiset \<Rightarrow> (tlkm_pcie_device \<Rightarrow> bool) \<Rightarrow> pci_st \<Rightarrow> bool" where
  "subsystems_held p en_svm rs P s \<longleftrightarrow> core_held p ((if has_svm en_svm (dat s) then {#Svm#} else {#}) + rs) P s"

lemma qdma_held_frame:
  assumes "qdma_held p rs P s" and "dat s' = dat s"
    and "\<And>R. pci_live s = Some (R + rs) \<Longrightarrow> pci_live s' = Some (R + rs')"
  shows "qdma_held p rs' P s'"
  using assms unfolding qdma_held_def pci_owns by (metis (no_types, lifting))

lemma core_held_frame:
  assumes "core_held p rs P s" and "dat s' = dat s"
    and "\<And>R. pci_live s = Some (R + rs) \<Longrightarrow> pci_live s' = Some (R + rs')"
  shows "core_held p rs' P s'"
  using assms qdma_held_frame [of p rs P s s' rs'] assms(3) [of "{#}"]
  by (auto simp: core_held_def pci_owns)

lemma claim_msi_run:
  "\<exists>r s'. run_state (claim_msi K) s = (r, s') \<and> dat s' = dat s \<and> (\<forall>R. pci_live s = Some R \<longrightarrow> pci_live s' = Some R)"
  by (simp add: claim_msi_def pci_live_snoc)

lemma init_subsystems_owns:
  assumes "qdma_stable P"
  shows "triple (pci.owns rs P) (pcie_device_init_subsystems K p en_svm)
     (\<lambda>r s. if r = 0 then subsystems_held p en_svm rs P s else pci.owns rs P s \<or> core_held p rs P s)"
proof (rule tripleI)
  fix s r s'
  assume o: "pci.owns rs P s" and run: "run_state (pcie_device_init_subsystems K p en_svm) s = (r, s')"
  define s1 where "s1 = (if component (dat s) ''PLATFORM_COMPONENT_MEM_GPIO'' \<noteq> - 1
      then s\<lparr>trace := trace s @ [(Op (Ioread32 (plat_reg (dat s) ''PLATFORM_COMPONENT_MEM_GPIO'' 0)),
        K (trace s) (Op (Ioread32 (plat_reg (dat s) ''PLATFORM_COMPONENT_MEM_GPIO'' 0))))]\<rparr> else s)"
  have o1: "pci.owns rs P s1" using o by (simp add: s1_def pci_owns pci_live_snoc)
  obtain e s2 where e: "run_state (if pcie_is_qdma_in_use p then pcie_qdma_init K p else State_Monad.return 0) s1 = (e, s2)"
    by (metis surj_pair)
  have o2: "if e = 0 then core_held p rs P s2 else pci.owns rs P s2"
    using tripleD [OF qdma_init_owns [OF assms], of rs s1 K p e s2] o1 e
    by (cases "pcie_is_qdma_in_use p") (auto simp: core_held_def)
  show "if r = 0 then subsystems_held p en_svm rs P s' else pci.owns rs P s' \<or> core_held p rs P s'"
  proof (cases "e = 0")
    case False
    then have "r = e \<and> s' = s2" using run e by (simp add: pcie_device_init_subsystems_def s1_def split: if_splits)
    then show ?thesis using o2 False by simp
  next
    case True
    then have c2: "core_held p rs P s2" using o2 by simp
    obtain m s3 where m: "run_state (claim_msi K) s2 = (m, s3)" "dat s3 = dat s2"
        "\<And>R. pci_live s2 = Some R \<Longrightarrow> pci_live s3 = Some R" using claim_msi_run [of K s2] by blast
    have c3: "core_held p rs P s3" by (rule core_held_frame [OF c2]) (simp_all add: m(2,3))
    have run3: "run_state (if m \<noteq> 0 then State_Monad.return m else init_svm_step K en_svm) s3 = (r, s')"
      using run e True m(1) by (cases "m = 0") (simp_all add: pcie_device_init_subsystems_def s1_def split: if_splits)
    show ?thesis
    proof (cases "m = 0 \<and> has_svm en_svm (dat s3)")
      case False
      then have "s' = s3 \<and> (m = 0 \<longrightarrow> r = 0) \<and> (m \<noteq> 0 \<longrightarrow> r = m)"
        using run3 by (auto simp: has_svm_def init_svm_step_def split: if_splits)
      then show ?thesis using c3 False by (auto simp: subsystems_held_def)
    next
      case True
      let ?i = "K (trace s3) Pcie_init_svm"
      show ?thesis
      proof (cases "?i = 0")
        case i: True
        then have s': "r = 0" "s' = s3\<lparr>trace := trace s3 @ [(Pcie_init_svm, 0)]\<rparr>"
          using run3 True by (simp_all add: has_svm_def init_svm_step_def)
        have "core_held p ({#Svm#} + rs) P s'"
          by (rule core_held_frame [OF c3]) (simp_all add: s' pci_live_snoc)
        then show ?thesis using s' True by (simp add: subsystems_held_def)
      next
        case i: False
        then have s': "r = ?i" "s' = s3\<lparr>trace := (trace s3 @ [(Pcie_init_svm, ?i)]) @ [(Op Pci_free_irq_vectors,
            K (trace s3 @ [(Pcie_init_svm, ?i)]) (Op Pci_free_irq_vectors))]\<rparr>"
          using run3 True by (auto simp: has_svm_def init_svm_step_def release_msi_def)
        have "core_held p rs P s'"
          by (rule core_held_frame [OF c3]) (simp_all add: s' i pci_live_def live_append)
        then show ?thesis using s' i by simp
      qed
    qed
  qed
qed

lemma exit_subsystems_owns:
  assumes "qdma_stable P" and "\<And>ring. ring \<noteq> 0 \<Longrightarrow> dma_handle p ring \<noteq> 0"
  shows "triple (subsystems_held p en_svm rs P) (pcie_device_exit_subsystems K p en_svm)
    (\<lambda>_ s. pci.owns rs P s \<or> pcie_is_qdma_in_use p \<and> (\<exists>ack. pci.owns (add_mset (Iomap ack) rs) P s))"
proof (rule tripleI)
  fix s and r :: unit and s'
  assume h: "subsystems_held p en_svm rs P s" and run: "run_state (pcie_device_exit_subsystems K p en_svm) s = (r, s')"
  define s1 where "s1 = (if has_svm en_svm (dat s) then s\<lparr>trace := trace s @ [(Pcie_exit_svm, K (trace s) Pcie_exit_svm)]\<rparr> else s)"
  have c1: "core_held p rs P s1"
    by (rule core_held_frame [OF h [unfolded subsystems_held_def]]) (auto simp: s1_def pci_live_snoc)
  define s2 where "s2 = s1\<lparr>trace := trace s1 @ [(Op Pci_free_irq_vectors, K (trace s1) (Op Pci_free_irq_vectors))]\<rparr>"
  have c2: "core_held p rs P s2"
    by (rule core_held_frame [OF c1]) (auto simp: s2_def pci_live_snoc)
  have run2: "run_state (if pcie_is_qdma_in_use p then do { r \<leftarrow> pcie_qdma_exit K p; State_Monad.return () } else State_Monad.return ()) s2 = (r, s')"
    using run by (cases "en_svm"; cases "component (dat s) ''PLATFORM_COMPONENT_MMU'' = - 1"; cases "pcie_is_qdma_in_use p")
      (simp_all add: pcie_device_exit_subsystems_def has_svm_def s1_def s2_def release_msi_def)
  show "pci.owns rs P s' \<or> pcie_is_qdma_in_use p \<and> (\<exists>ack. pci.owns (add_mset (Iomap ack) rs) P s')"
  proof (cases "pcie_is_qdma_in_use p")
    case True
    then obtain q where q: "run_state (pcie_qdma_exit K p) s2 = (q, s')" using run2 by (auto split: prod.splits)
    have held: "qdma_held p rs P s2" using c2 True by (simp add: core_held_def)
    from tripleD [OF qdma_exit_owns [OF assms] held q] show ?thesis using True by (auto split: if_splits)
  next
    case False
    then show ?thesis using run2 c2 by (simp add: core_held_def)
  qed
qed

section \<open>Buffers\<close>

text \<open>The resources behind the entries of the two tables.\<close>

definition dma_res :: "dma_buf \<Rightarrow> pci_resource multiset" where
  "dma_res b = (if ptr b = 0 then {#} else {#Dma_mapping (ptr_dev b) (buf_size b), Buffer (ptr b)#})"

definition gp_res :: "gp_buf \<Rightarrow> pci_resource multiset" where
  "gp_res g = {#Buffer (gp_ptr g), Dev_entry (gp_entry g)#}
     + (if gp_dev_addr g = 0 then {#} else {#Dma_mapping (gp_dev_addr g) (gp_buf_size g)#})"

definition dma_ok :: "dma_buf \<Rightarrow> bool" where
  "dma_ok b \<longleftrightarrow> (ptr b = 0 \<longleftrightarrow> ptr_dev b = 0)"

definition buf_res :: "tlkm_pcie_device \<Rightarrow> pci_resource multiset" where
  "buf_res d = sum_list (map dma_res (dma_buffer d)) + sum_list (map gp_res (gp_buffer d))"

definition bufs_ok :: "tlkm_pcie_device \<Rightarrow> bool" where
  "bufs_ok d \<longleftrightarrow> length (dma_buffer d) = TLKM_PCIE_NUM_DMA_BUFFERS \<and> (\<forall>b \<in> set (dma_buffer d). dma_ok b)
     \<and> (\<forall>g \<in> set (gp_buffer d). gp_ptr g \<noteq> 0)"

definition bufs_inv :: "pci_resource multiset \<Rightarrow> pci_st \<Rightarrow> bool" where
  "bufs_inv rs s \<longleftrightarrow> pci_live s = Some (buf_res (dat s) + rs) \<and> bufs_ok (dat s)"

text \<open>Documented behaviour of the DMA interface this relies on: mappings succeed, and not at bus
  address 0, which the driver uses for ``not mapped''.\<close>

definition dma_maps :: "pci_call kenv \<Rightarrow> bool" where
  "dma_maps K \<longleftrightarrow> (\<forall>tr q n d. K tr (Dma_map_single q n d) \<notin> {0, - 1})"

text \<open>Apart from the buffers and the counters nothing changes.\<close>

definition same_core :: "tlkm_pcie_device \<Rightarrow> tlkm_pcie_device \<Rightarrow> bool" where
  "same_core d d' \<longleftrightarrow> d' = d\<lparr>dma_buffer := dma_buffer d', gp_buffer := gp_buffer d', counters := counters d'\<rparr>"

lemma same_core_refl [simp]: "same_core d d"
  by (simp add: same_core_def)

lemma same_core_trans: "same_core a b \<Longrightarrow> same_core b c \<Longrightarrow> same_core a c"
  unfolding same_core_def by (cases a, cases b, cases c) simp

lemma sum_update:
  fixes f :: "'a \<Rightarrow> 'b :: comm_monoid_add"
  shows "k < length xs \<Longrightarrow> sum_list (map f (xs[k := x])) + f (xs ! k) = sum_list (map f xs) + f x"
proof (induction xs arbitrary: k)
  case (Cons a xs)
  show ?case
  proof (cases k)
    case 0
    then show ?thesis by (simp add: ac_simps)
  next
    case (Suc j)
    then have "sum_list (map f (xs[j := x])) + f (xs ! j) = sum_list (map f xs) + f x" using Cons by simp
    then have "f a + (sum_list (map f (xs[j := x])) + f (xs ! j)) = f a + (sum_list (map f xs) + f x)" by simp
    then show ?thesis using Suc by (simp add: add.assoc)
  qed
qed simp

lemma alloc_run:
  assumes "dma_maps K" and "pci_live s = Some R"
    and "run_state (pcie_device_dma_allocate_buffer K b) s = ((e, b'), s')"
  shows "dat s' = dat s \<and> (if e = 0 then pci_live s' = Some (dma_res b' + R) \<and> dma_ok b' \<and> ptr b' \<noteq> 0
      \<and> buf_size b' = buf_size b \<and> direction b' = direction b
    else pci_live s' = Some R)"
  using assms
  by (auto simp: pcie_device_dma_allocate_buffer_def pci_live_def live_append dma_res_def dma_ok_def dma_maps_def EFAULT_def
      split: if_splits)

lemma free_run:
  assumes "dma_ok b" and "pci_live s = Some (dma_res b + R)"
    and "run_state (pcie_device_dma_free_buffer K b) s = (b', s')"
  shows "dat s' = dat s \<and> pci_live s' = Some R \<and> b' = b\<lparr>ptr_dev := 0, ptr := 0\<rparr>"
  using assms
  by (auto simp: pcie_device_dma_free_buffer_def pci_live_def live_append dma_res_def dma_ok_def split: if_splits)

text \<open>Replacing entry \<open>i\<close> of the table of DMA buffers.\<close>

lemma buf_res_update:
  assumes "i < length (dma_buffer d)"
  shows "buf_res (d\<lparr>dma_buffer := (dma_buffer d)[i := b]\<rparr>) + dma_res (dma_buffer d ! i) = buf_res d + dma_res b"
  using sum_update [OF assms, of dma_res b] by (simp add: buf_res_def ac_simps)

lemma bufs_ok_update:
  "bufs_ok d \<Longrightarrow> dma_ok b \<Longrightarrow> bufs_ok (d\<lparr>dma_buffer := (dma_buffer d)[i := b]\<rparr>)"
  by (auto simp: bufs_ok_def dest: set_update_subset_insert [THEN subsetD])

lemma close_dma_buffers_run:
  assumes "bufs_inv rs s" and "i + n = TLKM_PCIE_NUM_DMA_BUFFERS" and "\<forall>j < i. ptr (dma_buffer (dat s) ! j) = 0"
    and "run_state (close_dma_buffers K i n) s = (u, s')"
  shows "bufs_inv rs s' \<and> same_core (dat s) (dat s') \<and> gp_buffer (dat s') = gp_buffer (dat s)
    \<and> (\<forall>j < TLKM_PCIE_NUM_DMA_BUFFERS. ptr (dma_buffer (dat s') ! j) = 0)"
  using assms
proof (induction n arbitrary: i s)
  case (Suc n)
  let ?d = "dat s" and ?b = "dma_buffer (dat s) ! i"
  have len: "i < length (dma_buffer ?d)" "length (dma_buffer ?d) = TLKM_PCIE_NUM_DMA_BUFFERS"
    using Suc.prems(1,2) by (auto simp: bufs_inv_def bufs_ok_def)
  show ?case
  proof (cases "ptr ?b = 0")
    case True
    then have "\<forall>j < Suc i. ptr (dma_buffer ?d ! j) = 0" using Suc.prems(3) by (simp add: less_Suc_eq)
    moreover have "run_state (close_dma_buffers K (Suc i) n) s = (u, s')" using Suc.prems(4) True by simp
    ultimately show ?thesis using Suc.IH [of s "Suc i"] Suc.prems(1,2) by simp
  next
    case False
    obtain b' s1 where f: "run_state (pcie_device_dma_free_buffer K ?b) s = (b', s1)" by (metis surj_pair)
    let ?b' = "b'\<lparr>buf_size := 0\<rparr>"
    define s2 where "s2 = s1\<lparr>dat := (dat s1)\<lparr>dma_buffer := (dma_buffer (dat s1))[i := ?b']\<rparr>\<rparr>"
    have run: "run_state (close_dma_buffers K (Suc i) n) s2 = (u, s')"
      using Suc.prems(4) False f unfolding s2_def by simp
    define R where "R = buf_res (?d\<lparr>dma_buffer := (dma_buffer ?d)[i := ?b']\<rparr>) + rs"
    have ok: "dma_ok ?b" using Suc.prems(1) len by (simp add: bufs_inv_def bufs_ok_def)
    have "dma_res ?b' = {#} \<and> dma_ok ?b'" if "b' = ?b\<lparr>ptr_dev := 0, ptr := 0\<rparr>"
      using that by (simp add: dma_res_def dma_ok_def)
    moreover have "pci_live s = Some (dma_res ?b + R)" if "dma_res ?b' = {#}"
    proof -
      have "buf_res ?d = dma_res ?b + buf_res (?d\<lparr>dma_buffer := (dma_buffer ?d)[i := ?b']\<rparr>)"
        using buf_res_update [OF len(1), of ?b'] that by (simp add: add.commute)
      then have "buf_res ?d + rs = dma_res ?b + R" unfolding R_def by (simp only: add.assoc)
      then show ?thesis using Suc.prems(1) by (simp only: bufs_inv_def)
    qed
    moreover have "b' = ?b\<lparr>ptr_dev := 0, ptr := 0\<rparr>"
      using f by (auto simp: pcie_device_dma_free_buffer_def split: if_splits)
    ultimately have b': "b' = ?b\<lparr>ptr_dev := 0, ptr := 0\<rparr> \<and> dat s1 = ?d \<and> pci_live s1 = Some R" "dma_ok ?b'"
      using free_run [OF ok _ f, of R] by blast+
    have d2: "dat s2 = ?d\<lparr>dma_buffer := (dma_buffer ?d)[i := ?b']\<rparr>" using b' by (simp add: s2_def)
    have "bufs_inv rs s2"
      using b' Suc.prems(1) bufs_ok_update [of ?d ?b' i]
      by (simp add: bufs_inv_def d2) (simp add: s2_def R_def pci_live_def)
    moreover have "\<forall>j < Suc i. ptr (dma_buffer (dat s2) ! j) = 0"
      using Suc.prems(3) len b' by (auto simp: d2 nth_list_update less_Suc_eq)
    ultimately have "bufs_inv rs s' \<and> same_core (dat s2) (dat s') \<and> gp_buffer (dat s') = gp_buffer (dat s2)
        \<and> (\<forall>j < TLKM_PCIE_NUM_DMA_BUFFERS. ptr (dma_buffer (dat s') ! j) = 0)"
      using Suc.IH [of s2 "Suc i"] Suc.prems(2) run by simp
    moreover have "same_core ?d (dat s2)" by (simp add: same_core_def d2)
    ultimately show ?thesis using same_core_trans by (auto simp: d2)
  qed
qed simp

lemma close_gp_buffers_run:
  assumes "bufs_inv rs s" and "gp_buffer (dat s) = bs" and "run_state (close_gp_buffers K bs) s = (u, s')"
  shows "bufs_inv rs s' \<and> same_core (dat s) (dat s') \<and> gp_buffer (dat s') = [] \<and> dma_buffer (dat s') = dma_buffer (dat s)"
  using assms
proof (induction bs arbitrary: s)
  case (Cons b bs)
  define s1 where "s1 = snd (run_state (do {
     (if gp_dev_addr b \<noteq> 0 then kdo K (Dma_unmap_single (gp_dev_addr b) (gp_buf_size b) FROM_DEV) else State_Monad.return ());
     kdo K (Kfree (gp_ptr b));
     modd (\<lambda>d. d\<lparr>gp_buffer := bs\<rparr>);
     kdo K (Devm_kfree (gp_entry b)) }) s)"
  have d1: "dat s1 = (dat s)\<lparr>gp_buffer := bs\<rparr>" by (simp add: s1_def)
  have nz: "gp_ptr b \<noteq> 0" using Cons.prems(1,2) by (simp add: bufs_inv_def bufs_ok_def)
  define R where "R = buf_res (dat s1) + rs"
  have "pci_live s = Some (gp_res b + R)"
    using Cons.prems(1,2) by (simp add: bufs_inv_def buf_res_def R_def d1 ac_simps)
  then have "pci_live s1 = Some R"
    using nz by (auto simp: s1_def gp_res_def pci_live_def live_append add_mset_commute)
  then have "bufs_inv rs s1"
    using Cons.prems(1,2) by (auto simp: bufs_inv_def R_def bufs_ok_def d1)
  moreover have "run_state (close_gp_buffers K bs) s1 = (u, s')"
    using Cons.prems(3) by (cases "gp_dev_addr b = 0") (simp_all add: s1_def)
  ultimately have "bufs_inv rs s' \<and> same_core (dat s1) (dat s') \<and> gp_buffer (dat s') = [] \<and> dma_buffer (dat s') = dma_buffer (dat s1)"
    using Cons.IH [of s1] by (simp add: d1)
  moreover have "same_core (dat s) (dat s1)" by (simp add: same_core_def d1)
  ultimately show ?case using same_core_trans by (auto simp: d1)
qed simp

text \<open>Closing the file frees all buffers.\<close>

definition no_bufs :: "tlkm_pcie_device \<Rightarrow> bool" where
  "no_bufs d \<longleftrightarrow> (\<forall>b \<in> set (dma_buffer d). ptr b = 0) \<and> gp_buffer d = []"

lemma no_bufs_res: "no_bufs d \<Longrightarrow> buf_res d = {#}"
proof -
  have "\<forall>b \<in> set bs. ptr b = 0 \<Longrightarrow> sum_list (map dma_res bs) = {#}" for bs
    by (induction bs) (simp_all add: dma_res_def)
  then show "no_bufs d \<Longrightarrow> buf_res d = {#}" by (simp add: no_bufs_def buf_res_def)
qed

lemma miscdev_close_run:
  assumes "bufs_inv rs s" and "run_state (pcie_device_miscdev_close K en_svm) s = (u, s')"
  shows "bufs_inv rs s' \<and> no_bufs (dat s') \<and> same_core (dat s) (dat s') \<and> pci_live s' = Some rs"
proof -
  obtain u1 s1 where s1: "run_state (close_dma_buffers K 0 TLKM_PCIE_NUM_DMA_BUFFERS) s = (u1, s1)" by (metis surj_pair)
  have c1: "bufs_inv rs s1" "same_core (dat s) (dat s1)" "\<forall>j < TLKM_PCIE_NUM_DMA_BUFFERS. ptr (dma_buffer (dat s1) ! j) = 0"
    using close_dma_buffers_run [OF assms(1) _ _ s1] by simp_all
  obtain u2 s2 where s2: "run_state (close_gp_buffers K (gp_buffer (dat s1))) s1 = (u2, s2)" by (metis surj_pair)
  have c2: "bufs_inv rs s2" "same_core (dat s1) (dat s2)" "gp_buffer (dat s2) = []" "dma_buffer (dat s2) = dma_buffer (dat s1)"
    using close_gp_buffers_run [OF c1(1) refl s2] by simp_all
  have nb: "no_bufs (dat s2)"
    using c1(1,3) c2 by (auto simp: no_bufs_def bufs_inv_def bufs_ok_def in_set_conv_nth)
  have "dat s' = dat s2 \<and> (\<forall>R. pci_live s2 = Some R \<longrightarrow> pci_live s' = Some R)"
    using assms(2) s1 s2 by (auto simp: pcie_device_miscdev_close_def pci_live_snoc split: if_splits)
  then show ?thesis using c1(2) c2 nb no_bufs_res [OF nb] same_core_trans by (auto simp: bufs_inv_def)
qed

end
