(* ===== verification/Pcie_Ioctl.thy ===== *)
theory Pcie_Ioctl
  imports Pcie_Device
begin

text \<open>
  The device commands of the PCIe platforms, \<^verbatim>\<open>pcie/pcie_ioctl.c\<close>: a table of 32 DMA buffers, a list
  of kernel buffers, register access and the SVM commands. A buffer number outside the table is
  not checked by the code; the command is then undefined (\<^const>\<open>None\<close>).
\<close>

section \<open>DMA buffers\<close>

definition pcie_ioctl_unsupported :: "tlkm_dev_cmd \<Rightarrow> (int \<times> tlkm_dev_cmd) pci_m" where
  "pcie_ioctl_unsupported c = State_Monad.return (- EFAULT, c)"

definition set_dma_buffer :: "nat \<Rightarrow> dma_buf \<Rightarrow> unit pci_m" where
  "set_dma_buffer i b = modd (\<lambda>d. d\<lparr>dma_buffer := (dma_buffer d)[i := b]\<rparr>)"

fun dma_allocate_loop :: "pci_call kenv \<Rightarrow> tlkm_dma_buffer_allocate \<Rightarrow> nat \<Rightarrow> nat \<Rightarrow> (int \<times> tlkm_dma_buffer_allocate) pci_m" where
  "dma_allocate_loop K param i 0 = State_Monad.return (- EMFILE, param)"
| "dma_allocate_loop K param i (Suc n) = do {
     b \<leftarrow> getd (\<lambda>d. dma_buffer d ! i);
     if ptr b = 0 then do {
       let b1 = b\<lparr>buf_size := ba_size param, direction := (if ba_from_device param then FROM_DEV else TO_DEV)\<rparr>;
       r \<leftarrow> pcie_device_dma_allocate_buffer K b1;
       (if fst r \<noteq> 0 then do { set_dma_buffer i zero_dma_buf; State_Monad.return (fst r, param) }
        else do {
          set_dma_buffer i (snd r);
          State_Monad.return (0, param\<lparr>ba_buffer_id := word_of_nat i, ba_addr := word_of_int (ptr_dev (snd r))\<rparr>) }) }
     else dma_allocate_loop K param (Suc i) n
   }"

definition pcie_ioctl_dma_buffer_allocate ::
  "pci_call kenv \<Rightarrow> tlkm_dma_buffer_allocate \<Rightarrow> (int \<times> tlkm_dma_buffer_allocate) pci_m" where
  "pcie_ioctl_dma_buffer_allocate K param = dma_allocate_loop K param 0 TLKM_PCIE_NUM_DMA_BUFFERS"

definition valid_id :: "tlkm_dma_buffer_op \<Rightarrow> bool" where
  "valid_id cmd \<longleftrightarrow> unat (op_buffer_id cmd) < TLKM_PCIE_NUM_DMA_BUFFERS"

definition pcie_ioctl_dma_buffer_free :: "pci_call kenv \<Rightarrow> tlkm_dma_buffer_op \<Rightarrow> int pci_m" where
  "pcie_ioctl_dma_buffer_free K param = do {
     b \<leftarrow> getd (\<lambda>d. dma_buffer d ! unat (op_buffer_id param));
     b' \<leftarrow> pcie_device_dma_free_buffer K b;
     set_dma_buffer (unat (op_buffer_id param)) zero_dma_buf;
     State_Monad.return 0
   }"

definition pcie_ioctl_dma_buffer_to_dev :: "pci_call kenv \<Rightarrow> tlkm_dma_buffer_op \<Rightarrow> int pci_m" where
  "pcie_ioctl_dma_buffer_to_dev K param = do {
     b \<leftarrow> getd (\<lambda>d. dma_buffer d ! unat (op_buffer_id param));
     r \<leftarrow> pcie_device_dma_sync_buffer_dev K b;
     State_Monad.return 0
   }"

definition pcie_ioctl_dma_buffer_from_dev :: "pci_call kenv \<Rightarrow> tlkm_dma_buffer_op \<Rightarrow> int pci_m" where
  "pcie_ioctl_dma_buffer_from_dev K param = do {
     b \<leftarrow> getd (\<lambda>d. dma_buffer d ! unat (op_buffer_id param));
     r \<leftarrow> pcie_device_dma_sync_buffer_cpu K b;
     State_Monad.return 0
   }"

section \<open>Kernel buffers\<close>

definition pcie_ioctl_kernel_buffer_allocate ::
  "pci_call kenv \<Rightarrow> tlkm_gp_buffer_allocate_cmd \<Rightarrow> (int \<times> tlkm_gp_buffer_allocate_cmd) pci_m" where
  "pcie_ioctl_kernel_buffer_allocate K cmd =
     (if gp_size cmd > push_bit 20 4 then State_Monad.return (- ENOMEM, cmd) else do {
        new \<leftarrow> kcall K Devm_kzalloc;
        if new = 0 then State_Monad.return (- ENOMEM, cmd) else do {
        q \<leftarrow> kcall K (Kmalloc (gp_size cmd));
        if q = 0 then do { kdo K (Devm_kfree new); State_Monad.return (- ENOMEM, cmd) } else do {
        bs \<leftarrow> getd gp_buffer;
        let i = (if bs = [] then 1 else gp_id (last bs) + 1);
        modd (\<lambda>d. d\<lparr>gp_buffer := gp_buffer d @ [\<lparr>gp_entry = new, gp_ptr = q, gp_dev_addr = 0, gp_buf_size = gp_size cmd, gp_id = i\<rparr>]\<rparr>);
        State_Monad.return (0, cmd\<lparr>gp_buffer_id := i\<rparr>)
      }}})"

text \<open>The loop returns after the first entry, whether it is the one or not.\<close>

definition pcie_ioctl_kernel_buffer_free :: "pci_call kenv \<Rightarrow> tlkm_dma_buffer_op \<Rightarrow> int pci_m" where
  "pcie_ioctl_kernel_buffer_free K cmd = do {
     bs \<leftarrow> getd gp_buffer;
     (case bs of
        [] \<Rightarrow> State_Monad.return (- ENOENT)
      | old # rest \<Rightarrow> do {
          (if gp_id old = op_buffer_id cmd then do {
             modd (\<lambda>d. d\<lparr>gp_buffer := rest\<rparr>);
             (if gp_dev_addr old \<noteq> 0 then kdo K (Dma_unmap_single (gp_dev_addr old) (gp_buf_size old) FROM_DEV)
              else State_Monad.return ());
             kdo K (Kfree (gp_ptr old));
             kdo K (Devm_kfree (gp_entry old)) }
           else State_Monad.return ());
          State_Monad.return 0 })
   }"

text \<open>The search of the other two commands: index of the first entry with the number.\<close>

fun gp_index :: "u64 \<Rightarrow> gp_buf list \<Rightarrow> nat option" where
  "gp_index i [] = None"
| "gp_index i (b # bs) = (if gp_id b = i then Some 0 else map_option Suc (gp_index i bs))"

definition set_dev_addr :: "nat \<Rightarrow> int \<Rightarrow> unit pci_m" where
  "set_dev_addr k h = modd (\<lambda>d. d\<lparr>gp_buffer := (gp_buffer d)[k := (gp_buffer d ! k)\<lparr>gp_dev_addr := h\<rparr>]\<rparr>)"

definition pcie_ioctl_kernel_buffer_map :: "pci_call kenv \<Rightarrow> tlkm_gp_buffer_map_cmd \<Rightarrow> (int \<times> tlkm_gp_buffer_map_cmd) pci_m" where
  "pcie_ioctl_kernel_buffer_map K cmd = do {
     bs \<leftarrow> getd gp_buffer;
     (case gp_index (map_buffer_id cmd) bs of
        None \<Rightarrow> State_Monad.return (- ENOENT, cmd)
      | Some k \<Rightarrow> do {
          h \<leftarrow> kcall K (Dma_map_single (gp_ptr (bs ! k)) (gp_buf_size (bs ! k)) TO_DEV);
          set_dev_addr k h;
          State_Monad.return (if h = - 1 then (- ENOMEM, cmd) else (0, cmd\<lparr>map_dev_addr := word_of_int h\<rparr>)) })
   }"

definition pcie_ioctl_kernel_buffer_unmap :: "pci_call kenv \<Rightarrow> tlkm_dma_buffer_op \<Rightarrow> int pci_m" where
  "pcie_ioctl_kernel_buffer_unmap K cmd = do {
     bs \<leftarrow> getd gp_buffer;
     (case gp_index (op_buffer_id cmd) bs of
        None \<Rightarrow> State_Monad.return (- ENOENT)
      | Some k \<Rightarrow> do {
          kdo K (Dma_unmap_single (gp_dev_addr (bs ! k)) (gp_buf_size (bs ! k)) FROM_DEV);
          set_dev_addr k 0;
          State_Monad.return 0 })
   }"

section \<open>Other commands\<close>

definition pcie_ioctl_bar_addr :: "pci_dev \<Rightarrow> tlkm_bar_addr_cmd \<Rightarrow> tlkm_pcie_device \<Rightarrow> int \<times> tlkm_bar_addr_cmd" where
  "pcie_ioctl_bar_addr p cmd d =
     (if bar_idx cmd = 0 then (0, cmd\<lparr>bar_addr := phy_addr_bar0 d\<rparr>)
      else if bar_idx cmd = 2 \<and> pci_resource_len p 2 > 0 then (0, cmd\<lparr>bar_addr := pci_resource_start p 2\<rparr>)
      else if bar_idx cmd = 4 \<and> pci_resource_len p 4 > 0 then (0, cmd\<lparr>bar_addr := pci_resource_start p 4\<rparr>)
      else (- ENOENT, cmd))"

text \<open>Register access is \<^verbatim>\<open>tlkm_platform_read\<close> and \<^verbatim>\<open>tlkm_platform_write\<close>, given by what they do to the
  counters.\<close>

type_synonym pcie_reg_access = "tlkm_copy_cmd \<Rightarrow> tlkm_perfc_t \<Rightarrow> int \<times> tlkm_perfc_t"

definition pcie_ioctl_access :: "pcie_reg_access \<Rightarrow> tlkm_copy_cmd \<Rightarrow> int pci_m" where
  "pcie_ioctl_access acc cmd = do {
     r \<leftarrow> getd (\<lambda>d. acc cmd (counters d));
     modd (\<lambda>d. d\<lparr>counters := snd r\<rparr>);
     State_Monad.return (fst r)
   }"

definition pcie_ioctl_svm_launch :: "pci_call kenv \<Rightarrow> bool \<Rightarrow> tlkm_svm_init_cmd \<Rightarrow> (int \<times> tlkm_svm_init_cmd) pci_m" where
  "pcie_ioctl_svm_launch K en_svm cmd =
     (if en_svm then do {
        r \<leftarrow> kcall K (Op Pcie_launch_svm);
        State_Monad.return (if r \<noteq> 0 then - EFAULT else 0, cmd\<lparr>svm_result := r\<rparr>) }
      else State_Monad.return (- EFAULT, cmd))"

definition pcie_ioctl_svm_migrate_to_dev :: "pci_call kenv \<Rightarrow> bool \<Rightarrow> tlkm_svm_migrate_cmd \<Rightarrow> int pci_m" where
  "pcie_ioctl_svm_migrate_to_dev K en_svm cmd =
     (if en_svm then kcall K (Op (Svm_to_device (svm_vaddr cmd) (svm_size cmd))) else State_Monad.return (- EFAULT))"

definition pcie_ioctl_svm_migrate_to_ram :: "pci_call kenv \<Rightarrow> bool \<Rightarrow> tlkm_svm_migrate_cmd \<Rightarrow> int pci_m" where
  "pcie_ioctl_svm_migrate_to_ram K en_svm cmd =
     (if en_svm then kcall K (Op (Svm_to_ram (svm_vaddr cmd) (svm_size cmd))) else State_Monad.return (- EFAULT))"

section \<open>Dispatch\<close>

definition with_cmd :: "('a \<Rightarrow> tlkm_dev_cmd) \<Rightarrow> (int \<times> 'a) pci_m \<Rightarrow> (int \<times> tlkm_dev_cmd) pci_m" where
  "with_cmd f m = do { x \<leftarrow> m; State_Monad.return (fst x, f (snd x)) }"

definition same_cmd :: "tlkm_dev_cmd \<Rightarrow> int pci_m \<Rightarrow> (int \<times> tlkm_dev_cmd) pci_m" where
  "same_cmd c m = do { r \<leftarrow> m; State_Monad.return (r, c) }"

definition pcie_ioctl_cmd :: "pci_call kenv \<Rightarrow> pci_dev \<Rightarrow> bool \<Rightarrow> pcie_reg_access \<Rightarrow> pcie_reg_access \<Rightarrow> tlkm_dev_cmd
    \<Rightarrow> (int \<times> tlkm_dev_cmd) pci_m option" where
  "pcie_ioctl_cmd K p en_svm rd wr c =
     (case c of
        Dma_buffer_allocate x \<Rightarrow> Some (with_cmd Dma_buffer_allocate (pcie_ioctl_dma_buffer_allocate K x))
      | Dma_buffer_free x \<Rightarrow> if valid_id x then Some (same_cmd c (pcie_ioctl_dma_buffer_free K x)) else None
      | Dma_buffer_to_dev x \<Rightarrow> if valid_id x then Some (same_cmd c (pcie_ioctl_dma_buffer_to_dev K x)) else None
      | Dma_buffer_from_dev x \<Rightarrow> if valid_id x then Some (same_cmd c (pcie_ioctl_dma_buffer_from_dev K x)) else None
      | Kernel_buffer_allocate x \<Rightarrow> Some (with_cmd Kernel_buffer_allocate (pcie_ioctl_kernel_buffer_allocate K x))
      | Kernel_buffer_free x \<Rightarrow> Some (same_cmd c (pcie_ioctl_kernel_buffer_free K x))
      | Kernel_buffer_map x \<Rightarrow> Some (with_cmd Kernel_buffer_map (pcie_ioctl_kernel_buffer_map K x))
      | Kernel_buffer_unmap x \<Rightarrow> Some (same_cmd c (pcie_ioctl_kernel_buffer_unmap K x))
      | Pcie_bar_addr x \<Rightarrow> Some (with_cmd Pcie_bar_addr (getd (pcie_ioctl_bar_addr p x)))
      | Read x \<Rightarrow> Some (same_cmd c (pcie_ioctl_access rd x))
      | Write x \<Rightarrow> Some (same_cmd c (pcie_ioctl_access wr x))
      | Svm_launch x \<Rightarrow> Some (with_cmd Svm_launch (pcie_ioctl_svm_launch K en_svm x))
      | Svm_migrate_to_dev x \<Rightarrow> Some (same_cmd c (pcie_ioctl_svm_migrate_to_dev K en_svm x))
      | Svm_migrate_to_ram x \<Rightarrow> Some (same_cmd c (pcie_ioctl_svm_migrate_to_ram K en_svm x))
      | _ \<Rightarrow> Some (pcie_ioctl_unsupported c))"

definition pcie_ioctl :: "pci_call kenv \<Rightarrow> pci_dev \<Rightarrow> bool \<Rightarrow> pcie_reg_access \<Rightarrow> pcie_reg_access \<Rightarrow> bool \<Rightarrow> bool
    \<Rightarrow> tlkm_dev_cmd \<Rightarrow> pci_st \<Rightarrow> (int \<times> tlkm_dev_cmd option \<times> pci_st) option" where
  "pcie_ioctl K p en_svm rd wr copy_in copy_out c s =
     (case c of
        Invalid_ioctl n \<Rightarrow> Some (- ENXIO, None, s)
      | _ \<Rightarrow> if \<not> copy_in then Some (- EFAULT, None, s)
             else case pcie_ioctl_cmd K p en_svm rd wr c of
                    None \<Rightarrow> None
                  | Some m \<Rightarrow> let ((r, c'), s') = run_state m s
                              in Some (if copy_out then (r, Some c', s') else (- EFAULT, None, s')))"

section \<open>The tables account for all buffers\<close>

definition keeps_bufs :: "'r pci_m \<Rightarrow> pci_st \<Rightarrow> bool" where
  "keeps_bufs m s \<longleftrightarrow> (\<forall>rs x s'. bufs_inv rs s \<longrightarrow> run_state m s = (x, s') \<longrightarrow> bufs_inv rs s' \<and> same_core (dat s) (dat s'))"

lemma keeps_return: "keeps_bufs (State_Monad.return x) s"
  by (simp add: keeps_bufs_def)

lemma keeps_cmd: "keeps_bufs m s \<Longrightarrow> keeps_bufs (with_cmd f m) s" "keeps_bufs n s \<Longrightarrow> keeps_bufs (same_cmd c n) s"
  by (auto simp: keeps_bufs_def with_cmd_def same_cmd_def split: prod.splits)

lemma keeps_op: "keeps_bufs (do { r \<leftarrow> kcall K (Op x); State_Monad.return (f r) }) s" "keeps_bufs (kcall K (Op x)) s"
  by (auto simp: keeps_bufs_def bufs_inv_def pci_live_snoc)

lemma dma_allocate_keeps:
  assumes "dma_maps K" and "i + n = TLKM_PCIE_NUM_DMA_BUFFERS"
  shows "keeps_bufs (dma_allocate_loop K param i n) s"
  using assms(2)
proof (induction n arbitrary: i)
  case 0
  then show ?case by (simp add: keeps_return)
next
  case (Suc n)
  let ?b = "dma_buffer (dat s) ! i"
  show ?case
  proof (cases "ptr ?b = 0")
    case False
    then show ?thesis using Suc.IH [of "Suc i"] Suc.prems by (simp add: keeps_bufs_def)
  next
    case True
    show ?thesis unfolding keeps_bufs_def
    proof (intro allI impI)
      fix rs x s'
      assume inv: "bufs_inv rs s" and run: "run_state (dma_allocate_loop K param i (Suc n)) s = (x, s')"
      let ?b1 = "?b\<lparr>buf_size := ba_size param, direction := (if ba_from_device param then FROM_DEV else TO_DEV)\<rparr>"
      obtain e b' s1 where a: "run_state (pcie_device_dma_allocate_buffer K ?b1) s = ((e, b'), s1)" by (metis surj_pair)
      have len: "i < length (dma_buffer (dat s))" using inv Suc.prems by (auto simp: bufs_inv_def bufs_ok_def)
      have z: "dma_res ?b = {#}" "dma_res zero_dma_buf = {#}" "dma_ok zero_dma_buf"
        using True by (simp_all add: dma_res_def zero_dma_buf_def dma_ok_def)
      have live: "pci_live s = Some (buf_res (dat s) + rs)" using inv by (simp add: bufs_inv_def)
      note ar = alloc_run [OF assms(1) live a]
      let ?c = "if e = 0 then b' else zero_dma_buf"
      have s': "dat s' = (dat s)\<lparr>dma_buffer := (dma_buffer (dat s))[i := ?c]\<rparr>" "trace s' = trace s1"
        using run True a ar by (auto simp: Let_def set_dma_buffer_def split: if_splits)
      have "pci_live s' = Some (buf_res (dat s') + rs)"
        using ar z buf_res_update [OF len, of ?c] s'(2) unfolding s'(1) pci_live_def
        by (cases "e = 0") (simp_all add: ac_simps)
      moreover have "bufs_ok (dat s')" unfolding s'(1)
        by (rule bufs_ok_update) (use inv ar z in \<open>auto simp: bufs_inv_def\<close>)
      ultimately show "bufs_inv rs s' \<and> same_core (dat s) (dat s')"
        by (simp add: bufs_inv_def same_core_def s'(1))
    qed
  qed
qed

lemma dma_free_keeps:
  assumes "valid_id x"
  shows "keeps_bufs (pcie_ioctl_dma_buffer_free K x) s"
  unfolding keeps_bufs_def
proof (intro allI impI)
  fix rs r s'
  assume inv: "bufs_inv rs s" and run: "run_state (pcie_ioctl_dma_buffer_free K x) s = (r, s')"
  let ?i = "unat (op_buffer_id x)"
  let ?b = "dma_buffer (dat s) ! ?i" and ?d = "(dat s)\<lparr>dma_buffer := (dma_buffer (dat s))[?i := zero_dma_buf]\<rparr>"
  have len: "?i < length (dma_buffer (dat s))" using inv assms by (simp add: bufs_inv_def bufs_ok_def valid_id_def)
  have z: "dma_res zero_dma_buf = {#}" "dma_ok zero_dma_buf" by (simp_all add: dma_res_def zero_dma_buf_def dma_ok_def)
  obtain b' s1 where f: "run_state (pcie_device_dma_free_buffer K ?b) s = (b', s1)" by (metis surj_pair)
  have eq: "buf_res (dat s) = dma_res ?b + buf_res ?d" using buf_res_update [OF len, of zero_dma_buf] z by (simp add: add.commute)
  have ok: "dma_ok ?b" using inv len by (simp add: bufs_inv_def bufs_ok_def)
  have "pci_live s = Some (dma_res ?b + (buf_res ?d + rs))" using inv unfolding bufs_inv_def eq by (simp only: add.assoc)
  note fr = free_run [OF ok this f]
  have s': "dat s' = ?d" "trace s' = trace s1" using run f fr by (auto simp: pcie_ioctl_dma_buffer_free_def set_dma_buffer_def)
  have "bufs_ok ?d" by (rule bufs_ok_update) (use inv z in \<open>simp_all add: bufs_inv_def\<close>)
  then show "bufs_inv rs s' \<and> same_core (dat s) (dat s')"
    using fr s' by (simp add: bufs_inv_def pci_live_def same_core_def)
qed

lemma kernel_allocate_keeps: "keeps_bufs (pcie_ioctl_kernel_buffer_allocate K x) s"
  by (auto simp: keeps_bufs_def pcie_ioctl_kernel_buffer_allocate_def Let_def bufs_inv_def buf_res_def bufs_ok_def gp_res_def
      pci_live_def live_append same_core_def add_mset_commute split: if_splits)

lemma kernel_free_keeps: "keeps_bufs (pcie_ioctl_kernel_buffer_free K x) s"
  by (cases "gp_buffer (dat s)")
    (auto simp: keeps_bufs_def pcie_ioctl_kernel_buffer_free_def bufs_inv_def buf_res_def bufs_ok_def gp_res_def
      pci_live_def live_append same_core_def add_mset_commute split: if_splits)

lemma gp_index_nth: "gp_index i bs = Some k \<Longrightarrow> k < length bs \<and> gp_id (bs ! k) = i"
  by (induction bs arbitrary: k) (auto split: if_splits)

text \<open>Changing the bus address of entry \<open>k\<close>.\<close>

lemma gp_update:
  assumes "k < length (gp_buffer d)"
  shows "buf_res (d\<lparr>gp_buffer := (gp_buffer d)[k := g]\<rparr>) + gp_res (gp_buffer d ! k) = buf_res d + gp_res g"
  using sum_update [OF assms, of gp_res g] by (simp add: buf_res_def ac_simps)

lemma gp_ok_update:
  "bufs_ok d \<Longrightarrow> gp_ptr g \<noteq> 0 \<Longrightarrow> bufs_ok (d\<lparr>gp_buffer := (gp_buffer d)[k := g]\<rparr>)"
  by (auto simp: bufs_ok_def dest: set_update_subset_insert [THEN subsetD])

lemma kernel_map_keeps:
  assumes "dma_maps K" and "\<forall>g \<in> set (gp_buffer (dat s)). gp_id g = map_buffer_id x \<longrightarrow> gp_dev_addr g = 0"
  shows "keeps_bufs (pcie_ioctl_kernel_buffer_map K x) s"
proof (cases "gp_index (map_buffer_id x) (gp_buffer (dat s))")
  case None
  then show ?thesis by (simp add: keeps_bufs_def pcie_ioctl_kernel_buffer_map_def)
next
  case (Some k)
  let ?g = "gp_buffer (dat s) ! k"
  have k: "k < length (gp_buffer (dat s))" "gp_dev_addr ?g = 0" using gp_index_nth [OF Some] assms(2) by auto
  let ?h = "K (trace s) (Dma_map_single (gp_ptr ?g) (gp_buf_size ?g) TO_DEV)"
  let ?d = "(dat s)\<lparr>gp_buffer := (gp_buffer (dat s))[k := ?g\<lparr>gp_dev_addr := ?h\<rparr>]\<rparr>"
  have h: "?h \<noteq> 0" "?h \<noteq> - 1" using assms(1) by (auto simp: dma_maps_def)
  then have "gp_res (?g\<lparr>gp_dev_addr := ?h\<rparr>) = add_mset (Dma_mapping ?h (gp_buf_size ?g)) (gp_res ?g)"
    using k(2) by (simp add: gp_res_def add_mset_commute)
  then have res: "buf_res ?d = add_mset (Dma_mapping ?h (gp_buf_size ?g)) (buf_res (dat s))"
    using gp_update [OF k(1), of "?g\<lparr>gp_dev_addr := ?h\<rparr>"] by simp
  show ?thesis unfolding keeps_bufs_def
  proof (intro allI impI)
    fix rs r s'
    assume inv: "bufs_inv rs s" and run: "run_state (pcie_ioctl_kernel_buffer_map K x) s = (r, s')"
    have s': "s' = s\<lparr>trace := trace s @ [(Dma_map_single (gp_ptr ?g) (gp_buf_size ?g) TO_DEV, ?h)], dat := ?d\<rparr>"
      using run Some by (simp add: pcie_ioctl_kernel_buffer_map_def set_dev_addr_def)
    have "gp_ptr ?g \<noteq> 0" using inv k(1) by (simp add: bufs_inv_def bufs_ok_def)
    then have "bufs_ok ?d" using inv by (intro gp_ok_update) (simp_all add: bufs_inv_def)
    then show "bufs_inv rs s' \<and> same_core (dat s) (dat s')"
      using inv h res by (simp add: s' bufs_inv_def pci_live_def live_append same_core_def)
  qed
qed

lemma kernel_unmap_keeps:
  assumes "\<forall>g \<in> set (gp_buffer (dat s)). gp_id g = op_buffer_id x \<longrightarrow> gp_dev_addr g \<noteq> 0"
  shows "keeps_bufs (pcie_ioctl_kernel_buffer_unmap K x) s"
proof (cases "gp_index (op_buffer_id x) (gp_buffer (dat s))")
  case None
  then show ?thesis by (simp add: keeps_bufs_def pcie_ioctl_kernel_buffer_unmap_def)
next
  case (Some k)
  let ?g = "gp_buffer (dat s) ! k"
  let ?c = "Dma_unmap_single (gp_dev_addr ?g) (gp_buf_size ?g) FROM_DEV"
  let ?d = "(dat s)\<lparr>gp_buffer := (gp_buffer (dat s))[k := ?g\<lparr>gp_dev_addr := 0\<rparr>]\<rparr>"
  have k: "k < length (gp_buffer (dat s))" "gp_dev_addr ?g \<noteq> 0" using gp_index_nth [OF Some] assms by auto
  then have "gp_res ?g = add_mset (Dma_mapping (gp_dev_addr ?g) (gp_buf_size ?g)) (gp_res (?g\<lparr>gp_dev_addr := 0\<rparr>))"
    by (simp add: gp_res_def add_mset_commute)
  then have res: "buf_res (dat s) = add_mset (Dma_mapping (gp_dev_addr ?g) (gp_buf_size ?g)) (buf_res ?d)"
    using gp_update [OF k(1), of "?g\<lparr>gp_dev_addr := 0\<rparr>"] by simp
  show ?thesis unfolding keeps_bufs_def
  proof (intro allI impI)
    fix rs r s'
    assume inv: "bufs_inv rs s" and run: "run_state (pcie_ioctl_kernel_buffer_unmap K x) s = (r, s')"
    have s': "s' = s\<lparr>trace := trace s @ [(?c, K (trace s) ?c)], dat := ?d\<rparr>"
      using run Some by (simp add: pcie_ioctl_kernel_buffer_unmap_def set_dev_addr_def)
    have "gp_ptr ?g \<noteq> 0" using inv k(1) by (simp add: bufs_inv_def bufs_ok_def)
    then have "bufs_ok ?d" using inv by (intro gp_ok_update) (simp_all add: bufs_inv_def)
    moreover have "pci_live s = Some (add_mset (Dma_mapping (gp_dev_addr ?g) (gp_buf_size ?g)) (buf_res ?d + rs))"
      using inv unfolding bufs_inv_def res by simp
    then have "pci_live s' = Some (buf_res ?d + rs)" by (simp add: s' pci_live_def live_append)
    ultimately show "bufs_inv rs s' \<and> same_core (dat s) (dat s')"
      by (simp add: s' bufs_inv_def same_core_def)
  qed
qed

text \<open>What the code relies on: buffer numbers in range, and kernel buffers mapped and unmapped in turn.\<close>

definition pcie_cmd_ok :: "tlkm_pcie_device \<Rightarrow> tlkm_dev_cmd \<Rightarrow> bool" where
  "pcie_cmd_ok d c \<longleftrightarrow> (case c of
     Dma_buffer_free x \<Rightarrow> valid_id x | Dma_buffer_to_dev x \<Rightarrow> valid_id x | Dma_buffer_from_dev x \<Rightarrow> valid_id x
   | Kernel_buffer_map x \<Rightarrow> \<forall>g \<in> set (gp_buffer d). gp_id g = map_buffer_id x \<longrightarrow> gp_dev_addr g = 0
   | Kernel_buffer_unmap x \<Rightarrow> \<forall>g \<in> set (gp_buffer d). gp_id g = op_buffer_id x \<longrightarrow> gp_dev_addr g \<noteq> 0
   | _ \<Rightarrow> True)"

lemma sync_keeps:
  "keeps_bufs (pcie_ioctl_dma_buffer_to_dev K x) s" "keeps_bufs (pcie_ioctl_dma_buffer_from_dev K x) s"
  by (auto simp: keeps_bufs_def pcie_ioctl_dma_buffer_to_dev_def pcie_ioctl_dma_buffer_from_dev_def
      pcie_device_dma_sync_buffer_dev_def pcie_device_dma_sync_buffer_cpu_def bufs_inv_def pci_live_snoc)

lemma access_keeps: "keeps_bufs (pcie_ioctl_access acc x) s" "keeps_bufs (getd f) s" "keeps_bufs (pcie_ioctl_svm_launch K b y) s"
  "keeps_bufs (pcie_ioctl_svm_migrate_to_dev K b z) s" "keeps_bufs (pcie_ioctl_svm_migrate_to_ram K b z) s"
  by (auto simp: keeps_bufs_def pcie_ioctl_access_def bufs_inv_def buf_res_def bufs_ok_def pci_live_def same_core_def
      live_append pcie_ioctl_svm_launch_def pcie_ioctl_svm_migrate_to_dev_def pcie_ioctl_svm_migrate_to_ram_def split: if_splits)

lemma ioctl_cmd_keeps:
  assumes "dma_maps K" and "pcie_cmd_ok (dat s) c" and "pcie_ioctl_cmd K p en_svm rd wr c = Some m"
  shows "keeps_bufs m s"
proof -
  have "keeps_bufs (pcie_ioctl_unsupported c) s" by (simp add: pcie_ioctl_unsupported_def keeps_return)
  moreover have "keeps_bufs (pcie_ioctl_dma_buffer_allocate K x) s" for x
    unfolding pcie_ioctl_dma_buffer_allocate_def by (rule dma_allocate_keeps [OF assms(1)]) simp
  ultimately show ?thesis
    using assms(2,3)
    by (cases c) (auto simp: pcie_ioctl_cmd_def pcie_cmd_ok_def split: if_splits
        intro!: keeps_cmd sync_keeps access_keeps dma_free_keeps kernel_allocate_keeps kernel_free_keeps
          kernel_map_keeps [OF assms(1)] kernel_unmap_keeps)
qed

lemma ioctl_keeps:
  assumes "dma_maps K" and "pcie_cmd_ok (dat s) c" and "bufs_inv rs s"
    and "pcie_ioctl K p en_svm rd wr copy_in copy_out c s = Some (r, x, s')"
  shows "bufs_inv rs s' \<and> same_core (dat s) (dat s')"
proof (cases "pcie_ioctl_cmd K p en_svm rd wr c")
  case None
  then show ?thesis using assms(3,4) by (auto simp: pcie_ioctl_def split: tlkm_dev_cmd.splits if_splits)
next
  case (Some m)
  from ioctl_cmd_keeps [OF assms(1,2) Some] assms(3)
  have "run_state m s = (y, t) \<Longrightarrow> bufs_inv rs t \<and> same_core (dat s) (dat t)" for y t by (auto simp: keeps_bufs_def)
  then show ?thesis using assms(3,4) Some
    by (cases "run_state m s") (auto simp: pcie_ioctl_def split: tlkm_dev_cmd.splits if_splits prod.splits)
qed

section \<open>Sessions\<close>

text \<open>Use of a device file: commands, registration of interrupts, and closing, which releases the
  interrupts and calls \<^verbatim>\<open>pcie_device_miscdev_close\<close>.\<close>

abbreviation pcie_close :: "pci_call kenv \<Rightarrow> bool \<Rightarrow> pci_st \<Rightarrow> pci_st" where
  "pcie_close K en_svm s \<equiv> snd (run_state (pcie_device_miscdev_close K en_svm) s)"

inductive pcie_session :: "pci_call kenv \<Rightarrow> pci_dev \<Rightarrow> bool \<Rightarrow> pcie_reg_access \<Rightarrow> pcie_reg_access \<Rightarrow> pci_st
    \<Rightarrow> tlkm_irq_mapping list \<Rightarrow> pci_st \<Rightarrow> bool" for K p en_svm rd wr s0 where
  session_open: "pcie_session K p en_svm rd wr s0 [] s0"
| session_cmd: "pcie_session K p en_svm rd wr s0 ms s \<Longrightarrow> pcie_cmd_ok (dat s) c \<Longrightarrow>
    pcie_ioctl K p en_svm rd wr copy_in copy_out c s = Some (r, x, s') \<Longrightarrow> pcie_session K p en_svm rd wr s0 ms s'"
| session_reg: "pcie_session K p en_svm rd wr s0 ms s \<Longrightarrow> q \<noteq> 0 \<Longrightarrow> q \<notin> m_ptr ` set ms \<Longrightarrow>
    tlkm_device_reg_int (pcie_pirq K p) copy_ok q fdget x ms s = Some (r, ms', s') \<Longrightarrow> pcie_session K p en_svm rd wr s0 ms' s'"
| session_close: "pcie_session K p en_svm rd wr s0 ms s \<Longrightarrow>
    tlkm_control_release (pcie_rirq K p) (Some (pcie_close K en_svm)) ms s = Some (r, puts, ms', s') \<Longrightarrow>
    pcie_session K p en_svm rd wr s0 ms' s'"

definition irq_lines :: "pci_dev \<Rightarrow> tlkm_irq_mapping list \<Rightarrow> pci_resource multiset" where
  "irq_lines p ms = mset (map (\<lambda>m. Irq_line (pci_irq_vector p (irq_no m)) (Mapping (m_ptr m))) ms)"

definition session_inv :: "pci_dev \<Rightarrow> pci_resource multiset \<Rightarrow> tlkm_pcie_device \<Rightarrow> tlkm_irq_mapping list \<Rightarrow> pci_st \<Rightarrow> bool" where
  "session_inv p rs d0 ms s \<longleftrightarrow> pcie.irq_inv p (buf_res (dat s) + rs) ms s \<and> bufs_ok (dat s) \<and> same_core d0 (dat s)"

lemma session_inv_bufs:
  "session_inv p rs d0 ms s \<longleftrightarrow> irqs_sorted ms \<and> ptrs_ok ms \<and> bufs_inv (irq_lines p ms + rs) s \<and> same_core d0 (dat s)"
proof -
  have "map (line_of p) (keys ms) = map (\<lambda>m. Irq_line (pci_irq_vector p (irq_no m)) (Mapping (m_ptr m))) ms"
    by (simp add: line_of_def comp_def)
  then have "mset (map (line_of p) (keys ms)) + (buf_res (dat s) + rs) = buf_res (dat s) + (irq_lines p ms + rs)"
    unfolding irq_lines_def by (simp only: ac_simps)
  then show ?thesis unfolding session_inv_def pcie.irq_inv_def pcie_cinv_def bufs_inv_def by (auto simp: list_all_iff)
qed

lemma reg_int_dat:
  assumes "tlkm_device_reg_int (pcie_pirq K p) copy_ok q fdget x ms s = Some (r, ms', s')"
  shows "dat s' = dat s"
proof -
  have "dat (snd (run_state (pcie_irqs_request_platform_irq K p m) s)) = dat s" for m
    by (simp add: pcie_irqs_request_platform_irq_def)
  then show ?thesis using assms by (auto simp: tlkm_device_reg_int_def Let_def split: if_splits prod.splits) (metis snd_conv)+
qed

lemma release_mappings_dat:
  "release_mappings (pcie_rirq K p) ms s = Some (puts, s') \<Longrightarrow> dat s' = dat s"
proof (induction ms arbitrary: s puts)
  case (Cons m ms)
  then obtain puts' where "release_mappings (pcie_rirq K p) ms (snd (run_state (pcie_irqs_release_platform_irq K p (m\<lparr>eventfd := 0\<rparr>)) s)) = Some (puts', s')"
    by (auto simp: Let_def split: option.splits)
  from Cons.IH [OF this] show ?case by (simp add: pcie_irqs_release_platform_irq_def)
qed simp

lemma session_close_run:
  assumes "session_inv p rs d0 ms s"
  shows "\<exists>s'. tlkm_control_release (pcie_rirq K p) (Some (pcie_close K en_svm)) ms s = Some (0, map eventfd ms, [], s')
    \<and> session_inv p rs d0 [] s' \<and> pci_live s' = Some rs \<and> no_bufs (dat s')"
proof -
  obtain s1 where s1: "release_mappings (pcie_rirq K p) ms s = Some (map eventfd ms, s1)" "pcie.irq_inv p (buf_res (dat s) + rs) [] s1"
    using pcie.release_mappings_inv [where K = K and p = p] assms unfolding session_inv_def by blast
  have d1: "dat s1 = dat s" by (rule release_mappings_dat [OF s1(1)])
  have inv1: "bufs_inv rs s1" "same_core d0 (dat s1)"
    using s1(2) assms d1 by (auto simp: session_inv_def pcie.irq_inv_def pcie_cinv_def bufs_inv_def)
  obtain u s2 where s2: "run_state (pcie_device_miscdev_close K en_svm) s1 = (u, s2)" by (metis surj_pair)
  from miscdev_close_run [OF inv1(1) s2] inv1(2) have c: "bufs_inv rs s2" "no_bufs (dat s2)" "same_core d0 (dat s2)" "pci_live s2 = Some rs"
    using same_core_trans by blast+
  have "session_inv p rs d0 [] s2" using c by (simp add: session_inv_bufs irq_lines_def irqs_sorted_def ptrs_ok_def)
  then show ?thesis using s1(1) s2 c by (simp add: tlkm_control_release_def)
qed

lemma session_invariant:
  assumes "dma_maps K" and "session_inv p rs d0 [] s0" and "pcie_session K p en_svm rd wr s0 ms s"
  shows "session_inv p rs d0 ms s"
  using assms(3)
proof (induction rule: pcie_session.induct)
  case session_open
  then show ?case by (rule assms(2))
next
  case (session_cmd ms s c copy_in copy_out r x s')
  from session_cmd.IH have i: "irqs_sorted ms" "ptrs_ok ms" "bufs_inv (irq_lines p ms + rs) s" "same_core d0 (dat s)"
    by (simp_all add: session_inv_bufs)
  from ioctl_keeps [OF assms(1) session_cmd.hyps(2) i(3) session_cmd.hyps(3)] i show ?case
    using same_core_trans by (auto simp: session_inv_bufs)
next
  case (session_reg ms s q copy_ok fdget x r ms' s')
  have d: "dat s' = dat s" by (rule reg_int_dat [OF session_reg.hyps(4)])
  from session_reg.IH have "pcie.irq_inv p (buf_res (dat s) + rs) ms s" by (simp add: session_inv_def)
  from pcie.reg_int_inv [where K = K and copy_ok = copy_ok and fdget = fdget and s = x, OF this _ session_reg.hyps(2,3)] session_reg.hyps(4)
  have "pcie.irq_inv p (buf_res (dat s) + rs) ms' s'" by auto
  then show ?case using session_reg.IH d by (simp add: session_inv_def)
next
  case (session_close ms s r puts ms' s')
  from session_close_run [OF session_close.IH, of K en_svm] session_close.hyps(2) show ?case by auto
qed


text \<open>A session on a fresh device: one DMA buffer is allocated.\<close>

definition demo_alloc :: tlkm_dev_cmd where
  "demo_alloc = Dma_buffer_allocate \<lparr>ba_size = 4096, ba_from_device = False, ba_buffer_id = 0, ba_addr = 0\<rparr>"

definition demo_buf_K :: "pci_call kenv" where
  "demo_buf_K tr c = (case c of Kmalloc n \<Rightarrow> 0x1000 | Dma_map_single q n d \<Rightarrow> 0x2000 | _ \<Rightarrow> 0)"

definition demo_fresh :: "tlkm_pcie_device \<Rightarrow> pci_st" where
  "demo_fresh d = \<lparr>trace = [], dat = d\<lparr>dma_buffer := replicate TLKM_PCIE_NUM_DMA_BUFFERS zero_dma_buf, gp_buffer := []\<rparr>\<rparr>"

lemma alloc_first:
  assumes "ptr (dma_buffer (dat s) ! 0) = 0" and "ba_size y = 4096" and "\<not> ba_from_device y"
  shows "\<exists>z s'. run_state (dma_allocate_loop demo_buf_K y 0 (Suc n)) s = ((0, z), s')
    \<and> trace s' = trace s @ [(Kmalloc 4096, 0x1000), (Dma_map_single 0x1000 4096 TO_DEV, 0x2000)]"
  using assms by (simp add: Let_def pcie_device_dma_allocate_buffer_def demo_buf_K_def set_dma_buffer_def)

lemma demo_alloc_run:
  "\<exists>x s'. pcie_ioctl demo_buf_K p en_svm rd wr True True demo_alloc (demo_fresh d) = Some (0, x, s')
    \<and> trace s' = [(Kmalloc 4096, 0x1000), (Dma_map_single 0x1000 4096 TO_DEV, 0x2000)]"
proof -
  let ?y = "\<lparr>ba_size = 4096, ba_from_device = False, ba_buffer_id = 0, ba_addr = 0\<rparr>"
  have "\<exists>z s'. run_state (dma_allocate_loop demo_buf_K ?y 0 (Suc 31)) (demo_fresh d) = ((0, z), s')
    \<and> trace s' = trace (demo_fresh d) @ [(Kmalloc 4096, 0x1000), (Dma_map_single 0x1000 4096 TO_DEV, 0x2000)]"
    by (rule alloc_first) (simp_all add: demo_fresh_def TLKM_PCIE_NUM_DMA_BUFFERS_def zero_dma_buf_def)
  moreover have "TLKM_PCIE_NUM_DMA_BUFFERS = Suc 31" "trace (demo_fresh d) = []"
    by (simp_all add: TLKM_PCIE_NUM_DMA_BUFFERS_def demo_fresh_def)
  ultimately obtain z s' where z: "run_state (pcie_ioctl_dma_buffer_allocate demo_buf_K ?y) (demo_fresh d) = ((0, z), s')"
    "trace s' = [(Kmalloc 4096, 0x1000), (Dma_map_single 0x1000 4096 TO_DEV, 0x2000)]"
    unfolding pcie_ioctl_dma_buffer_allocate_def by (metis append_Nil)
  then show ?thesis by (simp add: pcie_ioctl_def pcie_ioctl_cmd_def demo_alloc_def with_cmd_def)
qed


section \<open>Departures from the intended behaviour\<close>

text \<open>A kernel buffer that is not the first of the list is not freed, although the command reports
  success.\<close>

lemma kernel_buffer_free_first_only:
  assumes "gp_buffer (dat s) = a # b # bs" and "gp_id a \<noteq> op_buffer_id cmd" and "gp_id b = op_buffer_id cmd"
  shows "run_state (pcie_ioctl_kernel_buffer_free K cmd) s = (0, s)"
  using assms by (simp add: pcie_ioctl_kernel_buffer_free_def)

text \<open>A DMA buffer that cannot be mapped is lost: the table does not hold it any more.\<close>

lemma dma_buffer_allocate_leak:
  assumes "pci_live s = Some rs" and "K (trace s) (Kmalloc (buf_size b)) = q" and "q \<noteq> 0"
    and "K (trace s @ [(Kmalloc (buf_size b), q)]) (Dma_map_single q (buf_size b) (direction b)) = - 1"
  shows "\<exists>b' s'. run_state (pcie_device_dma_allocate_buffer K b) s = ((- EFAULT, b'), s') \<and> pci_live s' = Some (add_mset (Buffer q) rs)"
  using assms by (simp add: pcie_device_dma_allocate_buffer_def pci_live_def live_append)

text \<open>A failed mapping of a kernel buffer leaves the error value in the list, which is unmapped later.\<close>

lemma kernel_buffer_map_error_kept:
  assumes "gp_buffer (dat s) = [b]" and "gp_id b = map_buffer_id cmd"
    and "K (trace s) (Dma_map_single (gp_ptr b) (gp_buf_size b) TO_DEV) = - 1"
  shows "\<exists>s'. run_state (pcie_ioctl_kernel_buffer_map K cmd) s = ((- ENOMEM, cmd), s') \<and> gp_dev_addr (hd (gp_buffer (dat s'))) = - 1"
  using assms by (simp add: pcie_ioctl_kernel_buffer_map_def set_dev_addr_def)

text \<open>A kernel buffer is mapped in the direction to the device and unmapped in the other one.\<close>

lemma kernel_map_direction:
  assumes "gp_buffer (dat s) = [b]" and "gp_id b = 1" and "dma_maps K"
  shows "\<exists>h tr. trace (snd (run_state (do { r \<leftarrow> pcie_ioctl_kernel_buffer_map K \<lparr>map_buffer_id = 1, map_dev_addr = 0\<rparr>;
      pcie_ioctl_kernel_buffer_unmap K \<lparr>op_buffer_id = 1\<rparr> }) s))
    = trace s @ [(Dma_map_single (gp_ptr b) (gp_buf_size b) TO_DEV, h), (Dma_unmap_single h (gp_buf_size b) FROM_DEV, tr)]"
  using assms by (simp add: pcie_ioctl_kernel_buffer_map_def pcie_ioctl_kernel_buffer_unmap_def set_dev_addr_def)

end
