(* ===== verification/Tlkm_Dma.thy ===== *)
theory Tlkm_Dma
  imports Pcie_Device
begin

text \<open>
  The DMA engines of the PCIe platform, \<^verbatim>\<open>dma/tlkm_dma.c\<close> and \<^verbatim>\<open>dma/blue_dma.c\<close>: the engine's
  data, the driver of the BlueDMA core (detection, interrupt handlers, starting a transfer),
  initialisation with its error paths, and removal. The transfers are in \<^verbatim>\<open>Dma_Write\<close> and
  \<^verbatim>\<open>Dma_Read\<close>. The counters of chunks, \<^verbatim>\<open>atomic64_t\<close>, are natural numbers here: at 256 KiB per
  chunk they do not reach \<open>2\<^sup>6\<^sup>3\<close>. The device an engine belongs to (\<^verbatim>\<open>dma->dev\<close>) is an argument.
\<close>

section \<open>Data\<close>

definition TLKM_DMA_CHUNK_SZ :: u64 where [tlkm_const]: "TLKM_DMA_CHUNK_SZ = 256 * 1024"
definition TLKM_DMA_CHUNKS :: nat where [tlkm_const]: "TLKM_DMA_CHUNKS = 16"

definition REG_HOST_ADDR :: int where [tlkm_const]: "REG_HOST_ADDR = 0x00"
definition REG_FPGA_ADDR :: int where [tlkm_const]: "REG_FPGA_ADDR = 0x08"
definition REG_BTT :: int where [tlkm_const]: "REG_BTT = 0x10"
definition REG_CMD :: int where [tlkm_const]: "REG_CMD = 0x20"
definition REG_ID :: int where [tlkm_const]: "REG_ID = 0x18"
definition CMD_READ :: u64 where [tlkm_const]: "CMD_READ = 0x10001000"
definition CMD_WRITE :: u64 where [tlkm_const]: "CMD_WRITE = 0x10000001"
definition BLUE_DMA_ID :: u64 where [tlkm_const]: "BLUE_DMA_ID = 0xE5A0023"

text \<open>The table of known engines has one entry.\<close>

datatype dma_operations = Blue_dma

definition tlkm_dma_ops :: "dma_operations list" where
  "tlkm_dma_ops = [Blue_dma]"

text \<open>A buffer of the engine is its pair of entries in the arrays of kernel and bus addresses.\<close>

record dma_engine =
  base :: u64
  regs :: int
  ops :: "dma_operations option"
  rq_enqueued :: nat
  rq_processed :: nat
  wq_enqueued :: nat
  wq_processed :: nat
  wq_requested :: nat
  dma_buf_read :: "dma_buf list"
  dma_buf_write :: "dma_buf list"
  alignment :: int
  dma_ack_register :: int

type_synonym 'r dma_m = "(pci_call, dma_engine, 'r) km"
type_synonym dma_st = "(pci_call, dma_engine) kst"

definition zero_engine :: dma_engine where
  "zero_engine = \<lparr>base = 0, regs = 0, ops = None, rq_enqueued = 0, rq_processed = 0, wq_enqueued = 0,
     wq_processed = 0, wq_requested = 0, dma_buf_read = replicate TLKM_DMA_CHUNKS zero_dma_buf,
     dma_buf_write = replicate TLKM_DMA_CHUNKS zero_dma_buf, alignment = 0, dma_ack_register = 0\<rparr>"

section \<open>BlueDMA\<close>

definition blue_dma_intr_handler_read :: "pci_call kenv \<Rightarrow> unit dma_m" where
  "blue_dma_intr_handler_read K = do {
     modd (\<lambda>e. e\<lparr>rq_processed := rq_processed e + 1\<rparr>);
     ack \<leftarrow> getd dma_ack_register;
     iowrite32 K 0 ack
   }"

definition blue_dma_intr_handler_write :: "pci_call kenv \<Rightarrow> unit dma_m" where
  "blue_dma_intr_handler_write K = do {
     modd (\<lambda>e. e\<lparr>wq_processed := wq_processed e + 1\<rparr>);
     ack \<leftarrow> getd dma_ack_register;
     iowrite32 K 1 ack
   }"

definition blue_dma_init :: "pci_call kenv \<Rightarrow> tlkm_device \<Rightarrow> int dma_m" where
  "blue_dma_init K dev = do {
     r \<leftarrow> getd regs;
     v \<leftarrow> kcall K (Op (Readq (r + REG_ID)));
     let id = (word_of_int v :: u64);
     if id AND 0xFFFFFFFF = BLUE_DMA_ID
     then do {
       modd (\<lambda>e. e\<lparr>alignment := uint (ucast (drop_bit 48 id) :: u8),
         dma_ack_register := uint (m_plat (mmap dev)
           + tlkm_status_get_component_base dev (map of_char ''PLATFORM_COMPONENT_INTC0'') + 0x8120)\<rparr>);
       State_Monad.return 1 }
     else State_Monad.return 0
   }"

text \<open>The registers of the core are written in this order; the command comes last. When a signal
  interrupts the wait for the mutex, the length is returned as if it were a transfer number.\<close>

definition blue_dma_start :: "pci_call kenv \<Rightarrow> u64 \<Rightarrow> u64 \<Rightarrow> u64 \<Rightarrow> u64 \<Rightarrow> unit dma_m" where
  "blue_dma_start K cmd dev_addr handle len = do {
     r \<leftarrow> getd regs;
     kdo K (Op (Writeq dev_addr (r + REG_FPGA_ADDR)));
     kdo K (Op (Writeq handle (r + REG_HOST_ADDR)));
     kdo K (Op (Writeq len (r + REG_BTT)));
     kdo K (Op (Writeq cmd (r + REG_CMD)));
     kdo K (Op Mutex_unlock)
   }"

definition blue_dma_copy_from :: "pci_call kenv \<Rightarrow> u64 \<Rightarrow> u64 \<Rightarrow> u64 \<Rightarrow> nat dma_m" where
  "blue_dma_copy_from K handle dev_addr len = do {
     r \<leftarrow> kcall K (Op Mutex_lock_interruptible);
     if r \<noteq> 0 then State_Monad.return (unat len)
     else do {
       blue_dma_start K CMD_READ dev_addr handle len;
       modd (\<lambda>e. e\<lparr>rq_enqueued := rq_enqueued e + 1\<rparr>);
       getd rq_enqueued }
   }"

definition blue_dma_copy_to :: "pci_call kenv \<Rightarrow> u64 \<Rightarrow> u64 \<Rightarrow> u64 \<Rightarrow> nat dma_m" where
  "blue_dma_copy_to K dev_addr handle len = do {
     r \<leftarrow> kcall K (Op Mutex_lock_interruptible);
     if r \<noteq> 0 then State_Monad.return (unat len)
     else do {
       blue_dma_start K CMD_WRITE dev_addr handle len;
       modd (\<lambda>e. e\<lparr>wq_enqueued := wq_enqueued e + 1\<rparr>);
       getd wq_enqueued }
   }"

section \<open>Initialisation and removal\<close>

text \<open>The loop over the table: an engine is taken when its \<^verbatim>\<open>init\<close> recognises the core.\<close>

fun detect_engine :: "pci_call kenv \<Rightarrow> tlkm_device \<Rightarrow> dma_operations list \<Rightarrow> bool dma_m" where
  "detect_engine K dev [] = State_Monad.return False"
| "detect_engine K dev (Blue_dma # os) = do {
     r \<leftarrow> blue_dma_init K dev;
     if r \<noteq> 0 then do { modd (\<lambda>e. e\<lparr>ops := Some Blue_dma\<rparr>); State_Monad.return True }
     else detect_engine K dev os
   }"

text \<open>The two arrays, by direction.\<close>

definition dma_bufs :: "dma_direction_t \<Rightarrow> dma_engine \<Rightarrow> dma_buf list" where
  "dma_bufs dir e = (case dir of FROM_DEV \<Rightarrow> dma_buf_read e | TO_DEV \<Rightarrow> dma_buf_write e)"

definition set_buf :: "dma_direction_t \<Rightarrow> nat \<Rightarrow> dma_buf \<Rightarrow> dma_engine \<Rightarrow> dma_engine" where
  "set_buf dir i b e = (case dir of FROM_DEV \<Rightarrow> e\<lparr>dma_buf_read := (dma_buf_read e)[i := b]\<rparr>
     | TO_DEV \<Rightarrow> e\<lparr>dma_buf_write := (dma_buf_write e)[i := b]\<rparr>)"

definition chunk_buf :: "dma_direction_t \<Rightarrow> dma_buf \<Rightarrow> dma_buf" where
  "chunk_buf dir b = b\<lparr>buf_size := TLKM_DMA_CHUNK_SZ, direction := dir\<rparr>"

text \<open>Allocation of the buffers from \<open>i\<close> on; result: whether all were allocated, and the index
  reached.\<close>

fun alloc_buffers :: "pci_call kenv \<Rightarrow> dma_direction_t \<Rightarrow> nat \<Rightarrow> nat \<Rightarrow> (bool \<times> nat) dma_m" where
  "alloc_buffers K dir i 0 = State_Monad.return (True, i)"
| "alloc_buffers K dir i (Suc n) = do {
     b \<leftarrow> getd (\<lambda>e. dma_bufs dir e ! i);
     (ret, b') \<leftarrow> pcie_device_dma_allocate_buffer K (chunk_buf dir b);
     modd (set_buf dir i b');
     if ret \<noteq> 0 then State_Monad.return (False, i) else alloc_buffers K dir (Suc i) n
   }"

definition free_buffer_at :: "pci_call kenv \<Rightarrow> dma_direction_t \<Rightarrow> nat \<Rightarrow> unit dma_m" where
  "free_buffer_at K dir i = do {
     b \<leftarrow> getd (\<lambda>e. dma_bufs dir e ! i);
     b' \<leftarrow> pcie_device_dma_free_buffer K (chunk_buf dir b);
     modd (set_buf dir i b')
   }"

fun free_buffers_below :: "pci_call kenv \<Rightarrow> dma_direction_t \<Rightarrow> nat \<Rightarrow> unit dma_m" where
  "free_buffers_below K dir 0 = State_Monad.return ()"
| "free_buffers_below K dir (Suc i) = do { free_buffer_at K dir i; free_buffers_below K dir i }"

definition unmap_engine :: "pci_call kenv \<Rightarrow> int dma_m" where
  "unmap_engine K = do {
     r \<leftarrow> getd regs;
     kdo K (Iounmap r);
     modd (\<lambda>e. e\<lparr>regs := 0\<rparr>);
     State_Monad.return (- ENODEV)
   }"

definition tlkm_dma_init :: "pci_call kenv \<Rightarrow> tlkm_device \<Rightarrow> u64 \<Rightarrow> u64 \<Rightarrow> int dma_m" where
  "tlkm_dma_init K dev dbase dlen = do {
     modd (\<lambda>e. e\<lparr>base := dbase, dma_ack_register := 0, wq_requested := 0, wq_enqueued := 0, wq_processed := 0\<rparr>);
     r \<leftarrow> kcall K (Ioremap dbase dlen);
     modd (\<lambda>e. e\<lparr>regs := r\<rparr>);
     if r \<le> 0 then State_Monad.return (- ENODEV) else do {
     found \<leftarrow> detect_engine K dev tlkm_dma_ops;
     if \<not> found then unmap_engine K else do {
     (ok, i) \<leftarrow> alloc_buffers K FROM_DEV 0 TLKM_DMA_CHUNKS;
     if \<not> ok then do { free_buffers_below K FROM_DEV i; unmap_engine K } else do {
     (ok, i) \<leftarrow> alloc_buffers K TO_DEV 0 TLKM_DMA_CHUNKS;
     if \<not> ok
     then do { free_buffers_below K TO_DEV i; free_buffers_below K FROM_DEV TLKM_DMA_CHUNKS; unmap_engine K }
     else State_Monad.return 0
   }}}}"

fun free_buffer_pairs :: "pci_call kenv \<Rightarrow> nat \<Rightarrow> nat \<Rightarrow> unit dma_m" where
  "free_buffer_pairs K i 0 = State_Monad.return ()"
| "free_buffer_pairs K i (Suc n) = do {
     free_buffer_at K TO_DEV i;
     free_buffer_at K FROM_DEV i;
     free_buffer_pairs K (Suc i) n
   }"

definition tlkm_dma_exit :: "pci_call kenv \<Rightarrow> unit dma_m" where
  "tlkm_dma_exit K = do {
     r \<leftarrow> getd regs;
     if r > 0 then do {
       free_buffer_pairs K 0 TLKM_DMA_CHUNKS;
       kdo K (Iounmap r);
       modd (\<lambda>_. zero_engine) }
     else State_Monad.return ()
   }"

section \<open>Commands as the core sees them\<close>

text \<open>The core takes over the contents of its address and length registers when a command is
  written: the transfers a trace starts, with the registers of the core at \<open>r\<close>.\<close>

record blue_regs =
  r_fpga :: u64
  r_host :: u64
  r_btt :: u64

definition core_step :: "int \<Rightarrow> pci_call \<times> int \<Rightarrow> blue_regs \<times> (u64 \<times> u64 \<times> u64 \<times> u64) list
    \<Rightarrow> blue_regs \<times> (u64 \<times> u64 \<times> u64 \<times> u64) list" where
  "core_step r c bc = (case c of
     (Op (Writeq v a), _) \<Rightarrow>
       (case bc of (b, cs) \<Rightarrow>
          if a = r + REG_FPGA_ADDR then (b\<lparr>r_fpga := v\<rparr>, cs)
          else if a = r + REG_HOST_ADDR then (b\<lparr>r_host := v\<rparr>, cs)
          else if a = r + REG_BTT then (b\<lparr>r_btt := v\<rparr>, cs)
          else if a = r + REG_CMD then (b, cs @ [(v, r_fpga b, r_host b, r_btt b)])
          else (b, cs))
   | _ \<Rightarrow> bc)"

definition core_commands :: "int \<Rightarrow> (pci_call \<times> int) list \<Rightarrow> (u64 \<times> u64 \<times> u64 \<times> u64) list" where
  "core_commands r tr = snd (fold (core_step r) tr (\<lparr>r_fpga = 0, r_host = 0, r_btt = 0\<rparr>, []))"

text \<open>Starting a transfer issues exactly one command, whatever was in the registers before, and counts
  it; a signal during the wait for the mutex issues none.\<close>

lemma blue_dma_copy_to_command:
  assumes "run_state (blue_dma_copy_to K a h n) s = (t, s')"
  shows "core_commands (regs (dat s)) (trace s') = core_commands (regs (dat s)) (trace s) @
      (if K (trace s) (Op Mutex_lock_interruptible) = 0 then [(CMD_WRITE, a, h, n)] else [])
    \<and> wq_enqueued (dat s') = wq_enqueued (dat s) + (if K (trace s) (Op Mutex_lock_interruptible) = 0 then 1 else 0)"
  using assms
  by (cases "fold (core_step (regs (dat s))) (trace s) (\<lparr>r_fpga = 0, r_host = 0, r_btt = 0\<rparr>, [])")
    (auto simp: blue_dma_copy_to_def blue_dma_start_def core_commands_def core_step_def tlkm_const split_beta Let_def
      split: prod.splits if_splits)

lemma blue_dma_copy_from_command:
  assumes "run_state (blue_dma_copy_from K h a n) s = (t, s')"
  shows "core_commands (regs (dat s)) (trace s') = core_commands (regs (dat s)) (trace s) @
      (if K (trace s) (Op Mutex_lock_interruptible) = 0 then [(CMD_READ, a, h, n)] else [])
    \<and> t = (if K (trace s) (Op Mutex_lock_interruptible) = 0 then rq_enqueued (dat s) + 1 else unat n)"
  using assms
  by (cases "fold (core_step (regs (dat s))) (trace s) (\<lparr>r_fpga = 0, r_host = 0, r_btt = 0\<rparr>, [])")
    (auto simp: blue_dma_copy_from_def blue_dma_start_def core_commands_def core_step_def tlkm_const split_beta Let_def
      split: prod.splits if_splits)

section \<open>Resources of an engine\<close>

text \<open>Held after the first \<open>i\<close> buffers of a direction were allocated.\<close>

definition held_below :: "dma_direction_t \<Rightarrow> nat \<Rightarrow> dma_engine \<Rightarrow> pci_resource multiset" where
  "held_below dir i e = sum_list (map (\<lambda>b. dma_res (chunk_buf dir b)) (take i (dma_bufs dir e)))"

definition engine_ok :: "dma_engine \<Rightarrow> bool" where
  "engine_ok e \<longleftrightarrow> length (dma_buf_read e) = TLKM_DMA_CHUNKS \<and> length (dma_buf_write e) = TLKM_DMA_CHUNKS"

definition allocated :: "dma_direction_t \<Rightarrow> nat \<Rightarrow> dma_engine \<Rightarrow> bool" where
  "allocated dir i e \<longleftrightarrow> (\<forall>j < i. dma_ok (dma_bufs dir e ! j))"

lemma dma_bufs_set [simp]:
  "dma_bufs dir (set_buf dir i b e) = (dma_bufs dir e)[i := b]"
  "dir \<noteq> dir' \<Longrightarrow> dma_bufs dir (set_buf dir' i b e) = dma_bufs dir e"
  "regs (set_buf dir i b e) = regs e"
  by (cases dir; cases dir'; simp add: dma_bufs_def set_buf_def)+

lemma engine_ok_set [simp]: "engine_ok (set_buf dir i b e) = engine_ok e"
  by (cases dir) (simp_all add: engine_ok_def set_buf_def)

lemma engine_ok_length [simp]: "engine_ok e \<Longrightarrow> length (dma_bufs dir e) = TLKM_DMA_CHUNKS"
  by (cases dir) (simp_all add: engine_ok_def dma_bufs_def)

lemma chunk_buf_simps [simp]:
  "buf_size (chunk_buf dir b) = TLKM_DMA_CHUNK_SZ" "direction (chunk_buf dir b) = dir"
  "dma_ok (chunk_buf dir b) = dma_ok b"
  by (simp_all add: chunk_buf_def dma_ok_def)

lemma chunk_buf_id: "buf_size b = TLKM_DMA_CHUNK_SZ \<Longrightarrow> direction b = dir \<Longrightarrow> chunk_buf dir b = b"
  by (simp add: chunk_buf_def)

lemma held_below_Suc:
  assumes "i < length (dma_bufs dir e)"
  shows "held_below dir (Suc i) e = held_below dir i e + dma_res (chunk_buf dir (dma_bufs dir e ! i))"
  using assms by (simp add: held_below_def take_Suc_conv_app_nth)

lemma held_below_0 [simp]: "held_below dir 0 e = {#}"
  by (simp add: held_below_def)

lemma held_below_set [simp]:
  "i \<le> j \<Longrightarrow> held_below dir i (set_buf dir j b e) = held_below dir i e"
  "dir \<noteq> dir' \<Longrightarrow> held_below dir i (set_buf dir' j b e) = held_below dir i e"
  by (simp_all add: held_below_def)

lemma allocated_set [simp]:
  "i \<le> j \<Longrightarrow> allocated dir i (set_buf dir j b e) = allocated dir i e"
  "dir \<noteq> dir' \<Longrightarrow> allocated dir i (set_buf dir' j b e) = allocated dir i e"
  by (auto simp: allocated_def)

text \<open>One direction is worked on while \<open>rs\<close>, the rest, stays.\<close>

definition dir_inv :: "dma_direction_t \<Rightarrow> nat \<Rightarrow> pci_resource multiset \<Rightarrow> dma_st \<Rightarrow> bool" where
  "dir_inv dir i rs s \<longleftrightarrow> pci_live s = Some (held_below dir i (dat s) + rs) \<and> engine_ok (dat s) \<and> allocated dir i (dat s)"

text \<open>What the work on one direction leaves alone.\<close>

definition same_other :: "dma_direction_t \<Rightarrow> dma_engine \<Rightarrow> dma_engine \<Rightarrow> bool" where
  "same_other dir e e' \<longleftrightarrow> regs e' = regs e \<and> (\<forall>d. d \<noteq> dir \<longrightarrow> dma_bufs d e' = dma_bufs d e)"

lemma same_other_refl [simp]: "same_other dir e e"
  by (simp add: same_other_def)

lemma same_other_trans: "same_other dir a b \<Longrightarrow> same_other dir b c \<Longrightarrow> same_other dir a c"
  by (simp add: same_other_def)

lemma same_other_set [simp]: "same_other dir e (set_buf dir i b e)"
  by (auto simp: same_other_def)

lemma alloc_buffers_run:
  assumes "dma_maps K" and "dir_inv dir i rs s" and "i + n \<le> TLKM_DMA_CHUNKS"
    and "run_state (alloc_buffers K dir i n) s = ((ok, k), s')"
  shows "dir_inv dir k rs s' \<and> same_other dir (dat s) (dat s') \<and> k \<le> TLKM_DMA_CHUNKS \<and> (ok \<longrightarrow> k = i + n)"
  using assms(2-4)
proof (induction n arbitrary: i s)
  case (Suc n)
  define b where "b = chunk_buf dir (dma_bufs dir (dat s) ! i)"
  obtain e b' s1 where a: "run_state (pcie_device_dma_allocate_buffer K b) s = ((e, b'), s1)" by (metis surj_pair)
  define s2 where "s2 = s1\<lparr>dat := set_buf dir i b' (dat s1)\<rparr>"
  have inv: "pci_live s = Some (held_below dir i (dat s) + rs)" "engine_ok (dat s)" "allocated dir i (dat s)"
    using Suc.prems(1) by (simp_all add: dir_inv_def)
  note al = alloc_run [OF assms(1) inv(1) a]
  have d2: "dat s2 = set_buf dir i b' (dat s)" and l2: "pci_live s2 = pci_live s1"
    using al by (simp_all add: s2_def pci_live_def)
  have run: "(if e \<noteq> 0 then ((False, i), s2) else run_state (alloc_buffers K dir (Suc i) n) s2) = ((ok, k), s')"
    using Suc.prems(3) a by (cases "e = 0") (auto simp: b_def s2_def)
  have i: "i < length (dma_bufs dir (dat s))" using Suc.prems(2) inv by simp
  show ?case
  proof (cases "e = 0")
    case False
    then show ?thesis using run al inv d2 l2 Suc.prems(2) by (auto simp: dir_inv_def)
  next
    case True
    then have "chunk_buf dir b' = b'" using al by (auto simp: b_def intro: chunk_buf_id)
    then have "dir_inv dir (Suc i) rs s2"
      using al True inv d2 l2 i held_below_Suc [of i dir "dat s2"]
      by (auto simp: dir_inv_def allocated_def less_Suc_eq nth_list_update)
    from Suc.IH [OF this] have "dir_inv dir k rs s' \<and> same_other dir (dat s2) (dat s')
        \<and> k \<le> TLKM_DMA_CHUNKS \<and> (ok \<longrightarrow> k = Suc i + n)"
      using run True Suc.prems(2) by simp
    then show ?thesis using same_other_trans [of dir "dat s" "dat s2"] by (auto simp: d2)
  qed
qed (auto simp: dir_inv_def)

text \<open>Freeing the last buffer that is allocated.\<close>

lemma free_buffer_at_run:
  assumes "pci_live s = Some (dma_res (chunk_buf dir (dma_bufs dir (dat s) ! i)) + rs)" and "dma_ok (dma_bufs dir (dat s) ! i)"
    and "run_state (free_buffer_at K dir i) s = (u, s')"
  shows "pci_live s' = Some rs \<and> (\<exists>b. dat s' = set_buf dir i b (dat s))"
proof -
  define b where "b = chunk_buf dir (dma_bufs dir (dat s) ! i)"
  obtain b' s1 where f: "run_state (pcie_device_dma_free_buffer K b) s = (b', s1)" by (metis surj_pair)
  have "dat s1 = dat s \<and> pci_live s1 = Some rs" using free_run [OF _ _ f, of rs] assms(1,2) by (simp add: b_def)
  then show ?thesis using assms(3) f by (auto simp: free_buffer_at_def b_def pci_live_def)
qed

lemma free_buffers_below_run:
  assumes "dir_inv dir i rs s" and "i \<le> TLKM_DMA_CHUNKS"
    and "run_state (free_buffers_below K dir i) s = (u, s')"
  shows "dir_inv dir 0 rs s' \<and> same_other dir (dat s) (dat s')"
  using assms
proof (induction i arbitrary: s)
  case (Suc i)
  obtain v s1 where f: "run_state (free_buffer_at K dir i) s = (v, s1)" by (metis surj_pair)
  have i: "i < length (dma_bufs dir (dat s))" using Suc.prems(1,2) by (simp add: dir_inv_def)
  have "pci_live s = Some (dma_res (chunk_buf dir (dma_bufs dir (dat s) ! i)) + (held_below dir i (dat s) + rs))"
    using Suc.prems(1) held_below_Suc [OF i] by (simp add: dir_inv_def ac_simps)
  then obtain b where d1: "dat s1 = set_buf dir i b (dat s)" and "pci_live s1 = Some (held_below dir i (dat s) + rs)"
    using free_buffer_at_run [OF _ _ f] Suc.prems(1) by (auto simp: dir_inv_def allocated_def)
  then have "dir_inv dir i rs s1" using Suc.prems(1) by (auto simp: dir_inv_def allocated_def)
  then have "dir_inv dir 0 rs s' \<and> same_other dir (dat s1) (dat s')"
    using Suc.IH [of s1] Suc.prems(2,3) f by simp
  then show ?case using same_other_trans [of dir "dat s" "dat s1"] by (simp add: d1)
qed simp

text \<open>Removal frees the two directions pairwise, from the front.\<close>

definition held_from :: "dma_direction_t \<Rightarrow> nat \<Rightarrow> dma_engine \<Rightarrow> pci_resource multiset" where
  "held_from dir i e = sum_list (map (\<lambda>b. dma_res (chunk_buf dir b)) (drop i (dma_bufs dir e)))"

lemma held_from_Suc:
  assumes "i < length (dma_bufs dir e)"
  shows "held_from dir i e = dma_res (chunk_buf dir (dma_bufs dir e ! i)) + held_from dir (Suc i) e"
  using assms by (simp add: held_from_def flip: Cons_nth_drop_Suc)

lemma held_from_set [simp]:
  "j < i \<Longrightarrow> held_from dir i (set_buf dir j b e) = held_from dir i e"
  "dir \<noteq> dir' \<Longrightarrow> held_from dir i (set_buf dir' j b e) = held_from dir i e"
  by (simp_all add: held_from_def)

lemma held_below_all: "engine_ok e \<Longrightarrow> held_below dir TLKM_DMA_CHUNKS e = held_from dir 0 e"
  by (simp add: held_below_def held_from_def)

lemma free_buffer_pairs_run:
  assumes "pci_live s = Some (held_from TO_DEV i (dat s) + (held_from FROM_DEV i (dat s) + rs))" and "engine_ok (dat s)"
    and "\<forall>dir. allocated dir TLKM_DMA_CHUNKS (dat s)" and "i + n = TLKM_DMA_CHUNKS"
    and "run_state (free_buffer_pairs K i n) s = (u, s')"
  shows "pci_live s' = Some rs"
proof -
  have "\<forall>j dir. i \<le> j \<longrightarrow> j < TLKM_DMA_CHUNKS \<longrightarrow> dma_ok (dma_bufs dir (dat s) ! j)"
    using assms(3) by (simp add: allocated_def)
  then show ?thesis using assms(1,2,4,5)
  proof (induction n arbitrary: i s)
    case 0
    then show ?case by (simp add: held_from_def)
  next
    case (Suc n)
    obtain v s1 where f: "run_state (free_buffer_at K TO_DEV i) s = (v, s1)" by (metis surj_pair)
    obtain w s2 where g: "run_state (free_buffer_at K FROM_DEV i) s1 = (w, s2)" by (metis surj_pair)
    have i: "i < length (dma_bufs dir (dat s))" for dir using Suc.prems by simp
    have ok: "dma_ok (dma_bufs dir (dat s) ! i)" for dir using Suc.prems(1,4) by simp
    have "pci_live s = Some (dma_res (chunk_buf TO_DEV (dma_bufs TO_DEV (dat s) ! i))
        + (held_from TO_DEV (Suc i) (dat s) + (held_from FROM_DEV i (dat s) + rs)))"
      using Suc.prems(2) held_from_Suc [OF i, of TO_DEV] by (simp add: ac_simps)
    then obtain b where d1: "dat s1 = set_buf TO_DEV i b (dat s)"
      and l1: "pci_live s1 = Some (held_from TO_DEV (Suc i) (dat s) + (held_from FROM_DEV i (dat s) + rs))"
      using free_buffer_at_run [OF _ ok f] by auto
    have "pci_live s1 = Some (dma_res (chunk_buf FROM_DEV (dma_bufs FROM_DEV (dat s1) ! i))
        + (held_from TO_DEV (Suc i) (dat s) + (held_from FROM_DEV (Suc i) (dat s) + rs)))"
      using l1 held_from_Suc [OF i, of FROM_DEV] by (simp add: d1 ac_simps)
    then obtain c where d2: "dat s2 = set_buf FROM_DEV i c (dat s1)"
      and l2: "pci_live s2 = Some (held_from TO_DEV (Suc i) (dat s2) + (held_from FROM_DEV (Suc i) (dat s2) + rs))"
      using free_buffer_at_run [OF _ _ g] ok by (auto simp: d1)
    have keep: "dma_bufs dir (dat s2) ! j = dma_bufs dir (dat s) ! j" if "Suc i \<le> j" for dir j
      using that by (cases dir) (auto simp: d1 d2)
    have "\<forall>j dir. Suc i \<le> j \<longrightarrow> j < TLKM_DMA_CHUNKS \<longrightarrow> dma_ok (dma_bufs dir (dat s2) ! j)"
      using Suc.prems(1) keep by simp
    moreover have "engine_ok (dat s2)" using Suc.prems(3) by (simp add: d1 d2)
    ultimately show ?case using Suc.IH [OF _ l2] Suc.prems(4,5) f g by simp
  qed
qed

lemma pci_live_op: "pci_live (s\<lparr>trace := trace s @ [(Op x, r)]\<rparr>) = pci_live s"
  by (simp add: pci_live_def live_append split: option.split)

lemma pci_live_dat [simp]: "pci_live (s\<lparr>dat := d\<rparr>) = pci_live s"
  by (simp add: pci_live_def)

lemma blue_dma_init_run:
  assumes "run_state (blue_dma_init K dev) s = (r, s')"
  shows "pci_live s' = pci_live s \<and> (\<exists>a k. dat s' = (dat s)\<lparr>alignment := a, dma_ack_register := k\<rparr>)"
proof -
  let ?x = "Op (Readq (regs (dat s) + REG_ID))"
  let ?s = "s\<lparr>trace := trace s @ [(?x, K (trace s) ?x)]\<rparr>"
  have "s' = ?s \<or> (\<exists>a k. s' = ?s\<lparr>dat := (dat s)\<lparr>alignment := a, dma_ack_register := k\<rparr>\<rparr>)"
    using assms by (auto simp: blue_dma_init_def Let_def split: if_splits)
  then show ?thesis
  proof
    assume "s' = ?s"
    then have "dat s' = (dat s)\<lparr>alignment := alignment (dat s), dma_ack_register := dma_ack_register (dat s)\<rparr>" by simp
    then show ?thesis using \<open>s' = ?s\<close> by (metis pci_live_op)
  next
    assume "\<exists>a k. s' = ?s\<lparr>dat := (dat s)\<lparr>alignment := a, dma_ack_register := k\<rparr>\<rparr>"
    then obtain a k where s': "s' = ?s\<lparr>dat := (dat s)\<lparr>alignment := a, dma_ack_register := k\<rparr>\<rparr>" by auto
    then have "dat s' = (dat s)\<lparr>alignment := a, dma_ack_register := k\<rparr>" by simp
    moreover have "pci_live s' = pci_live s" by (simp add: s' pci_live_op)
    ultimately show ?thesis by blast
  qed
qed

lemma detect_engine_run:
  assumes "run_state (detect_engine K dev tlkm_dma_ops) s = (f, s')"
  shows "pci_live s' = pci_live s \<and> regs (dat s') = regs (dat s) \<and> dma_bufs dir (dat s') = dma_bufs dir (dat s)
    \<and> (engine_ok (dat s') = engine_ok (dat s)) \<and> (f \<longrightarrow> ops (dat s') = Some Blue_dma)"
proof -
  obtain r s1 where b: "run_state (blue_dma_init K dev) s = (r, s1)" by (metis surj_pair)
  obtain a k where d: "dat s1 = (dat s)\<lparr>alignment := a, dma_ack_register := k\<rparr>" and "pci_live s1 = pci_live s"
    using blue_dma_init_run [OF b] by auto
  moreover have "f = (r \<noteq> 0) \<and> s' = (if r \<noteq> 0 then s1\<lparr>dat := (dat s1)\<lparr>ops := Some Blue_dma\<rparr>\<rparr> else s1)"
    using assms b by (simp add: tlkm_dma_ops_def split: if_splits)
  ultimately show ?thesis by (cases dir) (auto simp: dma_bufs_def engine_ok_def)
qed

section \<open>Initialisation is all or nothing\<close>

text \<open>\<^verbatim>\<open>ioremap\<close> reports failure by \<^verbatim>\<open>NULL\<close>.\<close>

definition ioremap_null :: "pci_call kenv \<Rightarrow> bool" where
  "ioremap_null K \<longleftrightarrow> (\<forall>tr a n. 0 \<le> K tr (Ioremap a n))"

definition engine_held :: "dma_engine \<Rightarrow> pci_resource multiset" where
  "engine_held e = add_mset (Iomap (regs e)) (held_from TO_DEV 0 e + held_from FROM_DEV 0 e)"

lemma unmap_engine_run:
  assumes "pci_live s = Some (add_mset (Iomap (regs (dat s))) rs)" and "run_state (unmap_engine K) s = (r, s')"
  shows "r = - ENODEV \<and> pci_live s' = Some rs \<and> regs (dat s') = 0"
  using assms by (auto simp: unmap_engine_def pci_live_def live_append)

lemma engine_buffers_run:
  assumes K: "dma_maps K" and inv: "pci_live s = Some (add_mset (Iomap (regs (dat s))) rs)" "engine_ok (dat s)"
    and run: "run_state (do {
       (ok, i) \<leftarrow> alloc_buffers K FROM_DEV 0 TLKM_DMA_CHUNKS;
       if \<not> ok then do { free_buffers_below K FROM_DEV i; unmap_engine K } else do {
       (ok, i) \<leftarrow> alloc_buffers K TO_DEV 0 TLKM_DMA_CHUNKS;
       if \<not> ok
       then do { free_buffers_below K TO_DEV i; free_buffers_below K FROM_DEV TLKM_DMA_CHUNKS; unmap_engine K }
       else State_Monad.return 0 }}) s = (r, s')"
  shows "if r = 0 then pci_live s' = Some (engine_held (dat s') + rs) \<and> regs (dat s') = regs (dat s) \<and> engine_ok (dat s')
        \<and> (\<forall>dir. allocated dir TLKM_DMA_CHUNKS (dat s'))
      else r = - ENODEV \<and> pci_live s' = Some rs \<and> regs (dat s') = 0"
proof -
  let ?io = "add_mset (Iomap (regs (dat s))) rs"
  obtain ok1 i s1 where a1: "run_state (alloc_buffers K FROM_DEV 0 TLKM_DMA_CHUNKS) s = ((ok1, i), s1)" by (metis surj_pair)
  have "dir_inv FROM_DEV 0 ?io s" using inv by (simp add: dir_inv_def allocated_def)
  from alloc_buffers_run [OF K this _ a1]
  have d1: "dir_inv FROM_DEV i ?io s1" "regs (dat s1) = regs (dat s)" "i \<le> TLKM_DMA_CHUNKS" "ok1 \<longrightarrow> i = TLKM_DMA_CHUNKS"
    by (simp_all add: same_other_def)
  show ?thesis
  proof (cases ok1)
    case False
    obtain u s2 where f: "run_state (free_buffers_below K FROM_DEV i) s1 = (u, s2)" by (metis surj_pair)
    have l: "pci_live s2 = Some (add_mset (Iomap (regs (dat s2))) rs)"
      using free_buffers_below_run [OF d1(1,3) f] d1(2) by (simp add: dir_inv_def same_other_def)
    have "run_state (unmap_engine K) s2 = (r, s')" using run a1 False f by simp
    from unmap_engine_run [OF l this] show ?thesis by (simp add: ENODEV_def)
  next
    case True
    let ?rd = "held_below FROM_DEV TLKM_DMA_CHUNKS (dat s1)"
    obtain ok2 j s2 where a2: "run_state (alloc_buffers K TO_DEV 0 TLKM_DMA_CHUNKS) s1 = ((ok2, j), s2)" by (metis surj_pair)
    have "dir_inv TO_DEV 0 (?rd + ?io) s1" using d1 True by (simp add: dir_inv_def allocated_def)
    from alloc_buffers_run [OF K this _ a2]
    have d2: "dir_inv TO_DEV j (?rd + ?io) s2" "same_other TO_DEV (dat s1) (dat s2)"
      "j \<le> TLKM_DMA_CHUNKS" "ok2 \<longrightarrow> j = TLKM_DMA_CHUNKS" by simp_all
    have rd: "held_below FROM_DEV k (dat s2) = held_below FROM_DEV k (dat s1)" "allocated FROM_DEV k (dat s2) = allocated FROM_DEV k (dat s1)" for k
      using d2(2) by (simp_all add: same_other_def held_below_def allocated_def)
    show ?thesis
    proof (cases ok2)
      case ok: True
      then have "r = 0" "s' = s2" using run a1 a2 True by simp_all
      moreover have "\<forall>dir. allocated dir TLKM_DMA_CHUNKS (dat s2)"
        using d1 d2 ok True rd by (intro allI, case_tac dir) (simp_all add: dir_inv_def)
      moreover have eok: "engine_ok (dat s2)" using d2(1) by (simp add: dir_inv_def)
      moreover have "pci_live s2 = Some (held_from TO_DEV 0 (dat s2) + (held_from FROM_DEV 0 (dat s2) + ?io))"
        using d2(1,4) ok rd(1) [of TLKM_DMA_CHUNKS] held_below_all [OF eok] by (simp add: dir_inv_def)
      moreover have "regs (dat s2) = regs (dat s)" using d1(2) d2(2) by (simp add: same_other_def)
      ultimately show ?thesis by (simp add: engine_held_def ac_simps)
    next
      case False
      obtain u s3 where f: "run_state (free_buffers_below K TO_DEV j) s2 = (u, s3)" by (metis surj_pair)
      obtain v s4 where g: "run_state (free_buffers_below K FROM_DEV TLKM_DMA_CHUNKS) s3 = (v, s4)" by (metis surj_pair)
      have d3: "dir_inv TO_DEV 0 (?rd + ?io) s3" "same_other TO_DEV (dat s2) (dat s3)"
        using free_buffers_below_run [OF d2(1,3) f] by simp_all
      have "dir_inv FROM_DEV TLKM_DMA_CHUNKS ?io s3"
        using d1 True d2(2) d3 by (auto simp: dir_inv_def same_other_def held_below_def allocated_def)
      from free_buffers_below_run [OF this _ g]
      have l: "pci_live s4 = Some (add_mset (Iomap (regs (dat s4))) rs)"
        using d1(2) d2(2) d3(2) by (simp add: dir_inv_def same_other_def)
      have "run_state (unmap_engine K) s4 = (r, s')" using run a1 a2 True False f g by simp
      from unmap_engine_run [OF l this] show ?thesis by (simp add: ENODEV_def)
    qed
  qed
qed

lemma tlkm_dma_init_run:
  assumes K: "dma_maps K" "ioremap_null K" and inv: "pci_live s = Some rs" "engine_ok (dat s)"
    and run: "run_state (tlkm_dma_init K dev b l) s = (r, s')"
  shows "if r = 0 then pci_live s' = Some (engine_held (dat s') + rs) \<and> 0 < regs (dat s') \<and> engine_ok (dat s')
        \<and> (\<forall>dir. allocated dir TLKM_DMA_CHUNKS (dat s'))
      else r = - ENODEV \<and> pci_live s' = Some rs \<and> regs (dat s') = 0"
proof -
  define p where "p = K (trace s) (Ioremap b l)"
  define s1 where "s1 = s\<lparr>trace := trace s @ [(Ioremap b l, p)], dat := (dat s)\<lparr>base := b, dma_ack_register := 0,
    wq_requested := 0, wq_enqueued := 0, wq_processed := 0, regs := p\<rparr>\<rparr>"
  have p: "0 \<le> p" using K(2) by (simp add: ioremap_null_def p_def)
  have ok1: "engine_ok (dat s1)" and r1: "regs (dat s1) = p" using inv(2) by (simp_all add: s1_def engine_ok_def)
  obtain f s2 where f: "run_state (detect_engine K dev tlkm_dma_ops) s1 = (f, s2)" by (metis surj_pair)
  note det = detect_engine_run [OF f]
  show ?thesis
  proof (cases "p = 0")
    case True
    then show ?thesis using run inv
      by (auto simp: tlkm_dma_init_def pci_live_def live_append ENODEV_def p_def)
  next
    case False
    have l2: "pci_live s2 = Some (add_mset (Iomap (regs (dat s2))) rs)"
      using det inv(1) False r1 by (simp add: s1_def pci_live_def live_append)
    show ?thesis
    proof (cases f)
      case True
      from engine_buffers_run [OF K(1) l2] show ?thesis
        using run f True False p det ok1 r1 by (simp add: tlkm_dma_init_def p_def [symmetric] s1_def split: if_splits)
    next
      case f2: False
      have "run_state (unmap_engine K) s2 = (r, s')"
        using run f f2 False p by (simp add: tlkm_dma_init_def p_def [symmetric] s1_def)
      from unmap_engine_run [OF l2 this] show ?thesis by (simp add: ENODEV_def)
    qed
  qed
qed


definition demo_dma_K :: "pci_call kenv" where
  "demo_dma_K tr c = (case c of
     Ioremap a n \<Rightarrow> 4096 | Kmalloc n \<Rightarrow> 8192 + int (length tr) | Dma_map_single q n d \<Rightarrow> 65536 + int (length tr)
   | Op op \<Rightarrow> (case op of Readq a \<Rightarrow> 0x4010100E5A0023 | _ \<Rightarrow> 0) | _ \<Rightarrow> 0)"

definition demo_dma_st :: dma_st where
  "demo_dma_st = \<lparr>trace = [], dat = zero_engine\<rparr>"


end
