(* ===== verification/Dma_Write.thy ===== *)
theory Dma_Write
  imports Tlkm_Dma
begin

text \<open>
  Transfers to the device: \<^verbatim>\<open>tlkm_dma_copy_to\<close>, called by any number of processes at the same
  time, and the core that works on their commands. Each call cuts the data into chunks of
  256 KiB; a chunk gets a number (\<^verbatim>\<open>wq_requested\<close>), waits for the buffer of that number modulo 16 to
  be free (\<^verbatim>\<open>wq_processed\<close>), copies the user's data there, and is handed to the core in the order
  of the numbers (\<^verbatim>\<open>wq_enqueued\<close>). The step relation has one step per access to the shared
  counters, to a buffer or to the core; a wait is a step that is possible once its condition
  holds. The error paths (a signal during a wait, data that cannot be read) are steps as well;
  they are possible if the environment says so.
\<close>

section \<open>Calls, buffers, core\<close>

text \<open>The variables of a call of \<^verbatim>\<open>tlkm_dma_copy_to\<close>.\<close>

record wlocal =
  w_dev :: u64     \<comment> \<open>\<^verbatim>\<open>dev_addr\<close>\<close>
  w_usr :: u64     \<comment> \<open>\<^verbatim>\<open>usr_addr\<close>\<close>
  w_len :: u64     \<comment> \<open>\<^verbatim>\<open>len\<close>\<close>
  w_chunk :: nat   \<comment> \<open>\<^verbatim>\<open>last_chunk\<close>\<close>
  w_sz :: u64      \<comment> \<open>\<^verbatim>\<open>cpy_sz\<close>\<close>

text \<open>Where a call is; the number in the last three is its error code or result.\<close>

datatype wpc =
    Entry | Top | Wait_slot | Fill | Sync | Wait_enq | Issue | Count | Wait_last
  | Err_enq int | Err_proc int | Done int

text \<open>A buffer has two views, the processor's (by number) and the device's (by bus address);
  \<^verbatim>\<open>buffer_dev\<close> brings the second up to date. \<open>hwq\<close> are the commands the core has not completed, \<open>written\<close>
  the writes to device memory in their order.\<close>

record 't wsys =
  requested :: nat
  enqueued :: nat
  processed :: nat
  cbuf :: "nat \<Rightarrow> u8 list"
  dbuf :: "u64 \<Rightarrow> u8 list"
  hwq :: "(u64 \<times> u64 \<times> u64) list"
  written :: "(u64 \<times> u8 list) list"
  pcs :: "'t \<Rightarrow> wpc"
  locs :: "'t \<Rightarrow> wlocal"

text \<open>The environment: the memory of the processes, the bus addresses of the buffers
  (\<^verbatim>\<open>dma_buf_write_dev\<close>), the alignment the core requires, and whether signals arrive and user memory
  can be unreadable.\<close>

record 't wenv =
  user :: "'t \<Rightarrow> u64 \<Rightarrow> u8"
  handles :: "nat \<Rightarrow> u64"
  align :: u64
  signals :: bool
  faults :: bool

definition user_data :: "(u64 \<Rightarrow> u8) \<Rightarrow> u64 \<Rightarrow> u64 \<Rightarrow> u8 list" where
  "user_data um a n = map (\<lambda>i. um (a + word_of_nat i)) [0..<unat n]"

definition cpy_size :: "u64 \<Rightarrow> u64" where
  "cpy_size n = (if n < TLKM_DMA_CHUNK_SZ then n else TLKM_DMA_CHUNK_SZ)"

definition slot :: "wlocal \<Rightarrow> nat" where
  "slot l = w_chunk l mod TLKM_DMA_CHUNKS"

definition goto :: "'t \<Rightarrow> wpc \<Rightarrow> 't wsys \<Rightarrow> 't wsys" where
  "goto t p s = s\<lparr>pcs := (pcs s)(t := p)\<rparr>"

definition advance_chunk :: "wlocal \<Rightarrow> wlocal" where
  "advance_chunk l = l\<lparr>w_usr := w_usr l + w_sz l, w_dev := w_dev l + w_sz l, w_len := w_len l - w_sz l\<rparr>"

definition set_loc :: "'t \<Rightarrow> wlocal \<Rightarrow> 't wsys \<Rightarrow> 't wsys" where
  "set_loc t l s = s\<lparr>locs := (locs s)(t := l)\<rparr>"

inductive dma_step :: "'t wenv \<Rightarrow> 't wsys \<Rightarrow> 't wsys \<Rightarrow> bool" for E where
  misaligned: "pcs s t = Entry \<Longrightarrow> align E \<noteq> 0 \<Longrightarrow> w_dev (locs s t) mod align E \<noteq> 0 \<Longrightarrow>
    dma_step E s (goto t (Done (- EAGAIN)) s)"
| aligned: "pcs s t = Entry \<Longrightarrow> align E \<noteq> 0 \<Longrightarrow> w_dev (locs s t) mod align E = 0 \<Longrightarrow>
    dma_step E s (goto t Top s)"
| request: "pcs s t = Top \<Longrightarrow> w_len (locs s t) > 0 \<Longrightarrow>
    dma_step E s (goto t Wait_slot (set_loc t
      ((locs s t)\<lparr>w_chunk := requested s, w_sz := cpy_size (w_len (locs s t))\<rparr>) (s\<lparr>requested := requested s + 1\<rparr>)))"
| sent_all: "pcs s t = Top \<Longrightarrow> w_len (locs s t) = 0 \<Longrightarrow> dma_step E s (goto t Wait_last s)"
| slot_free: "pcs s t = Wait_slot \<Longrightarrow> processed s + TLKM_DMA_CHUNKS > w_chunk (locs s t) \<Longrightarrow>
    dma_step E s (goto t Fill s)"
| slot_killed: "pcs s t = Wait_slot \<Longrightarrow> signals E \<Longrightarrow> dma_step E s (goto t (Err_enq (- EACCES)) s)"
| copied: "pcs s t = Fill \<Longrightarrow>
    dma_step E s (goto t Sync (s\<lparr>cbuf := (cbuf s)(slot (locs s t) :=
      user_data (user E t) (w_usr (locs s t)) (w_sz (locs s t)))\<rparr>))"
| copy_failed: "pcs s t = Fill \<Longrightarrow> faults E \<Longrightarrow> dma_step E s (goto t (Err_enq (- EAGAIN)) s)"
| synced: "pcs s t = Sync \<Longrightarrow>
    dma_step E s (goto t Wait_enq (s\<lparr>dbuf := (dbuf s)(handles E (slot (locs s t)) :=
      take (unat (w_sz (locs s t))) (cbuf s (slot (locs s t))))\<rparr>))"
| my_turn: "pcs s t = Wait_enq \<Longrightarrow> enqueued s = w_chunk (locs s t) \<Longrightarrow> dma_step E s (goto t Issue s)"
| turn_killed: "pcs s t = Wait_enq \<Longrightarrow> signals E \<Longrightarrow> dma_step E s (goto t (Err_enq (- EACCES)) s)"
| issued: "pcs s t = Issue \<Longrightarrow>
    dma_step E s (goto t Count (s\<lparr>hwq := hwq s @
      [(w_dev (locs s t), handles E (slot (locs s t)), w_sz (locs s t))]\<rparr>))"
| issue_killed: "pcs s t = Issue \<Longrightarrow> signals E \<Longrightarrow>
    dma_step E s (goto t Top (set_loc t (advance_chunk (locs s t)) s))"
| counted: "pcs s t = Count \<Longrightarrow>
    dma_step E s (goto t Top (set_loc t (advance_chunk (locs s t)) (s\<lparr>enqueued := enqueued s + 1\<rparr>)))"
| completed: "pcs s t = Wait_last \<Longrightarrow> processed s > w_chunk (locs s t) \<Longrightarrow>
    dma_step E s (goto t (Done (uint (w_len (locs s t)))) s)"
| last_killed: "pcs s t = Wait_last \<Longrightarrow> signals E \<Longrightarrow> dma_step E s (goto t (Done (- EACCES)) s)"
| err_enqueue: "pcs s t = Err_enq e \<Longrightarrow> signals E \<or> enqueued s = w_chunk (locs s t) \<Longrightarrow>
    dma_step E s (goto t (Err_proc e) (s\<lparr>enqueued := enqueued s + 1\<rparr>))"
| err_process: "pcs s t = Err_proc e \<Longrightarrow> signals E \<or> processed s = w_chunk (locs s t) \<Longrightarrow>
    dma_step E s (goto t (Done e) (s\<lparr>processed := processed s + 1\<rparr>))"
| core: "hwq s = (a, h, n) # q \<Longrightarrow>
    dma_step E s (s\<lparr>hwq := q, written := written s @ [(a, take (unat n) (dbuf s h))], processed := processed s + 1\<rparr>)"

text \<open>The engine after initialisation, with every call at its start.\<close>

definition dma_start :: "('t \<Rightarrow> wlocal) \<Rightarrow> 't wsys \<Rightarrow> bool" where
  "dma_start args s \<longleftrightarrow> requested s = 0 \<and> enqueued s = 0 \<and> processed s = 0 \<and> hwq s = [] \<and> written s = []
     \<and> pcs s = (\<lambda>_. Entry) \<and> locs s = args \<and> (\<forall>t. w_chunk (args t) = 0)"

abbreviation dma_reach :: "'t wenv \<Rightarrow> 't wsys \<Rightarrow> 't wsys \<Rightarrow> bool" where
  "dma_reach E \<equiv> (dma_step E)\<^sup>*\<^sup>*"

section \<open>What a call is to write\<close>

lemma cpy_size_props: "n \<noteq> 0 \<Longrightarrow> 0 < cpy_size n \<and> cpy_size n \<le> n"
  by (auto simp: cpy_size_def TLKM_DMA_CHUNK_SZ_def word_gt_0)

lemma unat_minus_cpy: "n \<noteq> 0 \<Longrightarrow> unat (n - cpy_size n) < unat n"
  using cpy_size_props [of n] by (simp add: unat_sub word_less_nat_alt word_le_nat_alt)

text \<open>The chunks of a call: target address and data.\<close>

function chunks_of :: "(u64 \<Rightarrow> u8) \<Rightarrow> u64 \<Rightarrow> u64 \<Rightarrow> u64 \<Rightarrow> (u64 \<times> u8 list) list" where
  "chunks_of um a u n = (if n = 0 then [] else let k = cpy_size n
     in (a, user_data um u k) # chunks_of um (a + k) (u + k) (n - k))"
  by pat_completeness auto

termination by (relation "measure (\<lambda>(um, a, u, n). unat n)") (auto simp: unat_minus_cpy)

declare chunks_of.simps [simp del]

lemma length_user_data [simp]: "length (user_data um u n) = unat n"
  by (simp add: user_data_def)

definition call_chunks :: "'t wenv \<Rightarrow> 't \<Rightarrow> wlocal \<Rightarrow> (u64 \<times> u8 list) list" where
  "call_chunks E t l = chunks_of (user E t) (w_dev l) (w_usr l) (w_len l)"

lemma call_chunks_0: "w_len l = 0 \<Longrightarrow> call_chunks E t l = []"
  by (simp add: call_chunks_def chunks_of.simps)

lemma call_chunks_step:
  "w_len l \<noteq> 0 \<Longrightarrow> w_sz l = cpy_size (w_len l) \<Longrightarrow>
    call_chunks E t l = (w_dev l, user_data (user E t) (w_usr l) (w_sz l)) # call_chunks E t (advance_chunk l)"
  by (simp add: call_chunks_def chunks_of.simps [of _ _ _ "w_len l"] advance_chunk_def Let_def)

text \<open>Together the chunks are the whole range: byte \<open>i\<close> of the user's data goes to byte \<open>i\<close> of the target.\<close>

fun bytes_at :: "(u64 \<times> u8 list) list \<Rightarrow> (u64 \<times> u8) list" where
  "bytes_at [] = []"
| "bytes_at ((a, d) # cs) = zip (map (\<lambda>i. a + word_of_nat i) [0..<length d]) d @ bytes_at cs"

lemma zip_user_data:
  "zip (map (\<lambda>i. a + word_of_nat i) [0..<unat k]) (user_data um u k) = map (\<lambda>i. (a + word_of_nat i, um (u + word_of_nat i))) [0..<unat k]"
  by (simp add: user_data_def zip_map_map zip_same_conv_map)

lemma bytes_of_chunks:
  "bytes_at (chunks_of um a u n) = map (\<lambda>i. (a + word_of_nat i, um (u + word_of_nat i))) [0..<unat n]"
proof (induction um a u n rule: chunks_of.induct)
  case (1 um a u n)
  show ?case
  proof (cases "n = 0")
    case False
    let ?k = "cpy_size n"
    let ?f = "\<lambda>i. (a + word_of_nat i, um (u + word_of_nat i))"
    have k: "?k \<le> n" using cpy_size_props [OF False] by simp
    then have u: "unat (n - ?k) = unat n - unat ?k" "unat ?k \<le> unat n" by (simp_all add: unat_sub word_le_nat_alt)
    have "bytes_at (chunks_of um a u n) = map ?f [0..<unat ?k] @ bytes_at (chunks_of um (a + ?k) (u + ?k) (n - ?k))"
      using False by (simp add: chunks_of.simps [of um a u n] Let_def zip_user_data)
    also have "bytes_at (chunks_of um (a + ?k) (u + ?k) (n - ?k)) = map ?f (map (\<lambda>i. i + unat ?k) [0..<unat n - unat ?k])"
      using 1 [OF False refl] u(1) by (simp add: add.assoc add.commute [of _ "unat _"])
    also have "map (\<lambda>i. i + unat ?k) [0..<unat n - unat ?k] = [unat ?k..<unat n]"
      using u(2) by (simp add: map_add_upt)
    finally show ?thesis using u(2) upt_add_eq_append [of 0 "unat ?k" "unat n - unat ?k"] by (simp flip: map_append)
  qed (simp add: chunks_of.simps)
qed

section \<open>Invariant\<close>

text \<open>A call owns its chunk from the request until the chunk is counted as enqueued, and its buffer from
  the end of the first wait until the command is with the core.\<close>

fun owning :: "wpc \<Rightarrow> bool" where
  "owning Entry = False" | "owning Top = False" | "owning Wait_last = False"
| "owning (Err_proc e) = False" | "owning (Done r) = False"
| "owning p = True"

definition holding :: "wpc \<Rightarrow> bool" where
  "holding p \<longleftrightarrow> p = Fill \<or> p = Sync \<or> p = Wait_enq \<or> p = Issue"

definition in_chunk :: "wpc \<Rightarrow> bool" where
  "in_chunk p \<longleftrightarrow> p = Wait_slot \<or> holding p \<or> p = Count"

abbreviation chunk :: "'t wsys \<Rightarrow> 't \<Rightarrow> nat" where
  "chunk s t \<equiv> w_chunk (locs s t)"

definition own_range :: "'t wsys \<Rightarrow> bool" where
  "own_range s \<longleftrightarrow> (\<forall>t. owning (pcs s t) \<longrightarrow> enqueued s \<le> chunk s t \<and> chunk s t < requested s)"

definition own_inj :: "'t wsys \<Rightarrow> bool" where
  "own_inj s \<longleftrightarrow> (\<forall>t u. owning (pcs s t) \<longrightarrow> owning (pcs s u) \<longrightarrow> chunk s t = chunk s u \<longrightarrow> t = u)"

definition own_turn :: "'t wsys \<Rightarrow> bool" where
  "own_turn s \<longleftrightarrow> (\<forall>t. pcs s t = Issue \<or> pcs s t = Count \<longrightarrow> chunk s t = enqueued s)"

definition own_all :: "'t wsys \<Rightarrow> bool" where
  "own_all s \<longleftrightarrow> (\<forall>c. enqueued s \<le> c \<longrightarrow> c < requested s \<longrightarrow> (\<exists>t. owning (pcs s t) \<and> chunk s t = c))"

definition owners :: "'t wsys \<Rightarrow> bool" where
  "owners s \<longleftrightarrow> enqueued s \<le> requested s \<and> own_range s \<and> own_inj s \<and> own_turn s \<and> own_all s"

lemmas step_simps = goto_def set_loc_def advance_chunk_def

lemma others_later:
  assumes "own_range s" "own_inj s" "owning (pcs s t)" "chunk s t = enqueued s" "owning (pcs s u)" "u \<noteq> t"
  shows "Suc (enqueued s) \<le> chunk s u"
proof -
  have "enqueued s \<le> chunk s u" using assms(1,5) by (simp add: own_range_def)
  moreover have "chunk s u \<noteq> enqueued s" using assms(2-6) by (auto simp: own_inj_def)
  ultimately show ?thesis by simp
qed

text \<open>The chunk whose turn it is leaves the queue: by being counted or by the error path.\<close>

lemma owners_leave:
  assumes "owners s" "owning (pcs s t)" "chunk s t = enqueued s" "\<not> owning p" "w_chunk l = chunk s t"
  shows "owners (goto t p (set_loc t l (s\<lparr>enqueued := enqueued s + 1\<rparr>)))"
proof -
  have o: "own_range s" "own_inj s" "own_turn s" "own_all s" using assms(1) by (simp_all add: owners_def)
  note later = others_later [OF o(1,2) assms(2,3)]
  let ?s = "goto t p (set_loc t l (s\<lparr>enqueued := enqueued s + 1\<rparr>))"
  have "own_range ?s" using o(1) later assms(4) by (auto simp: own_range_def step_simps)
  moreover have "own_inj ?s" using o(2) assms(4) by (auto simp: own_inj_def step_simps)
  moreover have "own_turn ?s"
  proof -
    have "pcs s u \<noteq> Issue \<and> pcs s u \<noteq> Count" if "u \<noteq> t" for u
      using later [OF _ that] o(3) by (fastforce simp: own_turn_def)
    then show ?thesis using assms(4) by (auto simp: own_turn_def step_simps)
  qed
  moreover have "own_all ?s"
  proof -
    have "\<exists>u. u \<noteq> t \<and> owning (pcs s u) \<and> chunk s u = c" if "Suc (enqueued s) \<le> c" "c < requested s" for c
      using o(4) that assms(3) by (metis Suc_leD Suc_n_not_le_n own_all_def)
    then show ?thesis by (auto simp: own_all_def step_simps)
  qed
  moreover have "enqueued s < requested s" using o(1) assms(2,3) by (auto simp: own_range_def)
  ultimately show ?thesis by (simp add: owners_def step_simps)
qed

text \<open>A step that changes nothing but where a call is, within its chunk or outside any.\<close>

lemma owners_goto:
  assumes "owners s" "owning (pcs s t) = owning p" "p = Issue \<or> p = Count \<longrightarrow> chunk s t = enqueued s"
  shows "owners (goto t p s)"
proof -
  have o: "own_range s" "own_inj s" "own_turn s" "own_all s" "enqueued s \<le> requested s" using assms(1) by (simp_all add: owners_def)
  have pcs: "owning (((pcs s)(t := p)) u) = owning (pcs s u)" for u using assms(2) by simp
  show ?thesis using o assms(3) unfolding owners_def
    by (auto simp: own_range_def own_inj_def own_all_def pcs goto_def simp del: fun_upd_apply) (auto simp: own_turn_def split: if_splits)
qed

lemma owners_request:
  assumes "owners s" "\<not> owning (pcs s t)"
  shows "owners (goto t Wait_slot (set_loc t ((locs s t)\<lparr>w_chunk := requested s, w_sz := k\<rparr>) (s\<lparr>requested := requested s + 1\<rparr>)))"
proof -
  have o: "own_range s" "own_inj s" "own_turn s" "own_all s" "enqueued s \<le> requested s" using assms(1) by (simp_all add: owners_def)
  let ?s = "goto t Wait_slot (set_loc t ((locs s t)\<lparr>w_chunk := requested s, w_sz := k\<rparr>) (s\<lparr>requested := requested s + 1\<rparr>))"
  have "own_range ?s" using o(1,5) by (fastforce simp: own_range_def step_simps)
  moreover have "own_inj ?s" using o(1,2) by (fastforce simp: own_inj_def own_range_def step_simps)
  moreover have "own_turn ?s" using o(3) by (simp add: own_turn_def step_simps)
  moreover have "own_all ?s"
  proof -
    have "\<exists>u. u \<noteq> t \<and> owning (pcs s u) \<and> chunk s u = c" if "enqueued s \<le> c" "c < requested s" for c
      using o(4) that assms(2) by (auto simp: own_all_def)
    then show ?thesis by (auto simp: own_all_def step_simps less_Suc_eq)
  qed
  ultimately show ?thesis using o(5) by (simp add: owners_def step_simps)
qed

lemma owners_frame:
  "owners s \<Longrightarrow> owners (s\<lparr>cbuf := c\<rparr>)" "owners s \<Longrightarrow> owners (s\<lparr>dbuf := d\<rparr>)" "owners s \<Longrightarrow> owners (s\<lparr>hwq := q\<rparr>)"
  "owners s \<Longrightarrow> owners (s\<lparr>processed := n\<rparr>)" "owners s \<Longrightarrow> owners (s\<lparr>hwq := q, written := w, processed := n\<rparr>)"
  by (simp_all add: owners_def own_range_def own_inj_def own_turn_def own_all_def)

lemma set_loc_same [simp]: "set_loc t (locs s t) s = s"
  by (simp add: set_loc_def)

lemma owners_step:
  assumes "dma_step E s s'" and "\<not> signals E" and "owners s"
  shows "owners s'"
  using assms(1)
proof (cases rule: dma_step.cases)
  case (request t)
  then show ?thesis using owners_request [OF assms(3)] by simp
next
  case (counted t)
  then show ?thesis using owners_leave [OF assms(3), of t] assms(3)
    by (simp add: advance_chunk_def owners_def own_turn_def)
next
  case (err_enqueue t e)
  then show ?thesis using owners_leave [OF assms(3), of t "Err_proc e" "locs s t"] assms(2) by (simp add: set_loc_def)
next
  case (copied t)
  then show ?thesis by (auto intro!: owners_goto owners_frame assms(3))
next
  case (synced t)
  then show ?thesis by (auto intro!: owners_goto owners_frame assms(3))
next
  case (issued t)
  then have "chunk s t = enqueued s" using assms(3) by (simp add: owners_def own_turn_def)
  then show ?thesis using issued by (auto intro!: owners_goto owners_frame assms(3))
next
  case (err_process t e)
  then show ?thesis by (auto intro!: owners_goto owners_frame assms(3))
next
  case (core a h n q)
  then show ?thesis by (auto intro!: owners_frame assms(3))
qed (use assms(2,3) in \<open>auto intro!: owners_goto\<close>)

text \<open>The commands with the core, as chunk number, target and data. Their numbers increase, none has
  been counted as processed, and each buffer still has the data of its chunk.\<close>

type_synonym cmds = "(nat \<times> u64 \<times> u8 list) list"

definition same_cmd :: "'t wenv \<Rightarrow> nat \<times> u64 \<times> u8 list \<Rightarrow> u64 \<times> u64 \<times> u64 \<Rightarrow> bool" where
  "same_cmd E = (\<lambda>(n, a, d) (a', h, k). a' = a \<and> h = handles E (n mod TLKM_DMA_CHUNKS) \<and> unat k = length d)"

definition counting :: "'t wsys \<Rightarrow> nat \<Rightarrow> bool" where
  "counting s n \<longleftrightarrow> (\<exists>t. pcs s t = Count \<and> chunk s t = n)"

definition queue_inv :: "'t wenv \<Rightarrow> cmds \<Rightarrow> 't wsys \<Rightarrow> bool" where
  "queue_inv E g s \<longleftrightarrow> list_all2 (same_cmd E) g (hwq s) \<and> sorted_wrt (<) (map fst g)
     \<and> (\<forall>(n, a, d) \<in> set g. processed s \<le> n \<and> (n < enqueued s \<or> counting s n)
          \<and> dbuf s (handles E (n mod TLKM_DMA_CHUNKS)) = d)"

definition proc_inv :: "'t wsys \<Rightarrow> bool" where
  "proc_inv s \<longleftrightarrow> processed s \<le> enqueued s \<or> (processed s = Suc (enqueued s) \<and> counting s (enqueued s))"

text \<open>Nothing but chunks of the calls is written or on its way.\<close>

definition origin_inv :: "'t wenv \<Rightarrow> ('t \<Rightarrow> wlocal) \<Rightarrow> cmds \<Rightarrow> 't wsys \<Rightarrow> bool" where
  "origin_inv E args g s \<longleftrightarrow>
     (\<forall>c \<in> set (written s) \<union> snd ` set g. \<exists>t. c \<in> set (call_chunks E t (args t)))"

text \<open>What holds of one call: its buffer, its variables, and the chunks it has sent.\<close>

definition chunk_data :: "'t wenv \<Rightarrow> 't \<Rightarrow> wlocal \<Rightarrow> u8 list" where
  "chunk_data E t l = user_data (user E t) (w_usr l) (w_sz l)"

definition buffer_inv :: "'t wenv \<Rightarrow> 't wsys \<Rightarrow> 't \<Rightarrow> bool" where
  "buffer_inv E s t \<longleftrightarrow> (holding (pcs s t) \<longrightarrow> chunk s t < processed s + TLKM_DMA_CHUNKS)
     \<and> (pcs s t = Sync \<longrightarrow> cbuf s (slot (locs s t)) = chunk_data E t (locs s t))
     \<and> (pcs s t = Wait_enq \<or> pcs s t = Issue \<longrightarrow> dbuf s (handles E (slot (locs s t))) = chunk_data E t (locs s t))"

definition local_inv :: "cmds \<Rightarrow> 't wsys \<Rightarrow> 't \<Rightarrow> bool" where
  "local_inv g s t \<longleftrightarrow>
     (in_chunk (pcs s t) \<longrightarrow> w_len (locs s t) \<noteq> 0 \<and> w_sz (locs s t) = cpy_size (w_len (locs s t)))
     \<and> (pcs s t = Wait_last \<longrightarrow> w_len (locs s t) = 0)
     \<and> (\<forall>e. pcs s t = Err_enq e \<longrightarrow> e < 0)
     \<and> (\<forall>e. pcs s t = Err_proc e \<longrightarrow> e < 0 \<and> chunk s t < enqueued s \<and> chunk s t \<notin> fst ` set g)"

definition to_send :: "'t wsys \<Rightarrow> 't \<Rightarrow> wlocal" where
  "to_send s t = (if pcs s t = Count then advance_chunk (locs s t) else locs s t)"

definition sent_inv :: "'t wenv \<Rightarrow> ('t \<Rightarrow> wlocal) \<Rightarrow> cmds \<Rightarrow> 't wsys \<Rightarrow> 't \<Rightarrow> bool" where
  "sent_inv E args g s t \<longleftrightarrow>
     (pcs s t = Entry \<or> pcs s t = Top \<or> pcs s t = Wait_last \<or> in_chunk (pcs s t) \<longrightarrow>
        (\<exists>pre. call_chunks E t (args t) = pre @ call_chunks E t (to_send s t)
          \<and> (\<forall>c \<in> set pre. c \<in> set (written s) \<or> (\<exists>n \<le> chunk s t. (n, c) \<in> set g))))
     \<and> (\<forall>r. pcs s t = Done r \<longrightarrow> 0 \<le> r \<longrightarrow> r = 0 \<and> set (call_chunks E t (args t)) \<subseteq> set (written s))"

definition call_inv :: "'t wenv \<Rightarrow> ('t \<Rightarrow> wlocal) \<Rightarrow> cmds \<Rightarrow> 't wsys \<Rightarrow> 't \<Rightarrow> bool" where
  "call_inv E args g s t \<longleftrightarrow> buffer_inv E s t \<and> local_inv g s t \<and> sent_inv E args g s t"

lemmas call_inv_defs = call_inv_def buffer_inv_def local_inv_def sent_inv_def to_send_def

text \<open>What the other steps may change without harm to call \<open>u\<close>.\<close>

lemma call_inv_frame:
  assumes "call_inv E args g s u" and "pcs s' u = pcs s u" "locs s' u = locs s u"
    and "processed s \<le> processed s'" "enqueued s \<le> enqueued s'"
    and "pcs s u = Sync \<Longrightarrow> cbuf s' (slot (locs s u)) = cbuf s (slot (locs s u))"
    and "pcs s u = Wait_enq \<or> pcs s u = Issue \<Longrightarrow>
      dbuf s' (handles E (slot (locs s u))) = dbuf s (handles E (slot (locs s u)))"
    and "set (written s) \<subseteq> set (written s')"
    and "\<And>n c. (n, c) \<in> set g \<Longrightarrow> (n, c) \<in> set g' \<or> c \<in> set (written s')"
    and "\<And>e. pcs s u = Err_proc e \<Longrightarrow> chunk s u \<notin> fst ` set g \<Longrightarrow> chunk s u < enqueued s \<Longrightarrow> chunk s u \<notin> fst ` set g'"
  shows "call_inv E args g' s' u"
proof -
  have "sent_inv E args g' s' u"
  proof -
    have "\<exists>pre. call_chunks E u (args u) = pre @ call_chunks E u (to_send s' u)
          \<and> (\<forall>c \<in> set pre. c \<in> set (written s') \<or> (\<exists>n \<le> chunk s' u. (n, c) \<in> set g'))"
      if act: "pcs s u = Entry \<or> pcs s u = Top \<or> pcs s u = Wait_last \<or> in_chunk (pcs s u)"
    proof -
      obtain pre where "call_chunks E u (args u) = pre @ call_chunks E u (to_send s u)"
        "\<forall>c \<in> set pre. c \<in> set (written s) \<or> (\<exists>n \<le> chunk s u. (n, c) \<in> set g)"
        using assms(1) act unfolding call_inv_def sent_inv_def by blast
      then show ?thesis using assms(2,3,8,9) by (intro exI [of _ pre]) (auto simp: to_send_def; blast)
    qed
    moreover have "set (call_chunks E u (args u)) \<subseteq> set (written s') \<and> r = 0" if "pcs s u = Done r" "0 \<le> r" for r
      using assms(1,8) that by (auto simp: call_inv_def sent_inv_def)
    ultimately show ?thesis using assms(2) by (simp add: sent_inv_def)
  qed
  moreover have "buffer_inv E s' u"
    using assms(1-7) by (auto simp: call_inv_def buffer_inv_def)
  moreover have "local_inv g' s' u"
    using assms(1-3,5,10) by (auto simp: call_inv_def local_inv_def)
  ultimately show ?thesis by (simp add: call_inv_def)
qed

section \<open>Buffers are not shared\<close>

lemma mod_eq_close: "a \<le> b \<Longrightarrow> b < a + m \<Longrightarrow> a mod m = b mod m \<Longrightarrow> a = (b :: nat)"
  by (metis add.commute le_add_diff_inverse less_diff_conv2 mod_eq_dvd_iff_nat nat_dvd_not_less zero_less_diff le_neq_implies_less)

lemma holding_ge:
  assumes "owners s" "proc_inv s" "holding (pcs s t)"
  shows "processed s \<le> chunk s t"
proof -
  have own: "owning (pcs s t)" "pcs s t \<noteq> Count" using assms(3) by (auto simp: holding_def)
  have o: "own_range s" "own_inj s" using assms(1) by (simp_all add: owners_def)
  show ?thesis
  proof (cases "processed s \<le> enqueued s")
    case True
    then show ?thesis using o(1) own(1) by (fastforce simp: own_range_def)
  next
    case False
    then obtain u where u: "processed s = Suc (enqueued s)" "pcs s u = Count" "chunk s u = enqueued s"
      using assms(2) by (auto simp: proc_inv_def counting_def)
    then show ?thesis using others_later [OF o, of u t] own by auto
  qed
qed

lemma slots_differ:
  assumes "owners s" "proc_inv s" "buffer_inv E s t" "buffer_inv E s u"
    and "holding (pcs s t)" "holding (pcs s u)" "t \<noteq> u"
  shows "slot (locs s t) \<noteq> slot (locs s u)"
proof
  assume eq: "slot (locs s t) = slot (locs s u)"
  have r: "processed s \<le> chunk s v \<and> chunk s v < processed s + TLKM_DMA_CHUNKS" if "v = t \<or> v = u" for v
    using holding_ge [OF assms(1,2)] assms(3-6) that by (auto simp: buffer_inv_def)
  have "chunk s t = chunk s u"
    using r [of t] r [of u] eq mod_eq_close [of "chunk s t" "chunk s u" TLKM_DMA_CHUNKS]
      mod_eq_close [of "chunk s u" "chunk s t" TLKM_DMA_CHUNKS] by (cases "chunk s t \<le> chunk s u") (auto simp: slot_def)
  then show False using assms(1,5-7) by (auto simp: owners_def own_inj_def holding_def)
qed

lemma slot_not_queued:
  assumes "owners s" "proc_inv s" "buffer_inv E s t" "holding (pcs s t)" "queue_inv E g s" "(n, a, d) \<in> set g"
  shows "n mod TLKM_DMA_CHUNKS \<noteq> slot (locs s t)"
proof
  assume eq: "n mod TLKM_DMA_CHUNKS = slot (locs s t)"
  have own: "owning (pcs s t)" "pcs s t \<noteq> Count" using assms(4) by (auto simp: holding_def)
  have o: "own_range s" "own_inj s" "own_turn s" using assms(1) by (simp_all add: owners_def)
  have n: "processed s \<le> n" "n < enqueued s \<or> counting s n" using assms(5,6) by (auto simp: queue_inv_def)
  have "n < chunk s t"
    using n(2)
  proof
    assume "n < enqueued s"
    then show ?thesis using o(1) own(1) by (fastforce simp: own_range_def)
  next
    assume "counting s n"
    then obtain u where "pcs s u = Count" "chunk s u = n" by (auto simp: counting_def)
    then show ?thesis using others_later [OF o(1,2), of u t] o(3) own by (cases "t = u") (auto simp: own_turn_def)
  qed
  moreover have "chunk s t < processed s + TLKM_DMA_CHUNKS" using assms(3,4) by (simp add: buffer_inv_def)
  ultimately show False using mod_eq_close [of n "chunk s t" TLKM_DMA_CHUNKS] n(1) eq by (auto simp: slot_def)
qed

section \<open>The invariant is kept\<close>

definition rest_inv :: "'t wenv \<Rightarrow> ('t \<Rightarrow> wlocal) \<Rightarrow> cmds \<Rightarrow> 't wsys \<Rightarrow> bool" where
  "rest_inv E args g s \<longleftrightarrow> queue_inv E g s \<and> proc_inv s \<and> origin_inv E args g s \<and> (\<forall>t. call_inv E args g s t)"

lemma counting_eqI:
  assumes "\<And>u. pcs s' u = Count \<longleftrightarrow> pcs s u = Count" and "\<And>u. pcs s u = Count \<Longrightarrow> chunk s' u = chunk s u"
  shows "counting s' n = counting s n"
  using assms unfolding counting_def by metis

lemma counting_goto [simp]:
  "pcs s t \<noteq> Count \<Longrightarrow> p \<noteq> Count \<Longrightarrow> counting (goto t p s) n = counting s n"
  by (auto simp: counting_def goto_def)

lemma chunk_advance [simp]: "w_chunk (advance_chunk l) = w_chunk l"
  by (simp add: advance_chunk_def)

lemma goto_simps [simp]:
  "requested (goto t p s) = requested s" "enqueued (goto t p s) = enqueued s" "processed (goto t p s) = processed s"
  "cbuf (goto t p s) = cbuf s" "dbuf (goto t p s) = dbuf s" "hwq (goto t p s) = hwq s" "written (goto t p s) = written s"
  "pcs (goto t p s) t = p" "u \<noteq> t \<Longrightarrow> pcs (goto t p s) u = pcs s u" "locs (goto t p s) = locs s"
  by (simp_all add: goto_def)

lemma set_loc_simps [simp]:
  "requested (set_loc t l s) = requested s" "enqueued (set_loc t l s) = enqueued s" "processed (set_loc t l s) = processed s"
  "cbuf (set_loc t l s) = cbuf s" "dbuf (set_loc t l s) = dbuf s" "hwq (set_loc t l s) = hwq s" "written (set_loc t l s) = written s"
  "pcs (set_loc t l s) = pcs s" "locs (set_loc t l s) t = l" "u \<noteq> t \<Longrightarrow> locs (set_loc t l s) u = locs s u"
  by (simp_all add: set_loc_def)

lemma rest_frame:
  assumes "rest_inv E args g s" and "hwq s' = hwq s" "written s' = written s" "processed s' = processed s" "enqueued s' = enqueued s"
    "dbuf s' = dbuf s" and "\<And>n. counting s' n = counting s n" and "\<And>u. call_inv E args g s' u"
  shows "rest_inv E args g s'"
  using assms by (simp add: rest_inv_def queue_inv_def proc_inv_def origin_inv_def)

text \<open>Steps of one call that touch neither buffers nor core nor counters.\<close>

lemma rest_goto:
  assumes "rest_inv E args g s" and "pcs s t \<noteq> Count" "p \<noteq> Count"
    and "call_inv E args g s t \<Longrightarrow> call_inv E args g (goto t p s) t"
  shows "rest_inv E args g (goto t p s)"
proof -
  have "call_inv E args g (goto t p s) u" for u
  proof (cases "u = t")
    case False
    have "call_inv E args g s u" using assms(1) by (simp add: rest_inv_def)
    then show ?thesis by (rule call_inv_frame) (use False in \<open>simp_all\<close>)
  next
    case True
    then show ?thesis using assms(1,4) by (simp add: rest_inv_def)
  qed
  with assms(1-3) show ?thesis by (intro rest_frame [OF assms(1)]) simp_all
qed

lemma rest_request:
  assumes "rest_inv E args g s" "owners s" "pcs s t = Top" "w_len (locs s t) > 0"
  shows "rest_inv E args g (goto t Wait_slot (set_loc t
      ((locs s t)\<lparr>w_chunk := requested s, w_sz := cpy_size (w_len (locs s t))\<rparr>) (s\<lparr>requested := requested s + 1\<rparr>)))"
    (is "rest_inv E args g ?s")
proof -
  have inv: "queue_inv E g s" "proc_inv s" "origin_inv E args g s" "\<And>u. call_inv E args g s u"
    using assms(1) by (simp_all add: rest_inv_def)
  have cnt: "counting ?s n = counting s n" for n using assms(3) by (intro counting_eqI) (auto simp: step_simps)
  have low: "n < requested s" if "(n, c) \<in> set g" for n c
    using inv(1) that assms(2) by (fastforce simp: queue_inv_def counting_def owners_def own_range_def)
  have "call_inv E args g ?s u" for u
  proof (cases "u = t")
    case True
    obtain pre where pre: "call_chunks E t (args t) = pre @ call_chunks E t (locs s t)"
      "\<forall>c \<in> set pre. c \<in> set (written s) \<or> (\<exists>n \<le> chunk s t. (n, c) \<in> set g)"
      using inv(4) [of t] assms(3) by (auto simp: call_inv_def sent_inv_def to_send_def)
    have "call_chunks E t ((locs s t)\<lparr>w_chunk := requested s, w_sz := cpy_size (w_len (locs s t))\<rparr>) = call_chunks E t (locs s t)"
      by (simp add: call_chunks_def)
    then have "sent_inv E args g ?s t" using pre low
      by (auto simp: sent_inv_def to_send_def intro!: exI [of _ pre] dest!: bspec) (metis less_imp_le low)
    then show ?thesis using True assms(4) by (simp add: call_inv_def buffer_inv_def local_inv_def holding_def word_gt_0)
  next
    case False
    then show ?thesis by (intro call_inv_frame [OF inv(4)]) simp_all
  qed
  with assms(1) show ?thesis by (intro rest_frame [OF assms(1) _ _ _ _ _ cnt]) simp_all
qed

lemma rest_copied:
  assumes "rest_inv E args g s" "owners s" "pcs s t = Fill"
  shows "rest_inv E args g (goto t Sync (s\<lparr>cbuf := (cbuf s)(slot (locs s t) := chunk_data E t (locs s t))\<rparr>))"
    (is "rest_inv E args g ?s")
proof -
  have inv: "queue_inv E g s" "proc_inv s" "origin_inv E args g s" "\<And>u. call_inv E args g s u"
    using assms(1) by (simp_all add: rest_inv_def)
  have cnt: "counting ?s n = counting s n" for n using assms(3) by (intro counting_eqI) (auto simp: step_simps)
  have "call_inv E args g ?s u" for u
  proof (cases "u = t")
    case True
    then show ?thesis using inv(4) [of t] assms(3) by (auto simp: call_inv_defs holding_def in_chunk_def)
  next
    case False
    then have "pcs s u = Sync \<Longrightarrow> slot (locs s u) \<noteq> slot (locs s t)"
      using slots_differ [OF assms(2) inv(2), of E u t] inv(4) assms(3) by (auto simp: call_inv_def holding_def)
    then show ?thesis using False by (intro call_inv_frame [OF inv(4)]) simp_all
  qed
  with assms(1) show ?thesis by (intro rest_frame [OF assms(1) _ _ _ _ _ cnt]) simp_all
qed

lemma rest_synced:
  assumes "rest_inv E args g s" "owners s" "pcs s t = Sync" and h: "inj_on (handles E) {..<TLKM_DMA_CHUNKS}"
  shows "rest_inv E args g (goto t Wait_enq (s\<lparr>dbuf := (dbuf s)(handles E (slot (locs s t)) :=
      take (unat (w_sz (locs s t))) (cbuf s (slot (locs s t))))\<rparr>))"
    (is "rest_inv E args g ?s")
proof -
  have inv: "queue_inv E g s" "proc_inv s" "origin_inv E args g s" "\<And>u. call_inv E args g s u"
    using assms(1) by (simp_all add: rest_inv_def)
  have cnt: "counting ?s n = counting s n" for n using assms(3) by (intro counting_eqI) (auto simp: step_simps)
  have hold: "holding (pcs s t)" using assms(3) by (simp add: holding_def)
  have inj: "m mod TLKM_DMA_CHUNKS \<noteq> k mod TLKM_DMA_CHUNKS \<Longrightarrow>
      handles E (m mod TLKM_DMA_CHUNKS) \<noteq> handles E (k mod TLKM_DMA_CHUNKS)" for m k
    using h by (auto simp: inj_on_def tlkm_const)
  have "queue_inv E g ?s"
  proof -
    have "dbuf ?s (handles E (n mod TLKM_DMA_CHUNKS)) = d" if "(n, a, d) \<in> set g" for n a d
      using slot_not_queued [OF assms(2) inv(2) _ hold inv(1) that] inv(1,4) that inj
      by (auto simp: call_inv_def queue_inv_def slot_def)
    then show ?thesis using inv(1) by (auto simp: queue_inv_def cnt)
  qed
  moreover have "call_inv E args g ?s u" for u
  proof (cases "u = t")
    case True
    then show ?thesis using inv(4) [of t] assms(3)
      by (auto simp: call_inv_defs holding_def in_chunk_def chunk_data_def)
  next
    case False
    then have "pcs s u = Wait_enq \<or> pcs s u = Issue \<Longrightarrow> handles E (slot (locs s u)) \<noteq> handles E (slot (locs s t))"
      using slots_differ [OF assms(2) inv(2), of E u t] inv(4) hold inj by (auto simp: call_inv_def holding_def slot_def)
    then show ?thesis using False by (intro call_inv_frame [OF inv(4)]) simp_all
  qed
  ultimately show ?thesis using inv by (simp add: rest_inv_def proc_inv_def origin_inv_def cnt)
qed

text \<open>Only the call whose turn it is can be about to count its chunk.\<close>

lemma no_counting:
  assumes "owners s" "owning (pcs s t)" "pcs s t \<noteq> Count" "chunk s t = enqueued s"
  shows "\<not> counting s n"
proof
  assume "counting s n"
  then obtain u where u: "pcs s u = Count" by (auto simp: counting_def)
  then have "chunk s u = chunk s t" using assms(1,4) by (simp add: owners_def own_turn_def)
  then have "u = t" using assms(1,2) u by (simp add: owners_def own_inj_def)
  then show False using assms(3) u by simp
qed

lemma rest_issued:
  assumes "rest_inv E args g s" "owners s" "pcs s t = Issue"
  shows "\<exists>g'. rest_inv E args g' (goto t Count (s\<lparr>hwq := hwq s @
      [(w_dev (locs s t), handles E (slot (locs s t)), w_sz (locs s t))]\<rparr>))"
    (is "\<exists>g'. rest_inv E args g' ?s")
proof -
  define g' where "g' = g @ [(chunk s t, w_dev (locs s t), chunk_data E t (locs s t))]"
  have inv: "queue_inv E g s" "proc_inv s" "origin_inv E args g s" "\<And>u. call_inv E args g s u"
    using assms(1) by (simp_all add: rest_inv_def)
  have turn: "chunk s t = enqueued s" using assms(2,3) by (simp add: owners_def own_turn_def)
  have nc: "\<not> counting s n" for n using no_counting [OF assms(2) _ _ turn] assms(3) by simp
  have cnt: "counting ?s (enqueued s)" using turn by (auto simp: counting_def intro!: exI [of _ t])
  have p: "processed s \<le> enqueued s" using inv(2) nc by (simp add: proc_inv_def)
  have low: "n < enqueued s" if "(n, c) \<in> set g" for n c using inv(1) that nc by (fastforce simp: queue_inv_def)
  have ch: "call_chunks E t (locs s t) = (w_dev (locs s t), chunk_data E t (locs s t)) # call_chunks E t (advance_chunk (locs s t))"
    using inv(4) [of t] assms(3) call_chunks_step [of "locs s t" E t]
    by (auto simp: call_inv_def local_inv_def in_chunk_def holding_def chunk_data_def)
  obtain pre where pre: "call_chunks E t (args t) = pre @ call_chunks E t (locs s t)"
    "\<forall>c \<in> set pre. c \<in> set (written s) \<or> (\<exists>n \<le> chunk s t. (n, c) \<in> set g)"
    using inv(4) [of t] assms(3) by (auto simp: call_inv_def sent_inv_def to_send_def in_chunk_def holding_def)
  have "queue_inv E g' ?s"
  proof -
    have "list_all2 (same_cmd E) g' (hwq ?s)"
      using inv(1) by (simp add: g'_def queue_inv_def same_cmd_def list_all2_appendI slot_def chunk_data_def)
    moreover have "sorted_wrt (<) (map fst g')"
      using inv(1) low turn by (auto simp: g'_def queue_inv_def sorted_wrt_append)
    moreover have "dbuf s (handles E (chunk s t mod TLKM_DMA_CHUNKS)) = chunk_data E t (locs s t)"
      using inv(4) [of t] assms(3) by (simp add: call_inv_def buffer_inv_def slot_def)
    ultimately show ?thesis using inv(1) low p cnt turn by (auto simp: queue_inv_def g'_def)
  qed
  moreover have "proc_inv ?s" using p by (simp add: proc_inv_def)
  moreover have "origin_inv E args g' ?s"
    using inv(3) pre(1) ch by (auto simp: origin_inv_def g'_def intro!: exI [of _ t])
  moreover have "call_inv E args g' ?s u" for u
  proof (cases "u = t")
    case True
    have "sent_inv E args g' ?s t"
      using pre ch by (auto simp: sent_inv_def to_send_def g'_def in_chunk_def intro!: exI [of _ "pre @ [(w_dev (locs s t), chunk_data E t (locs s t))]"])
    then show ?thesis using True inv(4) [of t] assms(3)
      by (simp add: call_inv_def buffer_inv_def local_inv_def holding_def in_chunk_def)
  next
    case False
    then show ?thesis using turn by (intro call_inv_frame [OF inv(4)]) (auto simp: g'_def)
  qed
  ultimately show ?thesis by (auto simp: rest_inv_def)
qed

lemma rest_counted:
  assumes "rest_inv E args g s" "owners s" "pcs s t = Count"
  shows "rest_inv E args g (goto t Top (set_loc t (advance_chunk (locs s t)) (s\<lparr>enqueued := enqueued s + 1\<rparr>)))"
    (is "rest_inv E args g ?s")
proof -
  have inv: "queue_inv E g s" "proc_inv s" "origin_inv E args g s" "\<And>u. call_inv E args g s u"
    using assms(1) by (simp_all add: rest_inv_def)
  have le: "n < Suc (enqueued s)" if "(n, c) \<in> set g" for n c
    using inv(1) that assms(2) by (fastforce simp: queue_inv_def counting_def owners_def own_turn_def)
  have "call_inv E args g ?s u" for u
  proof (cases "u = t")
    case True
    then show ?thesis using inv(4) [of t] assms(3)
      by (simp add: call_inv_defs holding_def in_chunk_def)
  next
    case False
    then show ?thesis by (intro call_inv_frame [OF inv(4)]) simp_all
  qed
  moreover have "queue_inv E g ?s" using inv(1) le by (auto simp: queue_inv_def)
  ultimately show ?thesis using inv(2,3) by (auto simp: rest_inv_def proc_inv_def origin_inv_def)
qed

lemma rest_err_enqueue:
  assumes "rest_inv E args g s" "owners s" "pcs s t = Err_enq e" "enqueued s = chunk s t"
  shows "rest_inv E args g (goto t (Err_proc e) (s\<lparr>enqueued := enqueued s + 1\<rparr>))" (is "rest_inv E args g ?s")
proof -
  have inv: "queue_inv E g s" "proc_inv s" "origin_inv E args g s" "\<And>u. call_inv E args g s u"
    using assms(1) by (simp_all add: rest_inv_def)
  have nc: "\<not> counting s n" for n using no_counting [OF assms(2), of t] assms(3,4) by simp
  have low: "n < chunk s t" if "(n, c) \<in> set g" for n c using inv(1) that nc assms(4) by (fastforce simp: queue_inv_def)
  have "call_inv E args g ?s u" for u
  proof (cases "u = t")
    case True
    then show ?thesis using inv(4) [of t] assms(3,4) low
      by (fastforce simp: call_inv_defs holding_def in_chunk_def)
  next
    case False
    then show ?thesis by (intro call_inv_frame [OF inv(4)]) simp_all
  qed
  moreover have "queue_inv E g ?s" using inv(1) low assms(4) by (fastforce simp: queue_inv_def)
  ultimately show ?thesis using inv(2,3) nc by (auto simp: rest_inv_def proc_inv_def origin_inv_def)
qed

lemma rest_err_process:
  assumes "rest_inv E args g s" "pcs s t = Err_proc e" "processed s = chunk s t"
  shows "rest_inv E args g (goto t (Done e) (s\<lparr>processed := processed s + 1\<rparr>))" (is "rest_inv E args g ?s")
proof -
  have inv: "queue_inv E g s" "proc_inv s" "origin_inv E args g s" "\<And>u. call_inv E args g s u"
    using assms(1) by (simp_all add: rest_inv_def)
  have t: "e < 0" "chunk s t < enqueued s" "chunk s t \<notin> fst ` set g"
    using inv(4) [of t] assms(2) by (simp_all add: call_inv_def local_inv_def)
  have cnt: "counting ?s n = counting s n" for n using assms(2) by (intro counting_eqI) (auto simp: step_simps)
  have hi: "Suc (processed s) \<le> n" if "(n, c) \<in> set g" for n c
  proof -
    have "processed s \<le> n" using inv(1) that by (auto simp: queue_inv_def)
    moreover have "n \<noteq> processed s" using t(3) that assms(3) by (metis fst_conv image_eqI)
    ultimately show ?thesis by simp
  qed
  have "call_inv E args g ?s u" for u
  proof (cases "u = t")
    case True
    then show ?thesis using t(1) by (simp add: call_inv_defs holding_def in_chunk_def)
  next
    case False
    then show ?thesis by (intro call_inv_frame [OF inv(4)]) simp_all
  qed
  moreover have "queue_inv E g ?s" using inv(1) hi cnt by (fastforce simp: queue_inv_def)
  ultimately show ?thesis using inv(3) t(2) assms(3) by (auto simp: rest_inv_def proc_inv_def origin_inv_def)
qed

lemma rest_core:
  assumes "rest_inv E args g s" "owners s" "hwq s = (a, h, k) # q"
  shows "\<exists>g'. rest_inv E args g'
    (s\<lparr>hwq := q, written := written s @ [(a, take (unat k) (dbuf s h))], processed := processed s + 1\<rparr>)"
    (is "\<exists>g'. rest_inv E args g' ?s")
proof -
  have inv: "queue_inv E g s" "proc_inv s" "origin_inv E args g s" "\<And>u. call_inv E args g s u"
    using assms(1) by (simp_all add: rest_inv_def)
  obtain n d g' where g: "g = (n, a, d) # g'" "h = handles E (n mod TLKM_DMA_CHUNKS)" "unat k = length d"
    and l: "list_all2 (same_cmd E) g' q"
    using inv(1) assms(3) by (auto simp: queue_inv_def same_cmd_def list_all2_Cons2)
  have d: "dbuf s h = d" "processed s \<le> n" "n < enqueued s \<or> counting s n"
    using inv(1) g by (auto simp: queue_inv_def)
  have w: "written ?s = written s @ [(a, d)]" using d(1) g(3) by simp
  have cnt: "counting ?s m = counting s m" for m by (simp add: counting_def)
  have hi: "Suc (processed s) \<le> m" if "(m, c) \<in> set g'" for m c
    using inv(1) that d(2) g(1) by (fastforce simp: queue_inv_def)
  have "queue_inv E g' ?s" using inv(1) l hi cnt g(1) by (fastforce simp: queue_inv_def)
  moreover have "proc_inv ?s"
  proof (cases "n < enqueued s")
    case False
    then have "counting s n" using d(3) by simp
    then have "n = enqueued s" using assms(2) by (auto simp: counting_def owners_def own_turn_def)
    then show ?thesis using d(2) \<open>counting s n\<close> cnt by (auto simp: proc_inv_def)
  qed (use d(2) in \<open>simp add: proc_inv_def\<close>)
  moreover have "origin_inv E args g' ?s" using inv(3) g(1) w by (auto simp: origin_inv_def)
  moreover have "call_inv E args g' ?s u" for u
    using g(1) w by (intro call_inv_frame [OF inv(4)]) auto
  ultimately show ?thesis by (auto simp: rest_inv_def)
qed

lemma winv_step:
  assumes "dma_step E s s'" "\<not> signals E" "inj_on (handles E) {..<TLKM_DMA_CHUNKS}" and "owners s" "rest_inv E args g s"
  shows "owners s' \<and> (\<exists>g'. rest_inv E args g' s')"
proof
  note call = call_inv_defs holding_def in_chunk_def EAGAIN_def
  from assms(1) show "\<exists>g'. rest_inv E args g' s'"
  proof (cases rule: dma_step.cases)
    case (request t)
    then show ?thesis using rest_request [OF assms(5,4)] by auto
  next
    case (copied t)
    then show ?thesis using rest_copied [OF assms(5,4)] by (auto simp: chunk_data_def)
  next
    case (synced t)
    then show ?thesis using rest_synced [OF assms(5,4) _ assms(3)] by auto
  next
    case (issued t)
    then show ?thesis using rest_issued [OF assms(5,4)] by auto
  next
    case (counted t)
    then show ?thesis using rest_counted [OF assms(5,4)] by auto
  next
    case (completed t)
    have inv: "queue_inv E g s" "call_inv E args g s t" using assms(5) by (simp_all add: rest_inv_def)
    have len: "w_len (locs s t) = 0" using inv(2) completed(2) by (simp add: call_inv_def local_inv_def)
    have "set (call_chunks E t (args t)) \<subseteq> set (written s)"
    proof
      fix c assume "c \<in> set (call_chunks E t (args t))"
      then have "c \<in> set (written s) \<or> (\<exists>n \<le> chunk s t. (n, c) \<in> set g)"
        using inv(2) completed(2) len by (auto simp: call_inv_def sent_inv_def to_send_def call_chunks_0)
      then show "c \<in> set (written s)" using inv(1) completed(3) by (fastforce simp: queue_inv_def)
    qed
    then have "call_inv E args g (goto t (Done (uint (w_len (locs s t)))) s) t" using len by (simp add: call)
    then have "rest_inv E args g s'" using rest_goto [OF assms(5), of t] completed by simp
    then show ?thesis ..
  next
    case (err_enqueue t e)
    then show ?thesis using rest_err_enqueue [OF assms(5,4)] assms(2) by auto
  next
    case (err_process t e)
    then show ?thesis using rest_err_process [OF assms(5)] assms(2) by auto
  next
    case (core a h n q)
    then show ?thesis using rest_core [OF assms(5,4)] by auto
  qed (use assms(2) in \<open>auto intro!: exI [of _ g] rest_goto [OF assms(5)] simp: call\<close>)
qed (rule owners_step [OF assms(1,2,4)])

lemma winv_reach:
  assumes "dma_reach E s0 s" "\<not> signals E" "inj_on (handles E) {..<TLKM_DMA_CHUNKS}" "dma_start args s0"
  shows "owners s \<and> (\<exists>g. rest_inv E args g s)"
  using assms(1)
proof (induction rule: rtranclp_induct)
  case base
  have "call_inv E args [] s0 t" for t
    using assms(4) by (simp add: call_inv_defs dma_start_def holding_def in_chunk_def)
  then have "rest_inv E args [] s0"
    using assms(4) by (simp add: rest_inv_def queue_inv_def proc_inv_def origin_inv_def dma_start_def)
  moreover have "owners s0" using assms(4)
    by (simp add: owners_def own_range_def own_inj_def own_turn_def own_all_def dma_start_def)
  ultimately show ?case by blast
qed (use winv_step assms(2,3) in blast)

lemma set_bytes_at: "set (bytes_at cs) = (\<Union>c \<in> set cs. set (bytes_at [c]))"
  by (induction cs) auto

lemma set_bytes_mono: "set cs \<subseteq> set ds \<Longrightarrow> set (bytes_at cs) \<subseteq> set (bytes_at ds)"
  using set_bytes_at [of cs] set_bytes_at [of ds] by auto

section \<open>Delivery\<close>


section \<open>Termination\<close>

fun pc_work :: "wpc \<Rightarrow> nat" where
  "pc_work Entry = 11" | "pc_work Top = 10" | "pc_work Wait_slot = 9" | "pc_work Fill = 8" | "pc_work Sync = 7"
| "pc_work Wait_enq = 6" | "pc_work Issue = 5" | "pc_work (Err_enq e) = 4" | "pc_work (Err_proc e) = 3"
| "pc_work Count = 2" | "pc_work Wait_last = 1" | "pc_work (Done r) = 0"

definition call_work :: "'t wsys \<Rightarrow> 't \<Rightarrow> nat" where
  "call_work s t = 20 * unat (w_len (locs s t)) + pc_work (pcs s t)"

definition work :: "'t :: finite wsys \<Rightarrow> nat" where
  "work s = (\<Sum>t \<in> UNIV. call_work s t) + length (hwq s)"

definition sizes :: "'t wsys \<Rightarrow> bool" where
  "sizes s \<longleftrightarrow> (\<forall>t. in_chunk (pcs s t) \<longrightarrow> w_len (locs s t) \<noteq> 0 \<and> w_sz (locs s t) = cpy_size (w_len (locs s t)))"

lemma sizes_step: "dma_step E s s' \<Longrightarrow> sizes s \<Longrightarrow> sizes s'"
  by (induction rule: dma_step.induct) (auto simp: sizes_def step_simps in_chunk_def holding_def word_gt_0)

lemma sum_other:
  fixes f g :: "'t :: finite \<Rightarrow> nat"
  assumes "\<And>u. u \<noteq> t \<Longrightarrow> f u = g u"
  shows "sum f UNIV + g t = sum g UNIV + f t"
proof -
  have "sum f (UNIV - {t}) = sum g (UNIV - {t})" using assms by (intro sum.cong) auto
  then show ?thesis by (simp add: sum.remove [of UNIV t f] sum.remove [of UNIV t g])
qed

lemma work_other:
  assumes "\<And>u. u \<noteq> t \<Longrightarrow> call_work s' u = call_work s u"
    and "call_work s' t + length (hwq s') < call_work s t + length (hwq s)"
  shows "work s' < work s"
  using sum_other [of t "call_work s'" "call_work s"] assms by (simp add: work_def)

lemma work_goto:
  assumes "pcs s1 = pcs s" "hwq s1 = hwq s" "\<And>u. w_len (locs s1 u) = w_len (locs s u)" "pc_work p < pc_work (pcs s t)"
  shows "work (goto t p s1) < work s"
  using assms by (intro work_other [of t]) (simp_all add: call_work_def)

lemma advance_work:
  "sizes s \<Longrightarrow> in_chunk (pcs s t) \<Longrightarrow> unat (w_len (advance_chunk (locs s t))) < unat (w_len (locs s t))"
  using unat_minus_cpy [of "w_len (locs s t)"] by (auto simp: sizes_def advance_chunk_def)

lemma work_decreases:
  fixes s :: "'t :: finite wsys"
  assumes "dma_step E s s'" and "sizes s"
  shows "work s' < work s"
  using assms(1)
proof (cases rule: dma_step.cases)
  case (issue_killed t)
  then show ?thesis using advance_work [OF assms(2), of t]
    by (intro work_other [of t]) (auto simp: call_work_def in_chunk_def holding_def)
next
  case (counted t)
  then show ?thesis using advance_work [OF assms(2), of t]
    by (intro work_other [of t]) (auto simp: call_work_def in_chunk_def holding_def)
next
  case (issued t)
  then show ?thesis by (intro work_other [of t]) (auto simp: call_work_def)
next
  case (core a h n q)
  then show ?thesis by (simp add: work_def call_work_def)
qed (auto intro!: work_goto simp: set_loc_def)

text \<open>C32: Every execution of concurrent transfers to the device is finite: there is no infinite run of
  calls, error paths, core and interrupts from the start of any finite number of calls, with or without
  signals.\<close>

theorem dma_write_terminates:
  fixes args :: "'t :: finite \<Rightarrow> wlocal"
  assumes "dma_start args s0"
  shows "\<not> (\<exists>run. run 0 = s0 \<and> (\<forall>i. dma_step E (run i) (run (Suc i))))"
proof
  assume "\<exists>run. run 0 = s0 \<and> (\<forall>i. dma_step E (run i) (run (Suc i)))"
  then obtain run where run: "run 0 = s0" "\<And>i. dma_step E (run i) (run (Suc i))" by blast
  have sz: "sizes (run i)" for i
  proof (induction i)
    case 0
    then show ?case using assms run(1) by (simp add: sizes_def dma_start_def in_chunk_def holding_def)
  qed (use sizes_step run(2) in blast)
  have "work (run i) + i \<le> work (run 0)" for i
  proof (induction i)
    case (Suc i)
    then show ?case using work_decreases [OF run(2) sz, of i] by simp
  qed simp
  from this [of "Suc (work (run 0))"] show False by simp
qed

section \<open>No deadlock\<close>

text \<open>Without signals and faults no call is in an error path, every issued command is still with the
  core or counted, and a call that has nothing left to send has sent something.\<close>

definition live_inv :: "'t wsys \<Rightarrow> bool" where
  "live_inv s \<longleftrightarrow> (\<forall>t e. pcs s t \<noteq> Err_enq e \<and> pcs s t \<noteq> Err_proc e)
     \<and> processed s + length (hwq s) = enqueued s + (if \<exists>t. pcs s t = Count then 1 else 0)
     \<and> (\<forall>t. pcs s t = Entry \<longrightarrow> w_len (locs s t) \<noteq> 0)
     \<and> (\<forall>t. pcs s t = Top \<longrightarrow> w_len (locs s t) \<noteq> 0 \<or> chunk s t < enqueued s)
     \<and> (\<forall>t. pcs s t = Wait_last \<longrightarrow> chunk s t < enqueued s)"

lemma live_goto:
  assumes "live_inv s" "pcs s t \<noteq> Count" "p \<noteq> Count" "\<And>e. p \<noteq> Err_enq e \<and> p \<noteq> Err_proc e" "p \<noteq> Entry"
    "p = Top \<Longrightarrow> w_len (locs s t) \<noteq> 0" "p = Wait_last \<Longrightarrow> chunk s t < enqueued s"
  shows "live_inv (goto t p s)"
proof -
  have "(\<exists>u. pcs (goto t p s) u = Count) \<longleftrightarrow> (\<exists>u. pcs s u = Count)" using assms(2,3) by (metis goto_simps(8,9))
  then show ?thesis using assms unfolding live_inv_def by (auto simp: goto_def)
qed

lemma live_frame:
  "live_inv s \<Longrightarrow> live_inv (s\<lparr>cbuf := c\<rparr>)" "live_inv s \<Longrightarrow> live_inv (s\<lparr>dbuf := d\<rparr>)"
  "live_inv s \<Longrightarrow> \<not> pcs s t \<in> {Top, Wait_last} \<Longrightarrow> w_len l = w_len (locs s t) \<Longrightarrow> live_inv (set_loc t l s)"
  "live_inv s \<Longrightarrow> live_inv (s\<lparr>requested := n\<rparr>)"
  by (auto simp: live_inv_def set_loc_def)

lemma live_step:
  assumes "dma_step E s s'" "\<not> signals E" "\<not> faults E" "owners s" "live_inv s"
  shows "live_inv s'"
  using assms(1)
proof (cases rule: dma_step.cases)
  case (request t)
  have "pcs s' u = Count \<longleftrightarrow> pcs s u = Count" for u using request by (auto simp: step_simps)
  then have "(\<exists>u. pcs s' u = Count) \<longleftrightarrow> (\<exists>u. pcs s u = Count)" by simp
  then show ?thesis using assms(5) request unfolding live_inv_def by (auto simp: step_simps)
next
  case (issued t)
  have "chunk s t = enqueued s" using issued assms(4) by (simp add: owners_def own_turn_def)
  then have "\<not> counting s n" for n using no_counting [OF assms(4), of t] issued by simp
  then have nc: "\<not> (\<exists>u. pcs s u = Count)" by (auto simp: counting_def)
  then have "\<exists>u. pcs s' u = Count" using issued by (auto simp: step_simps)
  then show ?thesis using nc assms(5) issued unfolding live_inv_def by (auto simp: step_simps)
next
  case (counted t)
  have "\<not> (\<exists>u. pcs s' u = Count)"
  proof
    assume "\<exists>u. pcs s' u = Count"
    then obtain u where "pcs s u = Count" "u \<noteq> t" using counted by (auto simp: step_simps split: if_splits)
    then show False using assms(4) counted(2) by (auto simp: owners_def own_inj_def own_turn_def)
  qed
  moreover have "\<exists>u. pcs s u = Count" "chunk s t = enqueued s"
    using counted(2) assms(4) by (auto simp: owners_def own_turn_def)
  ultimately show ?thesis using assms(5) counted unfolding live_inv_def by (auto simp: step_simps less_Suc_eq)
next
  case (core a h n q)
  then show ?thesis using assms(5) by (auto simp: live_inv_def)
next
  case (aligned t)
  moreover have "w_len (locs s t) \<noteq> 0" using aligned assms(5) by (simp add: live_inv_def)
  ultimately show ?thesis by (auto intro!: live_goto assms(5))
next
  case (sent_all t)
  moreover have "chunk s t < enqueued s" using sent_all assms(5) by (auto simp: live_inv_def)
  ultimately show ?thesis by (auto intro!: live_goto assms(5))
next
  case (err_enqueue t e)
  then show ?thesis using assms(5) by (simp add: live_inv_def)
next
  case (err_process t e)
  then show ?thesis using assms(5) by (simp add: live_inv_def)
qed (use assms(2,3) in \<open>auto intro!: live_goto live_frame assms(5)\<close>)

lemma live_reach:
  assumes "dma_reach E s0 s" "\<not> signals E" "\<not> faults E" "inj_on (handles E) {..<TLKM_DMA_CHUNKS}" "dma_start args s0"
    and "\<forall>t. w_len (args t) > 0"
  shows "live_inv s"
  using assms(1)
proof (induction rule: rtranclp_induct)
  case base
  then show ?case using assms(5,6) by (auto simp: live_inv_def dma_start_def word_gt_0)
next
  case (step s s')
  then show ?case using live_step [OF step(2) assms(2,3)] winv_reach [OF step(1) assms(2,4,5)] by blast
qed

text \<open>A call whose chunk is the next to be enqueued can go on, or the core can.\<close>

lemma owner_steps:
  assumes "owning (pcs s t)" "chunk s t = enqueued s" "processed s = enqueued s" "\<And>e. pcs s t \<noteq> Err_enq e"
  shows "\<exists>s'. dma_step E s s'"
proof (cases "pcs s t")
  case Wait_slot
  then show ?thesis using assms(2,3) dma_step.slot_free [of s t E] by (auto simp: tlkm_const)
next
  case Wait_enq
  then show ?thesis using assms(2) dma_step.my_turn [of s t E] by auto
qed (use assms(1,4) dma_step.copied [of s t E] dma_step.synced [of s t E] dma_step.issued [of s t E]
    dma_step.counted [of s t E] in auto)


text \<open>A transfer of no bytes waits for chunk 0 to be processed: as long as there has been no other
  transfer nothing can happen any more.\<close>

lemma zero_length_blocks:
  assumes "\<And>t. pcs s t = Wait_last" "hwq s = []" "processed s = 0" "\<not> signals E"
  shows "\<not> dma_step E s s'"
  using assms by (auto elim: dma_step.cases)

section \<open>A transfer of two bytes\<close>

definition demo_wenv :: "unit wenv" where
  "demo_wenv = \<lparr>user = (\<lambda>_ a. ucast a), handles = word_of_nat, align = 64, signals = False, faults = False\<rparr>"

definition demo_args :: "unit \<Rightarrow> wlocal" where
  "demo_args = (\<lambda>_. \<lparr>w_dev = 0x40, w_usr = 7, w_len = 2, w_chunk = 0, w_sz = 0\<rparr>)"

definition demo_wstart :: "unit wsys" where
  "demo_wstart = \<lparr>requested = 0, enqueued = 0, processed = 0, cbuf = (\<lambda>_. []), dbuf = (\<lambda>_. []), hwq = [], written = [],
     pcs = (\<lambda>_. Entry), locs = demo_args\<rparr>"

lemma demo_write:
  "inj_on (handles demo_wenv) {..<TLKM_DMA_CHUNKS}" "\<not> signals demo_wenv" "\<not> faults demo_wenv" "align demo_wenv \<noteq> 0"
  "dma_start demo_args demo_wstart" "\<forall>t. w_len (demo_args t) > 0"
  by (auto simp: demo_wenv_def inj_on_def tlkm_const word_of_nat_eq_iff take_bit_eq_mod dma_start_def demo_args_def demo_wstart_def)

text \<open>The run of the single call.\<close>

lemma demo_run: "\<exists>s. dma_reach demo_wenv demo_wstart s \<and> pcs s () = Done 0"
proof -
  let ?E = demo_wenv
  define l where "l = \<lparr>w_dev = 0x40, w_usr = 7, w_len = 2, w_chunk = 0, w_sz = 2\<rparr>"
  define s where "s = (\<lambda>r e p c d q w pc l. \<lparr>requested = r, enqueued = e, processed = p, cbuf = c, dbuf = d, hwq = q,
     written = w, pcs = (\<lambda>_ :: unit. pc), locs = (\<lambda>_ :: unit. l)\<rparr>)"
  let ?d = "[7, 8] :: u8 list"
  let ?c = "(\<lambda>_. [])(0 := ?d)"
  let ?b = "(\<lambda>_ :: u64. [])(0 := ?d)"
  have upd: "f(() := y) = (\<lambda>_. y)" for f :: "unit \<Rightarrow> 'x" and y by (rule ext) simp
  note ev = s_def step_simps upd demo_wenv_def l_def slot_def
  have d: "user_data (\<lambda>a. ucast a) 7 2 = ?d" by (simp add: user_data_def upt_rec)
  have "dma_step ?E demo_wstart (s 0 0 0 (\<lambda>_. []) (\<lambda>_. []) [] [] Top (demo_args ()))"
    using dma_step.aligned [of demo_wstart "()" ?E] by (simp add: ev demo_wstart_def demo_args_def)
  moreover have "dma_step ?E (s 0 0 0 (\<lambda>_. []) (\<lambda>_. []) [] [] Top (demo_args ())) (s 1 0 0 (\<lambda>_. []) (\<lambda>_. []) [] [] Wait_slot l)"
    using dma_step.request [of "s 0 0 0 (\<lambda>_. []) (\<lambda>_. []) [] [] Top (demo_args ())" "()" ?E]
    by (simp add: ev demo_args_def cpy_size_def tlkm_const)
  moreover have "dma_step ?E (s 1 0 0 (\<lambda>_. []) (\<lambda>_. []) [] [] Wait_slot l) (s 1 0 0 (\<lambda>_. []) (\<lambda>_. []) [] [] Fill l)"
    using dma_step.slot_free [of "s 1 0 0 (\<lambda>_. []) (\<lambda>_. []) [] [] Wait_slot l" "()" ?E] by (simp add: ev tlkm_const)
  moreover have "dma_step ?E (s 1 0 0 (\<lambda>_. []) (\<lambda>_. []) [] [] Fill l) (s 1 0 0 ?c (\<lambda>_. []) [] [] Sync l)"
    using dma_step.copied [of "s 1 0 0 (\<lambda>_. []) (\<lambda>_. []) [] [] Fill l" "()" ?E] by (simp add: ev d)
  moreover have "dma_step ?E (s 1 0 0 ?c (\<lambda>_. []) [] [] Sync l) (s 1 0 0 ?c ?b [] [] Wait_enq l)"
    using dma_step.synced [of "s 1 0 0 ?c (\<lambda>_. []) [] [] Sync l" "()" ?E] by (simp add: ev)
  moreover have "dma_step ?E (s 1 0 0 ?c ?b [] [] Wait_enq l) (s 1 0 0 ?c ?b [] [] Issue l)"
    using dma_step.my_turn [of "s 1 0 0 ?c ?b [] [] Wait_enq l" "()" ?E] by (simp add: ev)
  moreover have "dma_step ?E (s 1 0 0 ?c ?b [] [] Issue l) (s 1 0 0 ?c ?b [(0x40, 0, 2)] [] Count l)"
    using dma_step.issued [of "s 1 0 0 ?c ?b [] [] Issue l" "()" ?E] by (simp add: ev)
  moreover have "dma_step ?E (s 1 0 0 ?c ?b [(0x40, 0, 2)] [] Count l) (s 1 1 0 ?c ?b [(0x40, 0, 2)] [] Top (advance_chunk l))"
    using dma_step.counted [of "s 1 0 0 ?c ?b [(0x40, 0, 2)] [] Count l" "()" ?E] by (simp add: ev)
  moreover have "dma_step ?E (s 1 1 0 ?c ?b [(0x40, 0, 2)] [] Top (advance_chunk l)) (s 1 1 0 ?c ?b [(0x40, 0, 2)] [] Wait_last (advance_chunk l))"
    using dma_step.sent_all [of "s 1 1 0 ?c ?b [(0x40, 0, 2)] [] Top (advance_chunk l)" "()" ?E] by (simp add: ev)
  moreover have "dma_step ?E (s 1 1 0 ?c ?b [(0x40, 0, 2)] [] Wait_last (advance_chunk l)) (s 1 1 1 ?c ?b [] [(0x40, ?d)] Wait_last (advance_chunk l))"
    using dma_step.core [of "s 1 1 0 ?c ?b [(0x40, 0, 2)] [] Wait_last (advance_chunk l)" "0x40" 0 2 "[]" ?E] by (simp add: ev)
  moreover have "dma_step ?E (s 1 1 1 ?c ?b [] [(0x40, ?d)] Wait_last (advance_chunk l)) (s 1 1 1 ?c ?b [] [(0x40, ?d)] (Done 0) (advance_chunk l))"
    using dma_step.completed [of "s 1 1 1 ?c ?b [] [(0x40, ?d)] Wait_last (advance_chunk l)" "()" ?E] by (simp add: ev)
  ultimately have "dma_reach ?E demo_wstart (s 1 1 1 ?c ?b [] [(0x40, ?d)] (Done 0) (advance_chunk l))"
    by (meson converse_rtranclp_into_rtranclp rtranclp.rtrancl_refl)
  then show ?thesis by (auto simp: s_def)
qed


theorem dma_write_terminates_witness:
  "dma_start demo_args demo_wstart \<and> \<not> (\<exists>run. run 0 = demo_wstart \<and> (\<forall>i. dma_step demo_wenv (run i) (run (Suc i))))"
  using dma_write_terminates [OF demo_write(5), of demo_wenv] demo_write(5) by blast


end
