(* ===== verification/Dma_Read.thy ===== *)
theory Dma_Read
  imports Dma_Write
begin

text \<open>
  Transfers from the device: \<^verbatim>\<open>tlkm_dma_copy_from\<close>. A mutex admits one call at a time, so the call is
  a function of the state of engine and core. The core works on its commands whenever it
  likes; the environment says how many it completes before the call looks at the counter of
  processed commands again, which waits are interrupted by a signal, and which copies to user memory
  fail. A wait that is never satisfied is \<^const>\<open>None\<close>.
\<close>

section \<open>State and environment\<close>

text \<open>An entry of the table \<^verbatim>\<open>chunks\<close>; address 0 marks an entry that is not in use.\<close>

record chunk_data_t =
  cpy_sz :: u64
  t_id :: nat
  usr_addr :: u64

text \<open>Buffers as in \<^verbatim>\<open>Dma_Write\<close>; \<open>tick\<close> counts the calls whose outcome the environment decides.\<close>

record rsys =
  r_enqueued :: nat
  r_processed :: nat
  rbuf :: "nat \<Rightarrow> u8 list"
  rdbuf :: "u64 \<Rightarrow> u8 list"
  rhw :: "(u64 \<times> u64 \<times> u64) list"   \<comment> \<open>bus address, device address, length\<close>
  umem :: "u64 \<Rightarrow> u8"
  tick :: nat

record renv =
  dmem :: "u64 \<Rightarrow> u8"
  rhandles :: "nat \<Rightarrow> u64"
  ralign :: u64
  progress :: "nat \<Rightarrow> nat"
  wait_killed :: "nat \<Rightarrow> bool"
  mutex_killed :: "nat \<Rightarrow> bool"
  user_bad :: "nat \<Rightarrow> bool"

section \<open>Core\<close>

definition core_read :: "renv \<Rightarrow> rsys \<Rightarrow> rsys" where
  "core_read E s = (case rhw s of [] \<Rightarrow> s
     | (h, a, n) # q \<Rightarrow> s\<lparr>rdbuf := (rdbuf s)(h := user_data (dmem E) a n), rhw := q, r_processed := r_processed s + 1\<rparr>)"

fun core_run :: "renv \<Rightarrow> nat \<Rightarrow> rsys \<Rightarrow> rsys" where
  "core_run E 0 s = s"
| "core_run E (Suc n) s = core_run E n (core_read E s)"

section \<open>The call\<close>

definition wait_processed :: "renv \<Rightarrow> nat \<Rightarrow> rsys \<Rightarrow> (bool \<times> rsys) option" where
  "wait_processed E n s =
     (let s1 = core_run E (progress E (tick s)) s in
      if wait_killed E (tick s) then Some (True, s1\<lparr>tick := tick s + 1\<rparr>)
      else let s2 = core_run E (n - r_processed s1) s1 in
        if r_processed s2 \<ge> n then Some (False, s2\<lparr>tick := tick s + 1\<rparr>) else None)"

definition write_user :: "u64 \<Rightarrow> u8 list \<Rightarrow> (u64 \<Rightarrow> u8) \<Rightarrow> u64 \<Rightarrow> u8" where
  "write_user a d m x = (if unat (x - a) < length d then d ! unat (x - a) else m x)"

text \<open>Wait for the transfer into buffer \<open>j\<close> and copy it out: the common part of the two loops.\<close>

definition drain_slot :: "renv \<Rightarrow> nat \<Rightarrow> chunk_data_t list \<Rightarrow> rsys \<Rightarrow> (int \<times> chunk_data_t list \<times> rsys) option" where
  "drain_slot E j cs s =
     (case wait_processed E (t_id (cs ! j)) s of
        None \<Rightarrow> None
      | Some (True, s1) \<Rightarrow> Some (- EACCES, cs, s1)
      | Some (False, s1) \<Rightarrow>
         if usr_addr (cs ! j) \<noteq> 0
         then let d = take (unat (cpy_sz (cs ! j))) (rdbuf s1 (rhandles E j));
                  s2 = s1\<lparr>rbuf := (rbuf s1)(j := d), tick := tick s1 + 1\<rparr>
              in if user_bad E (tick s1) then Some (- EAGAIN, cs, s2)
                 else Some (0, cs[j := (cs ! j)\<lparr>usr_addr := 0\<rparr>],
                        s2\<lparr>umem := write_user (usr_addr (cs ! j)) (rbuf s2 j) (umem s2)\<rparr>)
         else Some (0, cs, s1))"

text \<open>\<^verbatim>\<open>blue_dma_copy_from\<close>: the command goes to the core unless a signal interrupts the wait for the mutex.\<close>

definition start_read :: "renv \<Rightarrow> nat \<Rightarrow> u64 \<Rightarrow> u64 \<Rightarrow> rsys \<Rightarrow> nat \<times> rsys" where
  "start_read E j a n s =
     (if mutex_killed E (tick s) then (unat n, s\<lparr>tick := tick s + 1\<rparr>)
      else (r_enqueued s + 1, s\<lparr>rhw := rhw s @ [(rhandles E j, a, n)], r_enqueued := r_enqueued s + 1, tick := tick s + 1\<rparr>))"

function read_loop :: "renv \<Rightarrow> nat \<Rightarrow> chunk_data_t list \<Rightarrow> u64 \<Rightarrow> u64 \<Rightarrow> u64 \<Rightarrow> rsys
    \<Rightarrow> (int \<times> chunk_data_t list \<times> rsys) option" where
  "read_loop E cur cs a u n s =
     (if n = 0 then Some (0, cs, s)
      else case drain_slot E cur cs s of
        None \<Rightarrow> None
      | Some (e, cs1, s1) \<Rightarrow>
         if e \<noteq> 0 then Some (e, cs1, s1)
         else let k = cpy_size n; (i, s2) = start_read E cur a k s1;
                  cs2 = cs1[cur := \<lparr>cpy_sz = k, t_id = i, usr_addr = u\<rparr>]
              in read_loop E ((cur + 1) mod TLKM_DMA_CHUNKS) cs2 (a + k) (u + k) (n - k) s2)"
  by pat_completeness auto
termination by (relation "measure (\<lambda>(E, cur, cs, a, u, n, s). unat n)") (auto simp: unat_minus_cpy)

declare read_loop.simps [simp del]

fun drain_all :: "renv \<Rightarrow> nat \<Rightarrow> nat \<Rightarrow> chunk_data_t list \<Rightarrow> rsys \<Rightarrow> (int \<times> chunk_data_t list \<times> rsys) option" where
  "drain_all E i 0 cs s = Some (0, cs, s)"
| "drain_all E i (Suc n) cs s =
     (case drain_slot E i cs s of
        None \<Rightarrow> None
      | Some (e, cs1, s1) \<Rightarrow> if e \<noteq> 0 then Some (e, cs1, s1) else drain_all E (Suc i) n cs1 s1)"

text \<open>The result of a successful call is what is left of \<^verbatim>\<open>len\<close>, 0. Alignment 0 is a division by zero.\<close>

definition tlkm_dma_copy_from :: "renv \<Rightarrow> u64 \<Rightarrow> u64 \<Rightarrow> u64 \<Rightarrow> rsys \<Rightarrow> (int \<times> rsys) option" where
  "tlkm_dma_copy_from E u a n s =
     (if ralign E = 0 then None
      else if a mod ralign E \<noteq> 0 then Some (- EAGAIN, s)
      else let cs = replicate TLKM_DMA_CHUNKS \<lparr>cpy_sz = 0, t_id = 0, usr_addr = 0\<rparr> in
        case read_loop E 0 cs a u n (s\<lparr>r_enqueued := 0, r_processed := 0\<rparr>) of
          None \<Rightarrow> None
        | Some (e, cs1, s1) \<Rightarrow>
           if e \<noteq> 0 then Some (e, s1)
           else map_option (\<lambda>(e, cs2, s2). (e, s2)) (drain_all E 0 TLKM_DMA_CHUNKS cs1 s1))"

section \<open>Invariant\<close>

text \<open>The call reads from \<open>a0\<close> on to \<open>u0\<close> on. \<open>target c\<close> is the device address entry \<open>c\<close> is read from, and \<open>covers\<close>
  the bytes it holds.\<close>

definition source_of :: "u64 \<Rightarrow> u64 \<Rightarrow> chunk_data_t \<Rightarrow> u64" where
  "source_of a0 u0 c = a0 + (usr_addr c - u0)"

definition covers :: "u64 \<Rightarrow> chunk_data_t \<Rightarrow> nat \<Rightarrow> bool" where
  "covers u0 c x \<longleftrightarrow> usr_addr c \<noteq> 0 \<and> unat (usr_addr c - u0) \<le> x \<and> x < unat (usr_addr c - u0) + unat (cpy_sz c)"

definition pending_inv :: "renv \<Rightarrow> u64 \<Rightarrow> u64 \<Rightarrow> chunk_data_t list \<Rightarrow> rsys \<Rightarrow> bool" where
  "pending_inv E a0 u0 cs s \<longleftrightarrow> length cs = TLKM_DMA_CHUNKS \<and> r_enqueued s = r_processed s + length (rhw s)
     \<and> (\<forall>m < length (rhw s). \<exists>j < TLKM_DMA_CHUNKS. usr_addr (cs ! j) \<noteq> 0 \<and> t_id (cs ! j) = r_processed s + 1 + m
          \<and> rhw s ! m = (rhandles E j, source_of a0 u0 (cs ! j), cpy_sz (cs ! j)))
     \<and> (\<forall>j < TLKM_DMA_CHUNKS. t_id (cs ! j) \<le> r_enqueued s)
     \<and> (\<forall>j < TLKM_DMA_CHUNKS. \<forall>i < TLKM_DMA_CHUNKS. usr_addr (cs ! j) \<noteq> 0 \<longrightarrow> usr_addr (cs ! i) \<noteq> 0 \<longrightarrow>
          t_id (cs ! j) = t_id (cs ! i) \<longrightarrow> j = i)
     \<and> (\<forall>j < TLKM_DMA_CHUNKS. usr_addr (cs ! j) \<noteq> 0 \<longrightarrow> t_id (cs ! j) \<le> r_processed s \<longrightarrow>
          rdbuf s (rhandles E j) = user_data (dmem E) (source_of a0 u0 (cs ! j)) (cpy_sz (cs ! j)))"

lemma pendingD:
  assumes "pending_inv E a0 u0 cs s"
  shows "length cs = TLKM_DMA_CHUNKS" and "r_enqueued s = r_processed s + length (rhw s)"
    and "\<And>m. m < length (rhw s) \<Longrightarrow> \<exists>j < TLKM_DMA_CHUNKS. usr_addr (cs ! j) \<noteq> 0 \<and> t_id (cs ! j) = r_processed s + 1 + m
          \<and> rhw s ! m = (rhandles E j, source_of a0 u0 (cs ! j), cpy_sz (cs ! j))"
    and "\<And>j. j < TLKM_DMA_CHUNKS \<Longrightarrow> t_id (cs ! j) \<le> r_enqueued s"
    and "\<And>j. j < TLKM_DMA_CHUNKS \<Longrightarrow> usr_addr (cs ! j) \<noteq> 0 \<Longrightarrow> t_id (cs ! j) \<le> r_processed s \<Longrightarrow>
          rdbuf s (rhandles E j) = user_data (dmem E) (source_of a0 u0 (cs ! j)) (cpy_sz (cs ! j))"
    and "\<And>i j. j < TLKM_DMA_CHUNKS \<Longrightarrow> i < TLKM_DMA_CHUNKS \<Longrightarrow> usr_addr (cs ! j) \<noteq> 0 \<Longrightarrow> usr_addr (cs ! i) \<noteq> 0 \<Longrightarrow>
          t_id (cs ! j) = t_id (cs ! i) \<Longrightarrow> j = i"
  using assms unfolding pending_inv_def by blast+

definition delivered_inv :: "renv \<Rightarrow> u64 \<Rightarrow> u64 \<Rightarrow> nat \<Rightarrow> nat \<Rightarrow> (u64 \<Rightarrow> u8) \<Rightarrow> chunk_data_t list \<Rightarrow> rsys \<Rightarrow> bool" where
  "delivered_inv E a0 u0 len sent m0 cs s \<longleftrightarrow>
     (\<forall>x < sent. umem s (u0 + word_of_nat x) = dmem E (a0 + word_of_nat x) \<or> (\<exists>c \<in> set cs. covers u0 c x))
     \<and> (\<forall>y. unat (y - u0) \<ge> len \<longrightarrow> umem s y = m0 y)
     \<and> (\<forall>c \<in> set cs. usr_addr c \<noteq> 0 \<longrightarrow> unat (usr_addr c - u0) + unat (cpy_sz c) \<le> len)"

lemma core_read_inv:
  assumes "pending_inv E a0 u0 cs s" "inj_on (rhandles E) {..<TLKM_DMA_CHUNKS}"
  shows "pending_inv E a0 u0 cs (core_read E s)"
proof (cases "rhw s")
  case (Cons c q)
  note inv = assms(1) [unfolded pending_inv_def]
  obtain j where j: "j < TLKM_DMA_CHUNKS" "usr_addr (cs ! j) \<noteq> 0" "t_id (cs ! j) = r_processed s + 1"
    "c = (rhandles E j, source_of a0 u0 (cs ! j), cpy_sz (cs ! j))"
    using inv Cons by (metis (no_types, lifting) add.right_neutral length_greater_0_conv list.discI nth_Cons_0)
  have s: "core_read E s = s\<lparr>rdbuf := (rdbuf s)(rhandles E j := user_data (dmem E) (source_of a0 u0 (cs ! j)) (cpy_sz (cs ! j))),
      rhw := q, r_processed := r_processed s + 1\<rparr>" using Cons j(4) by (simp add: core_read_def)
  have "\<exists>i < TLKM_DMA_CHUNKS. usr_addr (cs ! i) \<noteq> 0 \<and> t_id (cs ! i) = r_processed s + 1 + 1 + m
      \<and> q ! m = (rhandles E i, source_of a0 u0 (cs ! i), cpy_sz (cs ! i))" if "m < length q" for m
  proof -
    have "Suc m < length (rhw s)" using that Cons by simp
    then obtain i where "i < TLKM_DMA_CHUNKS" "usr_addr (cs ! i) \<noteq> 0" "t_id (cs ! i) = r_processed s + 1 + Suc m"
      "rhw s ! Suc m = (rhandles E i, source_of a0 u0 (cs ! i), cpy_sz (cs ! i))" using inv by blast
    then show ?thesis using Cons by auto
  qed
  moreover have "rdbuf (core_read E s) (rhandles E i) = user_data (dmem E) (source_of a0 u0 (cs ! i)) (cpy_sz (cs ! i))"
    if i: "i < TLKM_DMA_CHUNKS" "usr_addr (cs ! i) \<noteq> 0" "t_id (cs ! i) \<le> r_processed s + 1" for i
  proof (cases "i = j")
    case False
    then have "t_id (cs ! i) \<noteq> t_id (cs ! j)" using inv i j by blast
    then have "t_id (cs ! i) \<le> r_processed s" using i(3) j(3) by simp
    moreover have "rhandles E i \<noteq> rhandles E j" using assms(2) i(1) j(1) False by (auto simp: inj_on_def)
    ultimately show ?thesis using inv i(1,2) by (simp add: s)
  qed (simp add: s)
  moreover have "r_enqueued s = r_processed s + 1 + length q" using inv Cons by simp
  ultimately show ?thesis using inv unfolding pending_inv_def s by (elim conjE) simp
qed (use assms in \<open>simp add: core_read_def\<close>)

lemma core_run_inv:
  assumes "pending_inv E a0 u0 cs s" "inj_on (rhandles E) {..<TLKM_DMA_CHUNKS}"
  shows "pending_inv E a0 u0 cs (core_run E n s)"
  using assms(1) by (induction n arbitrary: s) (auto intro: core_read_inv [OF _ assms(2)])

lemma core_run_frame:
  "umem (core_run E n s) = umem s \<and> r_enqueued (core_run E n s) = r_enqueued s
    \<and> r_processed (core_run E n s) = r_processed s + min n (length (rhw s))"
proof (induction n arbitrary: s)
  case (Suc n)
  then show ?case by (cases "rhw s") (auto simp: core_read_def)
qed simp

lemma pending_tick [simp]: "pending_inv E a0 u0 cs (s\<lparr>tick := n\<rparr>) = pending_inv E a0 u0 cs s"
  by (simp add: pending_inv_def)

lemma pending_buf [simp]: "pending_inv E a0 u0 cs (s\<lparr>rbuf := b\<rparr>) = pending_inv E a0 u0 cs s"
  "pending_inv E a0 u0 cs (s\<lparr>umem := m\<rparr>) = pending_inv E a0 u0 cs s"
  by (simp_all add: pending_inv_def)

text \<open>An entry whose transfer is complete can be taken out of use.\<close>

lemma pending_clear:
  assumes inv: "pending_inv E a0 u0 cs s" and p: "t_id (cs ! j) \<le> r_processed s"
  shows "pending_inv E a0 u0 (cs[j := (cs ! j)\<lparr>usr_addr := 0\<rparr>]) s" (is "pending_inv E a0 u0 ?cs s")
proof -
  have nth: "?cs ! i = (if i = j \<and> j < length cs then (cs ! j)\<lparr>usr_addr := 0\<rparr> else cs ! i)" for i
    by (cases "j < length cs") (auto simp: nth_list_update list_update_beyond)
  have tid: "t_id (?cs ! i) = t_id (cs ! i)" and used: "usr_addr (?cs ! i) \<noteq> 0 \<Longrightarrow> ?cs ! i = cs ! i" for i
    by (auto simp: nth split: if_splits)
  show ?thesis unfolding pending_inv_def
  proof (intro conjI allI impI)
    show "length ?cs = TLKM_DMA_CHUNKS" using pendingD(1) [OF inv] by simp
    show "r_enqueued s = r_processed s + length (rhw s)" by (rule pendingD(2) [OF inv])
    fix m assume m: "m < length (rhw s)"
    obtain i where i: "i < TLKM_DMA_CHUNKS" "usr_addr (cs ! i) \<noteq> 0" "t_id (cs ! i) = r_processed s + 1 + m"
      "rhw s ! m = (rhandles E i, source_of a0 u0 (cs ! i), cpy_sz (cs ! i))" using pendingD(3) [OF inv m] by blast
    then have "i \<noteq> j" using p by auto
    then have "?cs ! i = cs ! i" by simp
    then show "\<exists>i < TLKM_DMA_CHUNKS. usr_addr (?cs ! i) \<noteq> 0 \<and> t_id (?cs ! i) = r_processed s + 1 + m
        \<and> rhw s ! m = (rhandles E i, source_of a0 u0 (?cs ! i), cpy_sz (?cs ! i))" using i by metis
  next
    fix i assume "i < TLKM_DMA_CHUNKS"
    then show "t_id (?cs ! i) \<le> r_enqueued s" using pendingD(4) [OF inv] tid by metis
  next
    fix i k assume "i < TLKM_DMA_CHUNKS" "k < TLKM_DMA_CHUNKS" "usr_addr (?cs ! i) \<noteq> 0" "usr_addr (?cs ! k) \<noteq> 0"
      "t_id (?cs ! i) = t_id (?cs ! k)"
    then show "i = k" using pendingD(6) [OF inv, of i k] used by metis
  next
    fix i assume "i < TLKM_DMA_CHUNKS" "usr_addr (?cs ! i) \<noteq> 0" "t_id (?cs ! i) \<le> r_processed s"
    then show "rdbuf s (rhandles E i) = user_data (dmem E) (source_of a0 u0 (?cs ! i)) (cpy_sz (?cs ! i))"
      using pendingD(5) [OF inv, of i] used by metis
  qed
qed

lemma wait_ok:
  assumes inv: "pending_inv E a0 u0 cs s" and inj: "inj_on (rhandles E) {..<TLKM_DMA_CHUNKS}"
    and n: "n \<le> r_enqueued s" and ok: "\<not> wait_killed E (tick s)"
  shows "\<exists>s'. wait_processed E n s = Some (False, s') \<and> pending_inv E a0 u0 cs s' \<and> n \<le> r_processed s'
    \<and> umem s' = umem s"
proof -
  let ?s1 = "core_run E (progress E (tick s)) s"
  let ?s2 = "core_run E (n - r_processed ?s1) ?s1"
  have i1: "pending_inv E a0 u0 cs ?s1" by (rule core_run_inv [OF inv inj])
  then have i2: "pending_inv E a0 u0 cs ?s2" by (rule core_run_inv [OF _ inj])
  have "n \<le> r_processed ?s2"
    using core_run_frame [of E "n - r_processed ?s1" ?s1] core_run_frame [of E "progress E (tick s)" s] n i1
    by (auto simp: pending_inv_def)
  then show ?thesis using i2 ok core_run_frame by (simp add: wait_processed_def Let_def)
qed

text \<open>Within the call, offsets do not wrap around.\<close>

lemma in_range:
  fixes y b u0 :: u64
  assumes "unat (b - u0) + n \<le> l" "l < 2 ^ 64"
  shows "unat (y - b) < n \<longleftrightarrow> unat (b - u0) \<le> unat (y - u0) \<and> unat (y - u0) < unat (b - u0) + n"
proof -
  define p q where "p = y - u0" and "q = b - u0"
  have pq: "y - b = p - q" by (simp add: p_def q_def)
  show ?thesis
  proof (cases "q \<le> p")
    case True
    then show ?thesis unfolding pq by (auto simp: unat_sub word_le_nat_alt simp flip: p_def q_def)
  next
    case False
    then have "unat p < unat q" by (simp add: word_le_nat_alt)
    moreover have "unat (p - q) = unat p + 2 ^ 64 - unat q"
      using False by (simp add: unat_sub_if' word_le_nat_alt)
    moreover have "unat q + n \<le> l" using assms(1) by (simp add: q_def)
    ultimately show ?thesis unfolding pq using assms(2) by (simp flip: p_def q_def)
  qed
qed

lemma write_user_value:
  assumes "unat (y - b) < unat n"
  shows "write_user b (user_data m (a0 + (b - u0)) n) f y = m (a0 + (y - u0))"
  using assms by (simp add: write_user_def user_data_def)

lemma drain_ok:
  assumes inv: "pending_inv E a0 u0 cs s" and del: "delivered_inv E a0 u0 len sent m0 cs s"
    and len: "sent \<le> len" "len < 2 ^ 64" and inj: "inj_on (rhandles E) {..<TLKM_DMA_CHUNKS}"
    and ok: "\<And>i. \<not> wait_killed E i" "\<And>i. \<not> user_bad E i" and j: "j < TLKM_DMA_CHUNKS"
  shows "\<exists>cs' s'. drain_slot E j cs s = Some (0, cs', s') \<and> pending_inv E a0 u0 cs' s'
    \<and> delivered_inv E a0 u0 len sent m0 cs' s' \<and> usr_addr (cs' ! j) = 0 \<and> (\<forall>i. i \<noteq> j \<longrightarrow> cs' ! i = cs ! i)"
proof -
  let ?c = "cs ! j"
  have "t_id ?c \<le> r_enqueued s" using pendingD(4) [OF inv j] .
  then obtain s1 where w: "wait_processed E (t_id ?c) s = Some (False, s1)" and i1: "pending_inv E a0 u0 cs s1"
    and p: "t_id ?c \<le> r_processed s1" and m: "umem s1 = umem s"
    using wait_ok [OF inv inj _ ok(1)] by blast
  have d1: "delivered_inv E a0 u0 len sent m0 cs s1" using del m by (simp add: delivered_inv_def)
  show ?thesis
  proof (cases "usr_addr ?c = 0")
    case True
    then show ?thesis using w i1 d1 by (simp add: drain_slot_def)
  next
    case False
    let ?b = "usr_addr ?c"
    let ?n = "unat (cpy_sz ?c)"
    have cin: "?c \<in> set cs" using inv j by (simp add: pending_inv_def)
    have r: "unat (?b - u0) + ?n \<le> len" using d1 cin False by (simp add: delivered_inv_def)
    have data: "rdbuf s1 (rhandles E j) = user_data (dmem E) (a0 + (?b - u0)) (cpy_sz ?c)"
      using pendingD(5) [OF i1 j False p] by (simp add: source_of_def)
    define cs' where "cs' = cs[j := ?c\<lparr>usr_addr := 0\<rparr>]"
    define s' where "s' = s1\<lparr>rbuf := (rbuf s1)(j := rdbuf s1 (rhandles E j)), tick := tick s1 + 1,
      umem := write_user ?b (rdbuf s1 (rhandles E j)) (umem s1)\<rparr>"
    have run: "drain_slot E j cs s = Some (0, cs', s')"
      using w False ok(2) data by (simp add: drain_slot_def cs'_def s'_def Let_def)
    have len': "length cs = TLKM_DMA_CHUNKS" using inv by (simp add: pending_inv_def)
    have "pending_inv E a0 u0 cs' s'"
      using pending_clear [OF i1 p] by (simp add: cs'_def s'_def)
    moreover have val: "umem s' y = (if unat (?b - u0) \<le> unat (y - u0) \<and> unat (y - u0) < unat (?b - u0) + ?n
        then dmem E (a0 + (y - u0)) else umem s1 y)" for y
    proof (cases "unat (y - ?b) < ?n")
      case True
      then show ?thesis using in_range [OF r len(2), of y] write_user_value [OF True] by (simp add: s'_def data)
    next
      case False
      then show ?thesis using in_range [OF r len(2), of y] by (auto simp: s'_def data write_user_def)
    qed
    have "delivered_inv E a0 u0 len sent m0 cs' s'"
    proof -
      have "umem s' (u0 + word_of_nat x) = dmem E (a0 + word_of_nat x) \<or> (\<exists>c \<in> set cs'. covers u0 c x)" if x: "x < sent" for x
      proof -
        have ux: "unat (word_of_nat x :: u64) = x" using x len by (simp add: unat_of_nat take_bit_eq_mod)
        consider "umem s1 (u0 + word_of_nat x) = dmem E (a0 + word_of_nat x)" | c where "c \<in> set cs" "covers u0 c x"
          using d1 x by (auto simp: delivered_inv_def)
        then show ?thesis
        proof cases
          case 2
          then obtain i where i: "i < length cs" "c = cs ! i" by (auto simp: in_set_conv_nth)
          show ?thesis
          proof (cases "i = j")
            case True
            then show ?thesis using 2 i val [of "u0 + word_of_nat x"] ux by (auto simp: covers_def)
          next
            case False
            then have "c \<in> set cs'" using i len' by (metis cs'_def length_list_update nth_list_update_neq nth_mem)
            then show ?thesis using 2 by blast
          qed
        qed (simp add: val)
      qed
      moreover have "\<forall>y. unat (y - u0) \<ge> len \<longrightarrow> umem s' y = m0 y" using d1 val r by (auto simp: delivered_inv_def)
      moreover have "\<forall>c \<in> set cs'. usr_addr c \<noteq> 0 \<longrightarrow> unat (usr_addr c - u0) + unat (cpy_sz c) \<le> len"
        using d1 by (auto simp: cs'_def delivered_inv_def dest!: set_update_subset_insert [THEN subsetD])
      ultimately show ?thesis by (simp add: delivered_inv_def)
    qed
    ultimately show ?thesis using run j len' by (auto simp: cs'_def)
  qed
qed

text \<open>The next chunk goes to an entry that is not in use.\<close>

lemma start_ok:
  assumes inv: "pending_inv E a0 u0 cs s" and j: "j < TLKM_DMA_CHUNKS" "usr_addr (cs ! j) = 0" and u: "u \<noteq> 0"
    and ok: "\<not> mutex_killed E (tick s)" and st: "start_read E j (a0 + (u - u0)) k s = (i, s')"
  shows "pending_inv E a0 u0 (cs[j := \<lparr>cpy_sz = k, t_id = i, usr_addr = u\<rparr>]) s'" (is "pending_inv E a0 u0 ?cs s'")
proof -
  have i: "i = r_enqueued s + 1" and s': "s' = s\<lparr>rhw := rhw s @ [(rhandles E j, a0 + (u - u0), k)], r_enqueued := r_enqueued s + 1, tick := tick s + 1\<rparr>"
    using st ok by (auto simp: start_read_def)
  have len: "length cs = TLKM_DMA_CHUNKS" by (rule pendingD(1) [OF inv])
  have new: "?cs ! j = \<lparr>cpy_sz = k, t_id = i, usr_addr = u\<rparr>" using j(1) len by simp
  have old: "m \<noteq> j \<Longrightarrow> ?cs ! m = cs ! m" for m by simp
  note enq = pendingD(2) [OF inv]
  show ?thesis unfolding pending_inv_def
  proof (intro conjI allI impI)
    show "length ?cs = TLKM_DMA_CHUNKS" using len by simp
    show "r_enqueued s' = r_processed s' + length (rhw s')" using enq by (simp add: s')
    fix m assume m: "m < length (rhw s')"
    show "\<exists>n < TLKM_DMA_CHUNKS. usr_addr (?cs ! n) \<noteq> 0 \<and> t_id (?cs ! n) = r_processed s' + 1 + m
        \<and> rhw s' ! m = (rhandles E n, source_of a0 u0 (?cs ! n), cpy_sz (?cs ! n))"
    proof (cases "m < length (rhw s)")
      case True
      then obtain n where n: "n < TLKM_DMA_CHUNKS" "usr_addr (cs ! n) \<noteq> 0" "t_id (cs ! n) = r_processed s + 1 + m"
        "rhw s ! m = (rhandles E n, source_of a0 u0 (cs ! n), cpy_sz (cs ! n))" using pendingD(3) [OF inv] by blast
      then have "?cs ! n = cs ! n" using j(2) by (intro old) auto
      then show ?thesis using n True by (intro exI [of _ n]) (simp add: s' nth_append)
    next
      case False
      then have "m = length (rhw s)" using m by (simp add: s')
      then show ?thesis using j(1) new u i enq by (intro exI [of _ j]) (simp add: s' source_of_def)
    qed
  next
    fix n assume n: "n < TLKM_DMA_CHUNKS"
    show "t_id (?cs ! n) \<le> r_enqueued s'" using pendingD(4) [OF inv n] new old [of n] i by (cases "n = j") (simp_all add: s')
  next
    fix m n assume mn: "m < TLKM_DMA_CHUNKS" "n < TLKM_DMA_CHUNKS" "usr_addr (?cs ! m) \<noteq> 0" "usr_addr (?cs ! n) \<noteq> 0"
      "t_id (?cs ! m) = t_id (?cs ! n)"
    then show "m = n"
      using pendingD(6) [OF inv, of m n] pendingD(4) [OF inv mn(1)] pendingD(4) [OF inv mn(2)] new old [of m] old [of n] i
      by (cases "m = j"; cases "n = j") simp_all
  next
    fix n assume n: "n < TLKM_DMA_CHUNKS" "usr_addr (?cs ! n) \<noteq> 0" "t_id (?cs ! n) \<le> r_processed s'"
    then have "n \<noteq> j" using new i enq by (auto simp: s')
    then show "rdbuf s' (rhandles E n) = user_data (dmem E) (source_of a0 u0 (?cs ! n)) (cpy_sz (?cs ! n))"
      using pendingD(5) [OF inv n(1)] n by (simp add: s')
  qed
qed

lemma start_delivered:
  assumes del: "delivered_inv E a0 u0 len x m0 cs s" and j: "j < length cs" "usr_addr (cs ! j) = 0"
    and u: "u = u0 + word_of_nat x" "u \<noteq> 0" and k: "x + unat k \<le> len" "len < 2 ^ 64" and m: "umem s' = umem s"
  shows "delivered_inv E a0 u0 len (x + unat k) m0 (cs[j := \<lparr>cpy_sz = k, t_id = i, usr_addr = u\<rparr>]) s'"
    (is "delivered_inv E a0 u0 len _ m0 ?cs s'")
proof -
  let ?c = "\<lparr>cpy_sz = k, t_id = i, usr_addr = u\<rparr>"
  have off: "unat (u - u0) = x" using u(1) k by (simp add: unat_of_nat take_bit_eq_mod)
  have new: "?c \<in> set ?cs" using j(1) by (rule set_update_memI)
  have old: "c \<in> set ?cs" if "c \<in> set cs" "usr_addr c \<noteq> 0" for c
    using that j by (metis in_set_conv_nth length_list_update nth_list_update_neq)
  have "umem s' (u0 + word_of_nat y) = dmem E (a0 + word_of_nat y) \<or> (\<exists>c \<in> set ?cs. covers u0 c y)" if y: "y < x + unat k" for y
  proof (cases "y < x")
    case True
    then have "umem s (u0 + word_of_nat y) = dmem E (a0 + word_of_nat y) \<or> (\<exists>c \<in> set cs. covers u0 c y)"
      using del by (simp add: delivered_inv_def)
    then show ?thesis using old m by (auto simp: covers_def)
  next
    case False
    then have "covers u0 ?c y" using y u(2) off by (simp add: covers_def)
    then show ?thesis using new by blast
  qed
  moreover have "\<forall>c \<in> set ?cs. usr_addr c \<noteq> 0 \<longrightarrow> unat (usr_addr c - u0) + unat (cpy_sz c) \<le> len"
    using del off k(1) by (auto simp: delivered_inv_def dest!: set_update_subset_insert [THEN subsetD])
  ultimately show ?thesis using del m by (simp add: delivered_inv_def)
qed

section \<open>Delivery\<close>

definition undisturbed :: "renv \<Rightarrow> bool" where
  "undisturbed E \<longleftrightarrow> (\<forall>i. \<not> wait_killed E i \<and> \<not> user_bad E i \<and> \<not> mutex_killed E i)"

lemma read_loop_ok:
  assumes ok: "undisturbed E" and inj: "inj_on (rhandles E) {..<TLKM_DMA_CHUNKS}" and len: "len < 2 ^ 64"
    and usr: "\<And>x. x < len \<Longrightarrow> u0 + word_of_nat x \<noteq> 0"
  shows "pending_inv E a0 u0 cs s \<Longrightarrow> delivered_inv E a0 u0 len x m0 cs s \<Longrightarrow> x + unat n = len \<Longrightarrow>
    a = a0 + word_of_nat x \<Longrightarrow> u = u0 + word_of_nat x \<Longrightarrow> cur < TLKM_DMA_CHUNKS \<Longrightarrow>
    \<exists>cs' s'. read_loop E cur cs a u n s = Some (0, cs', s') \<and> pending_inv E a0 u0 cs' s' \<and> delivered_inv E a0 u0 len len m0 cs' s'"
proof (induction "unat n" arbitrary: n cur cs a u s x rule: less_induct)
  case less
  show ?case
  proof (cases "n = 0")
    case True
    then show ?thesis using less.prems by (simp add: read_loop.simps)
  next
    case False
    let ?k = "cpy_size n"
    have k: "?k \<le> n" "unat ?k \<le> unat n" using cpy_size_props [OF False] by (simp_all add: word_le_nat_alt)
    have pos: "0 < unat n" using False by (simp add: unat_gt_0)
    obtain cs1 s1 where d: "drain_slot E cur cs s = Some (0, cs1, s1)" and p1: "pending_inv E a0 u0 cs1 s1"
      and d1: "delivered_inv E a0 u0 len x m0 cs1 s1" and free: "usr_addr (cs1 ! cur) = 0"
      using drain_ok [OF less.prems(1,2) _ len inj _ _ less.prems(6)] less.prems(3) ok by (auto simp: undisturbed_def)
    obtain i s2 where st: "start_read E cur a ?k s1 = (i, s2)" by (metis surj_pair)
    have u: "u \<noteq> 0" using usr [of x] less.prems(3,5) pos by simp
    have a: "a = a0 + (u - u0)" using less.prems(4,5) by simp
    define cs2 where "cs2 = cs1[cur := \<lparr>cpy_sz = ?k, t_id = i, usr_addr = u\<rparr>]"
    have p2: "pending_inv E a0 u0 cs2 s2"
      using start_ok [OF p1 less.prems(6) free u _ st [unfolded a]] ok by (simp add: undisturbed_def cs2_def)
    have m: "umem s2 = umem s1" using st by (auto simp: start_read_def split: if_splits)
    have d2: "delivered_inv E a0 u0 len (x + unat ?k) m0 cs2 s2"
      using start_delivered [OF d1 _ free less.prems(5) u _ len m, of ?k i] pendingD(1) [OF p1] less.prems(3,6) k(2)
      by (simp add: cs2_def)
    have "unat (n - ?k) = unat n - unat ?k" using k(1) by (rule unat_sub)
    then have "\<exists>cs' s'. read_loop E ((cur + 1) mod TLKM_DMA_CHUNKS) cs2 (a + ?k) (u + ?k) (n - ?k) s2 = Some (0, cs', s')
        \<and> pending_inv E a0 u0 cs' s' \<and> delivered_inv E a0 u0 len len m0 cs' s'"
      using less.prems(3-5) k(2) unat_minus_cpy [OF False]
      by (intro less.hyps [OF _ p2 d2]) (simp_all add: add.assoc tlkm_const)
    then show ?thesis using False d st by (simp add: read_loop.simps [of E cur cs a u n s] Let_def cs2_def)
  qed
qed

lemma drain_all_ok:
  assumes ok: "undisturbed E" and inj: "inj_on (rhandles E) {..<TLKM_DMA_CHUNKS}" and len: "len < 2 ^ 64"
  shows "pending_inv E a0 u0 cs s \<Longrightarrow> delivered_inv E a0 u0 len len m0 cs s \<Longrightarrow> i + n = TLKM_DMA_CHUNKS \<Longrightarrow>
    (\<And>j. j < i \<Longrightarrow> usr_addr (cs ! j) = 0) \<Longrightarrow>
    \<exists>cs' s'. drain_all E i n cs s = Some (0, cs', s') \<and> pending_inv E a0 u0 cs' s' \<and> delivered_inv E a0 u0 len len m0 cs' s'
      \<and> (\<forall>j < TLKM_DMA_CHUNKS. usr_addr (cs' ! j) = 0)"
proof (induction n arbitrary: i cs s)
  case (Suc n)
  have i: "i < TLKM_DMA_CHUNKS" using Suc.prems(3) by simp
  obtain cs1 s1 where d: "drain_slot E i cs s = Some (0, cs1, s1)" "pending_inv E a0 u0 cs1 s1"
    "delivered_inv E a0 u0 len len m0 cs1 s1" "usr_addr (cs1 ! i) = 0" "\<forall>j. j \<noteq> i \<longrightarrow> cs1 ! j = cs ! j"
    using drain_ok [OF Suc.prems(1,2) _ len inj _ _ i] ok by (auto simp: undisturbed_def)
  have "\<exists>cs' s'. drain_all E (Suc i) n cs1 s1 = Some (0, cs', s') \<and> pending_inv E a0 u0 cs' s'
      \<and> delivered_inv E a0 u0 len len m0 cs' s' \<and> (\<forall>j < TLKM_DMA_CHUNKS. usr_addr (cs' ! j) = 0)"
    using Suc.prems(3,4) d(4,5) by (intro Suc.IH d(2,3)) (auto simp: less_Suc_eq)
  then show ?case using d(1) by simp
qed auto


definition demo_renv :: renv where
  "demo_renv = \<lparr>dmem = (\<lambda>a. ucast a + 1), rhandles = word_of_nat, ralign = 64, progress = (\<lambda>_. 0),
     wait_killed = (\<lambda>_. False), mutex_killed = (\<lambda>_. False), user_bad = (\<lambda>_. False)\<rparr>"

definition demo_rsys :: rsys where
  "demo_rsys = \<lparr>r_enqueued = 0, r_processed = 0, rbuf = (\<lambda>_. []), rdbuf = (\<lambda>_. []), rhw = [], umem = (\<lambda>_. 0), tick = 0\<rparr>"


text \<open>A call that is interrupted leaves its commands with the core, and the counters are reset by the next
  call: the completion of an old command is then taken for that of the new one. Here a read from
  address 0 is interrupted; the read from address 64 that follows returns success and the
  byte of address 0.\<close>

definition interrupted_read :: "rsys option" where
  "interrupted_read = map_option snd (tlkm_dma_copy_from (demo_renv\<lparr>wait_killed := (\<lambda>i. i \<ge> 2)\<rparr>) 16 0 1 demo_rsys)"

lemma dma_read_stale:
  "map_option (\<lambda>(r, s'). (r, umem s' 16)) (Option.bind interrupted_read (tlkm_dma_copy_from demo_renv 16 64 1))
    = Some (0, dmem demo_renv 0)"
  "dmem demo_renv 0 \<noteq> dmem demo_renv 64"
  by code_simp+

end
