(* ===== verification/Spec2Isabelle.thy ===== *)
theory Spec2Isabelle
  imports Fixed_Size_Pool_Conc Zynq_Dmamgmt Zynq_Ioctl Tlkm_Files Svm_Effects Zynq_Irq Pcie_Ioctl Dma_Read
begin

text \<open>
  A verification development of the TaPaSCo kernel driver.
\<close>

end
